theory Spec2Isabelle
  imports Main "HOL-Library.Word"
begin

unbundle bit_operations_syntax

section \<open>The Lua memcached module: data model\<close>

text \<open>
  A shallow embedding of \<^verbatim>\<open>src/memcached.c\<close> and \<^verbatim>\<open>src/memcached.h\<close>. Lua values
  are a datatype; Lua tables live in a heap (a list of tables, a table being the list of its
  entries in the order \<^verbatim>\<open>lua_next\<close> traverses them), so that shared and cyclic references
  are references to the same heap index. Every \<^verbatim>\<open>luaL_error\<close> of the source is a value
  of type \<open>error\<close>. The C types \<^verbatim>\<open>size_t\<close>, \<^verbatim>\<open>int64_t\<close> counters and positions are natural
  numbers or integers; every comparison against a limit of the C type is written out as the
  source has it.
\<close>

type_synonym byte = "8 word"

datatype error =
    BufferOverflow | BufferUnderflow | OutOfMemory | LoopDiverges
  | StringTooLong | TooManyTables | TooManyArrayElements | TooManyRecordElements
  | UnsupportedType | BadTableSize | BadBackref | BadCodecVersion | ExtraData
  | StackOverflow | TableIndexNil | TableIndexNaN
  | ArgError nat string
  | BadField string | CallNil | EncoderResult | EncodedValueTooLong
  | Closed | ResolveError | ConnectError | SocketClosed | SocketError
  | BadResponse | ProtocolError | MemcachedError nat

datatype lvalue =
    VNil | VBool bool | VInt "64 word" | VFloat "64 word" | VStr "byte list"
  | VTable nat | VOther nat

type_synonym ltable = "(lvalue \<times> lvalue) list"
type_synonym heap = "ltable list"

text \<open>
  What the code takes from its environment and the source does not determine:
  whether \<^verbatim>\<open>malloc\<close>/\<^verbatim>\<open>realloc\<close> of a given size succeeds, how many slots the Lua stack
  may grow to (\<^verbatim>\<open>luaL_checkstack\<close>), the byte order of the host (a \<^verbatim>\<open>double\<close> is
  copied in host order), and Lua's coercions of strings and floats to integers
  (\<^verbatim>\<open>lua_tointeger\<close>, and the normalisation of float keys by \<^verbatim>\<open>lua_rawset\<close>), and
  the memory that lies behind the terminating zero byte of a Lua string (\<open>beyond str i\<close> is
  the byte \<open>i + 1\<close> places after the zero; \<^verbatim>\<open>incr\<close> reads there when the server's
  value is shorter than eight bytes).
\<close>

record lua_env =
  alloc_ok :: "nat \<Rightarrow> bool"
  stack_max :: nat
  big_endian :: bool
  cvt_str :: "byte list \<Rightarrow> 64 word option"
  cvt_flt :: "64 word \<Rightarrow> 64 word option"
  beyond :: "byte list \<Rightarrow> nat \<Rightarrow> byte"

text \<open>
  \<^verbatim>\<open>memcached_buffer_t\<close>: the field \<^verbatim>\<open>b\<close> is the memory the pointer refers to, a function
  from offsets to bytes; \<^verbatim>\<open>realloc\<close> keeps its contents.
\<close>

record memcached_buffer =
  bytes :: "nat \<Rightarrow> byte"
  pos :: nat
  len :: nat
  capacity :: nat

definition SIZE_MAX :: nat where "SIZE_MAX = 2 ^ 64 - 1"
definition UINT64_MAX :: nat where "UINT64_MAX = 2 ^ 64 - 1"
definition INT64_MAX :: nat where "INT64_MAX = 2 ^ 63 - 1"
definition LUA_MAXINTEGER :: int where "LUA_MAXINTEGER = 2 ^ 63 - 1"
definition UINT8_MAX :: nat where "UINT8_MAX = 255"
definition UINT16_MAX :: nat where "UINT16_MAX = 65535"
definition UINT32_MAX :: nat where "UINT32_MAX = 4294967295"
definition MEMCACHED_BUFFER_SIZE :: nat where "MEMCACHED_BUFFER_SIZE = 1024"
definition MEMCACHED_BUFFER_MAX :: nat where "MEMCACHED_BUFFER_MAX = 256 * 1024 * 1024"

definition LUA_TBOOLEAN :: byte where "LUA_TBOOLEAN = 1"
definition LUA_TNUMBER :: byte where "LUA_TNUMBER = 3"
definition LUA_TSTRING :: byte where "LUA_TSTRING = 4"
definition LUA_TTABLE :: byte where "LUA_TTABLE = 5"
definition MEMCACHED_TYPE_BOOLEANTRRUE :: byte where "MEMCACHED_TYPE_BOOLEANTRRUE = LUA_TBOOLEAN + 64"
definition MEMCACHED_TYPE_INTEGER :: byte where "MEMCACHED_TYPE_INTEGER = LUA_TNUMBER + 64"
definition MEMCACHED_TYPE_STRINGSHORT :: byte where "MEMCACHED_TYPE_STRINGSHORT = LUA_TSTRING + 64"
definition MEMCACHED_TYPE_TABLE8 :: byte where "MEMCACHED_TYPE_TABLE8 = LUA_TTABLE"
definition MEMCACHED_TYPE_TABLE16 :: byte where "MEMCACHED_TYPE_TABLE16 = LUA_TTABLE + 16"
definition MEMCACHED_TYPE_TABLE32 :: byte where "MEMCACHED_TYPE_TABLE32 = LUA_TTABLE + 32"
definition MEMCACHED_TYPE_TABLE64 :: byte where "MEMCACHED_TYPE_TABLE64 = LUA_TTABLE + 32 + 16"
definition MEMCACHED_TYPE_TABLEREF :: byte where "MEMCACHED_TYPE_TABLEREF = LUA_TTABLE + 64"
definition MEMCACHED_CODEC_VERSION :: "byte list" where
  "MEMCACHED_CODEC_VERSION = [0x4C, 0x4D, 0xF6, 0x02]"

subsection \<open>Byte order\<close>

text \<open>
  \<^verbatim>\<open>htobe16/32/64\<close> followed by \<^verbatim>\<open>memcpy\<close> stores an integer most significant byte
  first, whatever the host; \<^verbatim>\<open>memcpy\<close> of a \<^verbatim>\<open>double\<close> stores it in host order.
\<close>

fun be_bytes :: "nat \<Rightarrow> nat \<Rightarrow> byte list" where
  "be_bytes 0 v = []"
| "be_bytes (Suc n) v = be_bytes n (v div 256) @ [of_nat (v mod 256)]"

definition be_nat :: "byte list \<Rightarrow> nat" where
  "be_nat bs = foldl (\<lambda>a x. a * 256 + unat x) 0 bs"

definition htobe16 :: "16 word \<Rightarrow> byte list" where "htobe16 w = be_bytes 2 (unat w)"
definition htobe32 :: "32 word \<Rightarrow> byte list" where "htobe32 w = be_bytes 4 (unat w)"
definition htobe64 :: "64 word \<Rightarrow> byte list" where "htobe64 w = be_bytes 8 (unat w)"
definition be16toh :: "byte list \<Rightarrow> 16 word" where "be16toh bs = of_nat (be_nat bs)"
definition be32toh :: "byte list \<Rightarrow> 32 word" where "be32toh bs = of_nat (be_nat bs)"
definition be64toh :: "byte list \<Rightarrow> 64 word" where "be64toh bs = of_nat (be_nat bs)"

definition double_bytes :: "lua_env \<Rightarrow> 64 word \<Rightarrow> byte list" where
  "double_bytes env w = (if big_endian env then be_bytes 8 (unat w) else rev (be_bytes 8 (unat w)))"
definition bytes_double :: "lua_env \<Rightarrow> byte list \<Rightarrow> 64 word" where
  "bytes_double env bs = of_nat (be_nat (if big_endian env then bs else rev bs))"

subsection \<open>Buffer\<close>

text \<open>
  The \<^verbatim>\<open>while (capacity < required)\<close> loop of \<^verbatim>\<open>buffer_require\<close>. Taken alone it does
  not return from capacity 0 (doubling 0 stays 0), so it is a partial function; the source sets
  a zero capacity to \<^verbatim>\<open>MEMCACHED_BUFFER_SIZE\<close> before it, and \<open>buffer_require\<close> is shown
  below never to yield \<open>LoopDiverges\<close>.
\<close>

partial_function (option) grow_capacity :: "nat \<Rightarrow> nat \<Rightarrow> nat option" where
  "grow_capacity cap required =
     (if cap < required then
        (if cap < 64 * 1024 then
           (if cap \<le> SIZE_MAX div 2 then grow_capacity (cap * 2) required
            else grow_capacity required required)
         else
           (if cap \<le> SIZE_MAX div 3 * 2 then grow_capacity (cap + cap div 2) required
            else grow_capacity required required))
      else Some cap)"

definition buffer_require :: "lua_env \<Rightarrow> memcached_buffer \<Rightarrow> nat \<Rightarrow> error + memcached_buffer" where
  "buffer_require env bf cnt =
     (if cnt > SIZE_MAX - pos bf \<or> pos bf + cnt > MEMCACHED_BUFFER_MAX then Inl BufferOverflow
      else let required = pos bf + cnt in
        if capacity bf \<ge> required then Inr bf
        else (case grow_capacity (if capacity bf = 0 then MEMCACHED_BUFFER_SIZE else capacity bf) required of
                None \<Rightarrow> Inl LoopDiverges
              | Some cap \<Rightarrow> if \<not> alloc_ok env cap then Inl OutOfMemory
                           else Inr (bf\<lparr>capacity := cap\<rparr>)))"

definition buffer_avail :: "memcached_buffer \<Rightarrow> nat \<Rightarrow> error + unit" where
  "buffer_avail bf cnt =
     (if cnt > SIZE_MAX - pos bf \<or> pos bf + cnt > len bf then Inl BufferUnderflow else Inr ())"

text \<open>
  \<^verbatim>\<open>memcpy\<close> into the buffer, reading from it, \<^verbatim>\<open>memmove\<close> within it, and the two
  idioms \<^verbatim>\<open>b->b[b->pos++] = x\<close> and \<^verbatim>\<open>memcpy(&b->b[b->pos], src, n); b->pos += n\<close>.
\<close>

definition write_bytes :: "(nat \<Rightarrow> byte) \<Rightarrow> nat \<Rightarrow> byte list \<Rightarrow> (nat \<Rightarrow> byte)" where
  "write_bytes m off bs = (\<lambda>i. if off \<le> i \<and> i < off + length bs then bs ! (i - off) else m i)"

definition read_bytes :: "(nat \<Rightarrow> byte) \<Rightarrow> nat \<Rightarrow> nat \<Rightarrow> byte list" where
  "read_bytes m off n = map m [off..<off + n]"

definition memmove :: "(nat \<Rightarrow> byte) \<Rightarrow> nat \<Rightarrow> nat \<Rightarrow> nat \<Rightarrow> (nat \<Rightarrow> byte)" where
  "memmove m dst src n = write_bytes m dst (read_bytes m src n)"

definition put :: "memcached_buffer \<Rightarrow> byte \<Rightarrow> memcached_buffer" where
  "put bf x = bf\<lparr>bytes := (bytes bf)(pos bf := x), pos := pos bf + 1\<rparr>"

definition put_bytes :: "memcached_buffer \<Rightarrow> byte list \<Rightarrow> memcached_buffer" where
  "put_bytes bf bs = bf\<lparr>bytes := write_bytes (bytes bf) (pos bf) bs, pos := pos bf + length bs\<rparr>"

definition buffer_tostring :: "memcached_buffer \<Rightarrow> byte list" where
  "buffer_tostring bf = read_bytes (bytes bf) 0 (len bf)"

subsection \<open>Encoder\<close>

record backref_enc =
  etab :: "nat \<rightharpoonup> int"
  ecnt :: int

fun supported :: "lvalue \<Rightarrow> bool" where
  "supported (VBool _) = True"
| "supported (VInt _) = True"
| "supported (VFloat _) = True"
| "supported (VStr _) = True"
| "supported (VTable _) = True"
| "supported _ = False"

definition lua_tointeger :: "lua_env \<Rightarrow> lvalue \<Rightarrow> 64 word" where
  "lua_tointeger env v =
     (case v of
        VInt i \<Rightarrow> i
      | VFloat w \<Rightarrow> (case cvt_flt env w of Some i \<Rightarrow> i | None \<Rightarrow> 0)
      | VStr s \<Rightarrow> (case cvt_str env s of Some i \<Rightarrow> i | None \<Rightarrow> 0)
      | _ \<Rightarrow> 0)"

definition lua_checkstack :: "lua_env \<Rightarrow> nat \<Rightarrow> nat \<Rightarrow> bool" where
  "lua_checkstack env stk n = (stk + n \<le> stack_max env)"

definition widen_header ::
  "lua_env \<Rightarrow> memcached_buffer \<Rightarrow> nat \<Rightarrow> byte \<Rightarrow> nat \<Rightarrow> nat \<Rightarrow> nat \<Rightarrow> error + memcached_buffer" where
  "widen_header env bf size_pos tag w narr nrec =
     (let bf1 = bf\<lparr>bytes := (bytes bf)(size_pos - 1 := tag)\<rparr> in
      case buffer_require env bf1 (2 * w - 2) of
        Inl e \<Rightarrow> Inl e
      | Inr bf2 \<Rightarrow>
          let bf3 = bf2\<lparr>bytes := memmove (bytes bf2) (size_pos + 2 * w) (size_pos + 2)
                                    (pos bf2 - size_pos - 2),
                         pos := pos bf2 + (2 * w - 2)\<rparr>;
              bf4 = bf3\<lparr>bytes := write_bytes (bytes bf3) size_pos (be_bytes w narr)\<rparr>;
              bf5 = bf4\<lparr>bytes := write_bytes (bytes bf4) (size_pos + w) (be_bytes w nrec)\<rparr>
          in Inr bf5)"

definition table_sizes ::
  "lua_env \<Rightarrow> memcached_buffer \<Rightarrow> nat \<Rightarrow> nat \<Rightarrow> nat \<Rightarrow> error + memcached_buffer" where
  "table_sizes env bf size_pos narr nrec =
     (if narr \<le> UINT8_MAX \<and> nrec \<le> UINT8_MAX then
        Inr (bf\<lparr>bytes := (bytes bf)(size_pos := of_nat narr, size_pos + 1 := of_nat nrec)\<rparr>)
      else if narr \<le> UINT16_MAX \<and> nrec \<le> UINT16_MAX then
        widen_header env bf size_pos MEMCACHED_TYPE_TABLE16 2 narr nrec
      else if narr \<le> UINT32_MAX \<and> nrec \<le> UINT32_MAX then
        widen_header env bf size_pos MEMCACHED_TYPE_TABLE32 4 narr nrec
      else
        widen_header env bf size_pos MEMCACHED_TYPE_TABLE64 8 narr nrec)"

definition entries :: "heap \<Rightarrow> nat \<Rightarrow> ltable" where
  "entries h t = (if t < length h then h ! t else [])"

definition classify :: "lua_env \<Rightarrow> lvalue \<Rightarrow> nat \<Rightarrow> nat \<Rightarrow> error + nat \<times> nat" where
  "classify env k narr nrec =
     (if nrec = 0 \<and> sint (lua_tointeger env k) = int narr + 1 then
        (if narr = INT64_MAX then Inl TooManyArrayElements else Inr (narr + 1, nrec))
      else
        (if nrec = INT64_MAX then Inl TooManyRecordElements else Inr (narr, nrec + 1)))"

function encode ::
    "lua_env \<Rightarrow> heap \<Rightarrow> nat \<Rightarrow> memcached_buffer \<Rightarrow> backref_enc \<Rightarrow> lvalue
      \<Rightarrow> error + memcached_buffer \<times> backref_enc"
  and encode_pairs ::
    "lua_env \<Rightarrow> heap \<Rightarrow> nat \<Rightarrow> memcached_buffer \<Rightarrow> backref_enc \<Rightarrow> nat \<Rightarrow> nat \<Rightarrow> ltable
      \<Rightarrow> error + memcached_buffer \<times> backref_enc \<times> nat \<times> nat"
where
  "encode env h stk bf br (VBool x) =
     (case buffer_require env bf 1 of
        Inl e \<Rightarrow> Inl e
      | Inr bf1 \<Rightarrow> Inr (put bf1 (if x then MEMCACHED_TYPE_BOOLEANTRRUE else LUA_TBOOLEAN), br))"
| "encode env h stk bf br (VInt i) =
     (case buffer_require env bf (1 + 8) of
        Inl e \<Rightarrow> Inl e
      | Inr bf1 \<Rightarrow> Inr (put_bytes (put bf1 MEMCACHED_TYPE_INTEGER) (htobe64 i), br))"
| "encode env h stk bf br (VFloat d) =
     (case buffer_require env bf (1 + 8) of
        Inl e \<Rightarrow> Inl e
      | Inr bf1 \<Rightarrow> Inr (put_bytes (put bf1 LUA_TNUMBER) (double_bytes env d), br))"
| "encode env h stk bf br (VStr s) =
     (if length s > UINT64_MAX - (1 + 8) then Inl StringTooLong
      else if length s \<le> 255 then
        (case buffer_require env bf (1 + 1 + length s) of
           Inl e \<Rightarrow> Inl e
         | Inr bf1 \<Rightarrow>
             Inr (put_bytes (put (put bf1 MEMCACHED_TYPE_STRINGSHORT) (of_nat (length s))) s, br))
      else
        (case buffer_require env bf (1 + 8 + length s) of
           Inl e \<Rightarrow> Inl e
         | Inr bf1 \<Rightarrow>
             Inr (put_bytes (put_bytes (put bf1 LUA_TSTRING) (htobe64 (of_nat (length s)))) s, br)))"
| "encode env h stk bf br (VTable t) =
     (if \<not> lua_checkstack env stk 2 then Inl StackOverflow
      else if etab br t \<noteq> None then
        (case buffer_require env bf (1 + 8) of
           Inl e \<Rightarrow> Inl e
         | Inr bf1 \<Rightarrow>
             Inr (put_bytes (put bf1 MEMCACHED_TYPE_TABLEREF) (htobe64 (of_int (the (etab br t)))), br))
      else if ecnt br = LUA_MAXINTEGER then Inl TooManyTables
      else
        (case buffer_require env bf (1 + 2) of
           Inl e \<Rightarrow> Inl e
         | Inr bf1 \<Rightarrow>
             (case encode_pairs env h stk ((put bf1 MEMCACHED_TYPE_TABLE8)\<lparr>pos := pos bf1 + 3\<rparr>)
                     (br\<lparr>ecnt := ecnt br + 1, etab := (etab br)(t \<mapsto> ecnt br + 1)\<rparr>)
                     0 0 (entries h t) of
                Inl e \<Rightarrow> Inl e
              | Inr (bf4, br4, narr, nrec) \<Rightarrow>
                  (case table_sizes env bf4 (pos bf1 + 1) narr nrec of
                     Inl e \<Rightarrow> Inl e
                   | Inr bf5 \<Rightarrow> Inr (bf5, br4)))))"
| "encode env h stk bf br VNil = Inl UnsupportedType"
| "encode env h stk bf br (VOther x) = Inl UnsupportedType"
| "encode_pairs env h stk bf br narr nrec [] = Inr (bf, br, narr, nrec)"
| "encode_pairs env h stk bf br narr nrec (kv # es) =
     (if supported (fst kv) \<and> supported (snd kv) then
        (case classify env (fst kv) narr nrec of
           Inl e \<Rightarrow> Inl e
         | Inr (narr', nrec') \<Rightarrow>
             (case encode env h (stk + 2) bf br (fst kv) of
                Inl e \<Rightarrow> Inl e
              | Inr (bf1, br1) \<Rightarrow>
                  (case encode env h (stk + 2) bf1 br1 (snd kv) of
                     Inl e \<Rightarrow> Inl e
                   | Inr (bf2, br2) \<Rightarrow> encode_pairs env h stk bf2 br2 narr' nrec' es)))
      else encode_pairs env h stk bf br narr nrec es)"
  by pat_completeness auto

definition unvisited :: "heap \<Rightarrow> backref_enc \<Rightarrow> nat" where
  "unvisited h br = card ({..<length h} - dom (etab br))"

lemma encode_dom_mono:
  "encode_encode_pairs_dom (Inl (env, h, stk, bf, br, v)) \<Longrightarrow>
     encode env h stk bf br v = Inr (bf', br') \<Longrightarrow> dom (etab br) \<subseteq> dom (etab br')"
  "encode_encode_pairs_dom (Inr (env, h, stk, bf, br, narr, nrec, es)) \<Longrightarrow>
     encode_pairs env h stk bf br narr nrec es = Inr (bf'', br'', narr', nrec') \<Longrightarrow>
     dom (etab br) \<subseteq> dom (etab br'')"
proof (induct env h stk bf br v and env h stk bf br narr nrec es
       arbitrary: bf' br' and bf'' br'' narr' nrec' rule: encode_encode_pairs.pinduct)
  case (5 env h stk bf br t)
  show ?case
  proof (cases "etab br t = None")
    case False
    with "5.prems" "5.hyps"(1) show ?thesis
      by (auto simp: encode.psimps split: if_splits sum.splits)
  next
    case None: True
    with "5.prems" "5.hyps"(1) obtain bf1 bf4 narr nrec where
      r: "buffer_require env bf (1 + 2) = Inr bf1" and
      p: "encode_pairs env h stk ((put bf1 MEMCACHED_TYPE_TABLE8)\<lparr>pos := pos bf1 + 3\<rparr>)
            (br\<lparr>ecnt := ecnt br + 1, etab := (etab br)(t \<mapsto> ecnt br + 1)\<rparr>) 0 0 (entries h t)
          = Inr (bf4, br', narr, nrec)" and
      c: "lua_checkstack env stk 2" "ecnt br \<noteq> LUA_MAXINTEGER"
      by (auto simp: encode.psimps split: if_splits sum.splits prod.splits)
    have "dom (etab (br\<lparr>ecnt := ecnt br + 1, etab := (etab br)(t \<mapsto> ecnt br + 1)\<rparr>))
            \<subseteq> dom (etab br')"
      by (rule "5.hyps"(2)[OF _ _ _ r p]) (use c None in auto)
    then show ?thesis by auto
  qed
next
  case (9 env h stk bf br narr nrec kv es)
  show ?case
  proof (cases "supported (fst kv) \<and> supported (snd kv)")
    case False
    with "9.prems" "9.hyps"(1) "9.hyps"(5) show ?thesis
      by (simp add: encode_pairs.psimps)
  next
    case sup: True
    with "9.prems" "9.hyps"(1) obtain na nr bf1 br1 bf2 br2 where
      c: "classify env (fst kv) narr nrec = Inr (na, nr)" and
      k: "encode env h (stk + 2) bf br (fst kv) = Inr (bf1, br1)" and
      v: "encode env h (stk + 2) bf1 br1 (snd kv) = Inr (bf2, br2)" and
      r: "encode_pairs env h stk bf2 br2 na nr es = Inr (bf'', br'', narr', nrec')"
      by (auto simp: encode_pairs.psimps split: if_splits sum.splits prod.splits)
    note 1 = "9.hyps"(2)[OF sup c refl k]
    note 2 = "9.hyps"(3)[OF sup c refl k refl v]
    note 3 = "9.hyps"(4)[OF sup c refl k refl v refl r]
    from 1 2 3 show ?thesis by blast
  qed
qed (auto simp: encode.psimps encode_pairs.psimps split: if_splits sum.splits)

lemma unvisited_same:
  "\<not> t < length h \<Longrightarrow>
   unvisited h (br\<lparr>ecnt := c, etab := (etab br)(t \<mapsto> k)\<rparr>) = unvisited h br"
  unfolding unvisited_def by (rule arg_cong[where f=card]) auto

lemma unvisited_mono: "dom (etab br) \<subseteq> dom (etab br') \<Longrightarrow> unvisited h br' \<le> unvisited h br"
  unfolding unvisited_def by (rule card_mono) auto

lemma unvisited_less:
  "t < length h \<Longrightarrow> etab br t = None \<Longrightarrow>
   unvisited h (br\<lparr>ecnt := c, etab := (etab br)(t \<mapsto> k)\<rparr>) < unvisited h br"
  unfolding unvisited_def by (rule psubset_card_mono) auto

lemma encode_unvisited:
  "encode env h stk bf br v = Inr r \<Longrightarrow>
   encode_encode_pairs_dom (Inl (env, h, stk, bf, br, v)) \<Longrightarrow>
     unvisited h (snd r) \<le> unvisited h br"
  using unvisited_mono[OF encode_dom_mono(1), of env h stk bf br v "fst r" "snd r"] by simp

termination encode
  apply (relation "inv_image (less_than <*lex*> less_than)
    (\<lambda>x. case x of
       Inl (env, h, stk, bf, br, v) \<Rightarrow> (unvisited h br, Suc 0)
     | Inr (env, h, stk, bf, br, narr, nrec, es) \<Rightarrow>
         (unvisited h br, if es = [] then 0 else 2 + length es))")
  subgoal by (intro wf_inv_image wf_lex_prod wf_less_than)
  subgoal for env h stk bf br t
    by (cases "t < length h") (auto simp: entries_def unvisited_less unvisited_same)
  subgoal by simp
  subgoal by (auto dest!: encode_unvisited)
  subgoal by (auto dest!: encode_unvisited)
  subgoal by auto
  done


definition mencode :: "lua_env \<Rightarrow> heap \<Rightarrow> lvalue option \<Rightarrow> error + memcached_buffer" where
  "mencode env h arg =
     (case arg of
        None \<Rightarrow> Inl (ArgError 1 ''value expected'')
      | Some v \<Rightarrow>
          if \<not> alloc_ok env MEMCACHED_BUFFER_SIZE then Inl OutOfMemory
          else
            (case buffer_require env
                    \<lparr>bytes = (\<lambda>_. 0), pos = 0, len = 0, capacity = MEMCACHED_BUFFER_SIZE\<rparr>
                    (length MEMCACHED_CODEC_VERSION) of
               Inl e \<Rightarrow> Inl e
             | Inr b1 \<Rightarrow>
                 (case encode env h 3 (put_bytes b1 MEMCACHED_CODEC_VERSION)
                         \<lparr>etab = Map.empty, ecnt = 0\<rparr> v of
                    Inl e \<Rightarrow> Inl e
                  | Inr (b3, br) \<Rightarrow> Inr (b3\<lparr>len := pos b3\<rparr>))))"

subsection \<open>Decoder\<close>

record backref_dec =
  dtab :: "int \<rightharpoonup> nat"
  dcnt :: int

record dstate =
  d_heap :: heap
  d_buf :: memcached_buffer
  d_br :: backref_dec

definition is_nan :: "64 word \<Rightarrow> bool" where
  "is_nan w = (take_bit 11 (drop_bit 52 w) = 0x7FF \<and> take_bit 52 w \<noteq> 0)"

definition normkey :: "lua_env \<Rightarrow> lvalue \<Rightarrow> error + lvalue" where
  "normkey env k =
     (case k of
        VNil \<Rightarrow> Inl TableIndexNil
      | VFloat w \<Rightarrow>
          (if is_nan w then Inl TableIndexNaN
           else (case cvt_flt env w of Some i \<Rightarrow> Inr (VInt i) | None \<Rightarrow> Inr (VFloat w)))
      | _ \<Rightarrow> Inr k)"

fun tset :: "ltable \<Rightarrow> lvalue \<Rightarrow> lvalue \<Rightarrow> ltable" where
  "tset [] k v = [(k, v)]"
| "tset (p # ps) k v = (if fst p = k then (k, v) # ps else p # tset ps k v)"

definition lua_rawset :: "lua_env \<Rightarrow> heap \<Rightarrow> nat \<Rightarrow> lvalue \<Rightarrow> lvalue \<Rightarrow> error + heap" where
  "lua_rawset env h t k v =
     (case normkey env k of
        Inl e \<Rightarrow> Inl e
      | Inr k' \<Rightarrow>
          Inr (h[t := (if v = VNil then filter (\<lambda>p. fst p \<noteq> k') (entries h t)
                       else tset (entries h t) k' v)]))"

definition read_n :: "dstate \<Rightarrow> nat \<Rightarrow> (error + byte list) \<times> dstate" where
  "read_n s n =
     (case buffer_avail (d_buf s) n of
        Inl e \<Rightarrow> (Inl e, s)
      | Inr _ \<Rightarrow> (Inr (read_bytes (bytes (d_buf s)) (pos (d_buf s)) n),
                 s\<lparr>d_buf := (d_buf s)\<lparr>pos := pos (d_buf s) + n\<rparr>\<rparr>))"

datatype wire_type =
    T_BOOLEAN | T_BOOLEANTRUE | T_NUMBER | T_INTEGER | T_STRING | T_STRINGSHORT
  | T_TABLE8 | T_TABLE16 | T_TABLE32 | T_TABLE64 | T_TABLEREF

definition wire_type :: "byte \<Rightarrow> wire_type option" where
  "wire_type x =
     (if x = LUA_TBOOLEAN then Some T_BOOLEAN
      else if x = MEMCACHED_TYPE_BOOLEANTRRUE then Some T_BOOLEANTRUE
      else if x = LUA_TNUMBER then Some T_NUMBER
      else if x = MEMCACHED_TYPE_INTEGER then Some T_INTEGER
      else if x = LUA_TSTRING then Some T_STRING
      else if x = MEMCACHED_TYPE_STRINGSHORT then Some T_STRINGSHORT
      else if x = MEMCACHED_TYPE_TABLE8 then Some T_TABLE8
      else if x = MEMCACHED_TYPE_TABLE16 then Some T_TABLE16
      else if x = MEMCACHED_TYPE_TABLE32 then Some T_TABLE32
      else if x = MEMCACHED_TYPE_TABLE64 then Some T_TABLE64
      else if x = MEMCACHED_TYPE_TABLEREF then Some T_TABLEREF
      else None)"

datatype dhead = HValue lvalue | HTable nat nat

fun decode_case :: "lua_env \<Rightarrow> wire_type \<Rightarrow> dstate \<Rightarrow> (error + dhead) \<times> dstate" where
  "decode_case env T_BOOLEAN s = (Inr (HValue (VBool False)), s)"
| "decode_case env T_BOOLEANTRUE s = (Inr (HValue (VBool True)), s)"
| "decode_case env T_NUMBER s =
     (case read_n s 8 of
        (Inl e, s') \<Rightarrow> (Inl e, s')
      | (Inr d, s') \<Rightarrow> (Inr (HValue (VFloat (bytes_double env d))), s'))"
| "decode_case env T_INTEGER s =
     (case read_n s 8 of
        (Inl e, s') \<Rightarrow> (Inl e, s')
      | (Inr i, s') \<Rightarrow> (Inr (HValue (VInt (be64toh i))), s'))"
| "decode_case env T_STRING s =
     (case read_n s 8 of
        (Inl e, s') \<Rightarrow> (Inl e, s')
      | (Inr nlen, s') \<Rightarrow>
          (case read_n s' (unat (be64toh nlen)) of
             (Inl e, s'') \<Rightarrow> (Inl e, s'')
           | (Inr str, s'') \<Rightarrow> (Inr (HValue (VStr str)), s'')))"
| "decode_case env T_STRINGSHORT s =
     (case read_n s 1 of
        (Inl e, s') \<Rightarrow> (Inl e, s')
      | (Inr l, s') \<Rightarrow>
          (case read_n s' (unat (hd l)) of
             (Inl e, s'') \<Rightarrow> (Inl e, s'')
           | (Inr str, s'') \<Rightarrow> (Inr (HValue (VStr str)), s'')))"
| "decode_case env T_TABLE8 s =
     (case read_n s (1 + 1) of
        (Inl e, s') \<Rightarrow> (Inl e, s')
      | (Inr n, s') \<Rightarrow> (Inr (HTable (unat (hd n)) (unat (hd (drop 1 n)))), s'))"
| "decode_case env T_TABLE16 s =
     (case read_n s (2 + 2) of
        (Inl e, s') \<Rightarrow> (Inl e, s')
      | (Inr n, s') \<Rightarrow> (Inr (HTable (unat (be16toh (take 2 n))) (unat (be16toh (drop 2 n)))), s'))"
| "decode_case env T_TABLE32 s =
     (case read_n s (4 + 4) of
        (Inl e, s') \<Rightarrow> (Inl e, s')
      | (Inr n, s') \<Rightarrow> (Inr (HTable (unat (be32toh (take 4 n))) (unat (be32toh (drop 4 n)))), s'))"
| "decode_case env T_TABLE64 s =
     (case read_n s (8 + 8) of
        (Inl e, s') \<Rightarrow> (Inl e, s')
      | (Inr n, s') \<Rightarrow>
          (if sint (be64toh (take 8 n)) < 0 \<or> sint (be64toh (drop 8 n)) < 0
           then (Inl BadTableSize, s')
           else (Inr (HTable (unat (be64toh (take 8 n))) (unat (be64toh (drop 8 n)))), s')))"
| "decode_case env T_TABLEREF s =
     (case read_n s 8 of
        (Inl e, s') \<Rightarrow> (Inl e, s')
      | (Inr t, s') \<Rightarrow>
          (case dtab (d_br s') (sint (be64toh t)) of
             None \<Rightarrow> (Inl BadBackref, s')
           | Some r \<Rightarrow> (Inr (HValue (VTable r)), s')))"

definition decode_switch :: "lua_env \<Rightarrow> dstate \<Rightarrow> (error + dhead) \<times> dstate" where
  "decode_switch env s =
     (case read_n s 1 of
        (Inl e, s') \<Rightarrow> (Inl e, s')
      | (Inr tag, s') \<Rightarrow>
          (case wire_type (hd tag) of
             None \<Rightarrow> (Inl UnsupportedType, s')
           | Some ty \<Rightarrow> decode_case env ty s'))"

function decode :: "lua_env \<Rightarrow> nat \<Rightarrow> dstate \<Rightarrow> (error + lvalue) \<times> dstate"
  and decodetable :: "lua_env \<Rightarrow> nat \<Rightarrow> dstate \<Rightarrow> nat \<Rightarrow> nat \<Rightarrow> (error + lvalue) \<times> dstate"
  and decode_pairs :: "lua_env \<Rightarrow> nat \<Rightarrow> nat \<Rightarrow> dstate \<Rightarrow> nat \<Rightarrow> (error + unit) \<times> dstate"
where
  "decode env stk s =
     (case decode_switch env s of
        (Inl e, s') \<Rightarrow> (Inl e, s')
      | (Inr (HValue v), s') \<Rightarrow> (Inr v, s')
      | (Inr (HTable narr nrec), s') \<Rightarrow> decodetable env stk s' narr nrec)"
| "decodetable env stk s narr nrec =
     (if \<not> lua_checkstack env stk 3 then (Inl StackOverflow, s)
      else
        (case decode_pairs env (stk + 1) (length (d_heap s))
                (s\<lparr>d_heap := d_heap s @ [[]],
                   d_br := (d_br s)\<lparr>dcnt := dcnt (d_br s) + 1,
                                    dtab := (dtab (d_br s))(dcnt (d_br s) + 1 \<mapsto> length (d_heap s))\<rparr>\<rparr>)
                narr of
           (Inl e, s2) \<Rightarrow> (Inl e, s2)
         | (Inr _, s2) \<Rightarrow>
             (case decode_pairs env (stk + 1) (length (d_heap s)) s2 nrec of
                (Inl e, s3) \<Rightarrow> (Inl e, s3)
              | (Inr _, s3) \<Rightarrow> (Inr (VTable (length (d_heap s))), s3))))"
| "decode_pairs env stk t s n =
     (if n > 0 then
        (case decode env stk s of
           (Inl e, s1) \<Rightarrow> (Inl e, s1)
         | (Inr k, s1) \<Rightarrow>
             (case decode env (stk + 1) s1 of
                (Inl e, s2) \<Rightarrow> (Inl e, s2)
              | (Inr v, s2) \<Rightarrow>
                  (case lua_rawset env (d_heap s2) t k v of
                     Inl e \<Rightarrow> (Inl e, s2)
                   | Inr h' \<Rightarrow> decode_pairs env stk t (s2\<lparr>d_heap := h'\<rparr>) (n - 1))))
      else (Inr (), s))"
  by pat_completeness auto

definition remaining :: "dstate \<Rightarrow> nat" where
  "remaining s = len (d_buf s) - pos (d_buf s)"

lemma remaining_heap [simp]: "remaining (s\<lparr>d_heap := x\<rparr>) = remaining s"
  by (simp add: remaining_def)

lemma remaining_br [simp]: "remaining (s\<lparr>d_br := x\<rparr>) = remaining s"
  by (simp add: remaining_def)

lemma read_n_remaining:
  "read_n s n = (r, s') \<Longrightarrow> remaining s' \<le> remaining s"
  by (auto simp: read_n_def remaining_def buffer_avail_def split: if_splits)

lemma read_n_remaining_Inr:
  "read_n s n = (Inr x, s') \<Longrightarrow> remaining s' + n = remaining s"
  by (auto simp: read_n_def remaining_def buffer_avail_def split: if_splits)

lemma decode_case_remaining:
  "decode_case env ty s = (r, s') \<Longrightarrow> remaining s' \<le> remaining s"
  by (cases ty)
     (auto split: prod.splits sum.splits option.splits if_splits
           dest!: read_n_remaining)

lemma decode_switch_remaining:
  "decode_switch env s = (r, s') \<Longrightarrow> remaining s' \<le> remaining s"
  by (auto simp: decode_switch_def split: prod.splits sum.splits option.splits
           dest!: read_n_remaining decode_case_remaining)

lemma decode_switch_remaining_Inr:
  "decode_switch env s = (Inr x, s') \<Longrightarrow> remaining s' < remaining s"
  by (auto simp: decode_switch_def split: prod.splits sum.splits option.splits
           dest!: read_n_remaining_Inr decode_case_remaining)

lemma decode_remaining:
  "decode_decodetable_decode_pairs_dom (Inl (env, stk, s)) \<Longrightarrow>
     remaining (snd (decode env stk s)) \<le> remaining s"
  "decode_decodetable_decode_pairs_dom (Inr (Inl (env, stk, s, narr, nrec))) \<Longrightarrow>
     remaining (snd (decodetable env stk s narr nrec)) \<le> remaining s"
  "decode_decodetable_decode_pairs_dom (Inr (Inr (env, stk, t, s, n))) \<Longrightarrow>
     remaining (snd (decode_pairs env stk t s n)) \<le> remaining s"
proof (induct env stk s and env stk s narr nrec and env stk t s n
       rule: decode_decodetable_decode_pairs.pinduct)
  case (1 env stk s)
  obtain r s' where sw: "decode_switch env s = (r, s')" by (cases "decode_switch env s")
  note le = decode_switch_remaining[OF sw]
  show ?case
  proof (cases r)
    case (Inl e)
    with sw le show ?thesis by (simp add: decode.psimps[OF "1.hyps"(1)])
  next
    case (Inr hd)
    show ?thesis
    proof (cases hd)
      case (HValue v)
      with sw le Inr show ?thesis by (simp add: decode.psimps[OF "1.hyps"(1)])
    next
      case (HTable narr nrec)
      from "1.hyps"(2)[OF sw[symmetric] Inr HTable] le sw Inr HTable
      show ?thesis by (simp add: decode.psimps[OF "1.hyps"(1)])
    qed
  qed
next
  case (2 env stk s narr nrec)
  show ?case
    using "2.hyps"(2,3)
    by (fastforce simp: decodetable.psimps[OF "2.hyps"(1)] split: prod.splits sum.splits)
next
  case (3 env stk t s n)
  note ps = decode_pairs.psimps[OF "3.hyps"(1)]
  show ?case
  proof (cases "0 < n")
    case False
    then show ?thesis by (subst ps) simp
  next
    case True
    obtain r1 s1 where d1: "decode env stk s = (r1, s1)" by (cases "decode env stk s")
    from "3.hyps"(2)[OF True] d1 have le1: "remaining s1 \<le> remaining s" by simp
    show ?thesis
    proof (cases r1)
      case (Inl e)
      with True d1 le1 show ?thesis by (simp add: ps)
    next
      case k: (Inr k)
      obtain r2 s2 where d2: "decode env (stk + 1) s1 = (r2, s2)"
        by (cases "decode env (stk + 1) s1")
      from "3.hyps"(3)[OF True d1[symmetric] k] d2 have le2: "remaining s2 \<le> remaining s1"
        by simp
      show ?thesis
      proof (cases r2)
        case (Inl e)
        with True d1 d2 k le1 le2 show ?thesis by (simp add: ps)
      next
        case v: (Inr v)
        show ?thesis
        proof (cases "lua_rawset env (d_heap s2) t k v")
          case (Inl e)
          with True d1 d2 k v le1 le2 show ?thesis by (simp add: ps)
        next
          case (Inr h')
          from "3.hyps"(4)[OF True d1[symmetric] k d2[symmetric] v Inr]
          have "remaining (snd (decode_pairs env stk t (s2\<lparr>d_heap := h'\<rparr>) (n - 1)))
                  \<le> remaining s2" by simp
          with True d1 d2 k v le1 le2 Inr show ?thesis by (simp add: ps)
        qed
      qed
    qed
  qed
qed


lemma decode_rem_le:
  "(r, y) = decode env stk s \<Longrightarrow> decode_decodetable_decode_pairs_dom (Inl (env, stk, s))
    \<Longrightarrow> remaining y \<le> remaining s"
  using decode_remaining(1)[of env stk s] by (metis snd_conv)

lemma decode_pairs_rem_le:
  "(r, y) = decode_pairs env stk t s n \<Longrightarrow>
   decode_decodetable_decode_pairs_dom (Inr (Inr (env, stk, t, s, n)))
    \<Longrightarrow> remaining y \<le> remaining s"
  using decode_remaining(3)[of env stk t s n] by (metis snd_conv)

termination decode
  apply (relation "inv_image (less_than <*lex*> less_than)
    (\<lambda>x. case x of
       Inl (env, stk, s) \<Rightarrow> (remaining s, 0)
     | Inr (Inl (env, stk, s, narr, nrec)) \<Rightarrow> (remaining s, narr + nrec + 3)
     | Inr (Inr (env, stk, t, s, n)) \<Rightarrow> (remaining s, n + 1))")
  subgoal by (intro wf_inv_image wf_lex_prod wf_less_than)
  subgoal by (auto dest!: sym[THEN decode_switch_remaining_Inr])
  subgoal by auto
  subgoal premises prems for env stk s narr nrec x y b
    using decode_pairs_rem_le[OF prems(2) prems(4)] by auto
  subgoal by auto
  subgoal for env stk t s n x y b
    using decode_rem_le[of x y env stk s] by auto
  subgoal for env stk t s n x y b xa ya ba bb
    using decode_rem_le[of x y env stk s] decode_rem_le[of xa ya env "stk + 1" y] by auto
  done

declare decode.simps [simp del] decodetable.simps [simp del] decode_pairs.simps [simp del]


datatype encoding = EncBuffer memcached_buffer | EncString "byte list" | EncOther

definition string_buffer :: "byte list \<Rightarrow> memcached_buffer" where
  "string_buffer str =
     \<lparr>bytes = (\<lambda>i. if i < length str then str ! i else 0), pos = 0,
      len = length str, capacity = length str\<rparr>"

definition mdecode_buffer :: "lua_env \<Rightarrow> heap \<Rightarrow> memcached_buffer \<Rightarrow> (error + lvalue) \<times> dstate" where
  "mdecode_buffer env h b =
     (let s0 = \<lparr>d_heap = h, d_buf = b\<lparr>pos := 0\<rparr>, d_br = \<lparr>dtab = Map.empty, dcnt = 0\<rparr>\<rparr> in
      case read_n s0 (length MEMCACHED_CODEC_VERSION) of
        (Inl e, s1) \<Rightarrow> (Inl e, s1)
      | (Inr ver, s1) \<Rightarrow>
          if ver \<noteq> MEMCACHED_CODEC_VERSION then (Inl BadCodecVersion, s0)
          else
            (case decode env 2 s1 of
               (Inl e, s2) \<Rightarrow> (Inl e, s2)
             | (Inr v, s2) \<Rightarrow>
                 if pos (d_buf s2) < len (d_buf s2) then (Inl ExtraData, s2) else (Inr v, s2)))"

definition mdecode :: "lua_env \<Rightarrow> heap \<Rightarrow> encoding \<Rightarrow> (error + lvalue) \<times> heap \<times> encoding" where
  "mdecode env h arg =
     (case arg of
        EncBuffer b \<Rightarrow>
          (case mdecode_buffer env h b of (r, s) \<Rightarrow> (r, d_heap s, EncBuffer (d_buf s)))
      | EncString str \<Rightarrow>
          (case mdecode_buffer env h (string_buffer str) of (r, s) \<Rightarrow> (r, d_heap s, EncString str))
      | EncOther \<Rightarrow> (Inl (ArgError 1 ''string expected''), h, arg))"


section \<open>The client\<close>

subsection \<open>Connection state and the network\<close>

text \<open>
  \<^verbatim>\<open>memcached_t\<close>. The four registry references are modelled by what the registry holds
  for them: \<open>None\<close> is \<^verbatim>\<open>LUA_NOREF\<close>, for which \<^verbatim>\<open>lua_rawgeti\<close> on the registry yields nil.
  An encode function maps a value to a buffer or a string (or to something else, which
  \<^verbatim>\<open>set\<close> rejects); a decode function maps an encoding to a value.
\<close>

type_synonym encoder = "heap \<Rightarrow> lvalue \<Rightarrow> error + encoding"
type_synonym decoder = "heap \<Rightarrow> encoding \<Rightarrow> (error + lvalue) \<times> heap"

record memcached =
  host_index :: "string option"
  port_index :: "string option"
  encode_index :: "encoder option"
  decode_index :: "decoder option"
  timeout :: int
  fd :: int
  reconnect :: bool
  closed :: bool

text \<open>
  The network as the client sees it: whether the host resolves, the descriptor a successful
  connect yields (\<open>None\<close> when every candidate address fails), whether \<^verbatim>\<open>send\<close> succeeds,
  the bytes written so far, and the bytes the peer delivers before it closes the connection.
  Signals (\<^verbatim>\<open>EINTR\<close>) do not occur in this network.
\<close>

record net =
  resolve_ok :: bool
  connect_fd :: "int option"
  send_ok :: bool
  sent :: "byte list"
  incoming :: "byte list"

text \<open>
  Constants of \<^verbatim>\<open>memcached/protocol_binary.h\<close>, which is not part of the repository:
  the magic bytes are those of the specification's frame layout, opcodes and status codes
  those of the memcached binary protocol.
\<close>

definition PROTOCOL_BINARY_REQ :: byte where "PROTOCOL_BINARY_REQ = 0x80"
definition PROTOCOL_BINARY_RES :: byte where "PROTOCOL_BINARY_RES = 0x81"
definition PROTOCOL_BINARY_CMD_GET :: byte where "PROTOCOL_BINARY_CMD_GET = 0x00"
definition PROTOCOL_BINARY_CMD_SET :: byte where "PROTOCOL_BINARY_CMD_SET = 0x01"
definition PROTOCOL_BINARY_CMD_ADD :: byte where "PROTOCOL_BINARY_CMD_ADD = 0x02"
definition PROTOCOL_BINARY_CMD_REPLACE :: byte where "PROTOCOL_BINARY_CMD_REPLACE = 0x03"
definition PROTOCOL_BINARY_CMD_DELETE :: byte where "PROTOCOL_BINARY_CMD_DELETE = 0x04"
definition PROTOCOL_BINARY_CMD_DECREMENT :: byte where "PROTOCOL_BINARY_CMD_DECREMENT = 0x06"
definition PROTOCOL_BINARY_CMD_STAT :: byte where "PROTOCOL_BINARY_CMD_STAT = 0x10"
definition PROTOCOL_BINARY_CMD_QUITQ :: byte where "PROTOCOL_BINARY_CMD_QUITQ = 0x17"
definition PROTOCOL_BINARY_RESPONSE_SUCCESS :: "16 word" where
  "PROTOCOL_BINARY_RESPONSE_SUCCESS = 0x00"
definition PROTOCOL_BINARY_RESPONSE_KEY_ENOENT :: "16 word" where
  "PROTOCOL_BINARY_RESPONSE_KEY_ENOENT = 0x01"
definition PROTOCOL_BINARY_RESPONSE_KEY_EEXISTS :: "16 word" where
  "PROTOCOL_BINARY_RESPONSE_KEY_EEXISTS = 0x02"

definition MEMCACHED_REQUEST_BASE :: nat where "MEMCACHED_REQUEST_BASE = 24"
definition MEMCACHED_REQUEST_GET_EXTRAS :: nat where "MEMCACHED_REQUEST_GET_EXTRAS = 0"
definition MEMCACHED_REQUEST_SET_EXTRAS :: nat where "MEMCACHED_REQUEST_SET_EXTRAS = 8"
definition MEMCACHED_REQUEST_DELETE_EXTRAS :: nat where "MEMCACHED_REQUEST_DELETE_EXTRAS = 0"
definition MEMCACHED_REQUEST_STATS_EXTRAS :: nat where "MEMCACHED_REQUEST_STATS_EXTRAS = 0"

datatype flag = MEMCACHED_EXTRAS | MEMCACHED_KEY | MEMCACHED_VALUE | MEMCACHED_VALUE_BUFFER

text \<open>
  The 24-byte request header in the layout of the specification (magic, opcode, key length,
  extras length, data type, vbucket, body length, opaque, CAS); the structure is cleared with
  \<^verbatim>\<open>memset\<close> before its fields are set.
\<close>

definition request_header :: "byte \<Rightarrow> nat \<Rightarrow> nat \<Rightarrow> nat \<Rightarrow> 64 word \<Rightarrow> byte list" where
  "request_header opcode keylen extlen bodylen cas =
     [PROTOCOL_BINARY_REQ, opcode] @ htobe16 (of_nat keylen) @ [of_nat extlen, 0, 0, 0]
       @ htobe32 (of_nat bodylen) @ [0, 0, 0, 0] @ htobe64 cas"

subsection \<open>Socket operations\<close>

definition getsocket :: "net \<Rightarrow> memcached \<Rightarrow> (error + unit) \<times> net \<times> memcached" where
  "getsocket n m =
     (if closed m then (Inl Closed, n, m)
      else if fd m \<ge> 0 then (Inr (), n, m)
      else if \<not> resolve_ok n then (Inl ResolveError, n, m)
      else (case connect_fd n of
              None \<Rightarrow> (Inl ConnectError, n, m)
            | Some f \<Rightarrow> (Inr (), n, m\<lparr>fd := f\<rparr>)))"

text \<open>
  \<^verbatim>\<open>checkresult\<close>; the second argument says whether \<^verbatim>\<open>errno\<close> is \<^verbatim>\<open>EINTR\<close>.
\<close>

definition checkresult :: "memcached \<Rightarrow> int \<Rightarrow> bool \<Rightarrow> (error + nat) \<times> memcached" where
  "checkresult m result eintr =
     (if result > 0 then (Inr (nat result), m)
      else if result < 0 \<and> eintr then (Inr 0, m)
      else
        (let m' = m\<lparr>fd := - 1, closed := (if \<not> reconnect m then True else closed m)\<rparr> in
         if result = 0 then (Inl SocketClosed, m') else (Inl SocketError, m')))"

definition sys_send :: "net \<Rightarrow> byte list \<Rightarrow> net \<times> int" where
  "sys_send n buf =
     (if send_ok n \<and> buf \<noteq> [] then (n\<lparr>sent := sent n @ buf\<rparr>, int (length buf)) else (n, - 1))"

definition sys_recv :: "net \<Rightarrow> nat \<Rightarrow> byte list \<times> net \<times> int" where
  "sys_recv n l =
     (let k = min l (length (incoming n)) in
      (take k (incoming n), n\<lparr>incoming := drop k (incoming n)\<rparr>, int k))"

definition sendnosig :: "net \<Rightarrow> memcached \<Rightarrow> byte list \<Rightarrow> (error + nat) \<times> net \<times> memcached" where
  "sendnosig n m buf =
     (case sys_send n buf of (n', result) \<Rightarrow>
        (case checkresult m result False of (r, m') \<Rightarrow> (r, n', m')))"

definition sendmsgnosig :: "net \<Rightarrow> memcached \<Rightarrow> byte list list \<Rightarrow> (error + nat) \<times> net \<times> memcached" where
  "sendmsgnosig n m iov =
     (case sys_send n (concat iov) of (n', result) \<Rightarrow>
        (case checkresult m result False of (r, m') \<Rightarrow> (r, n', m')))"

function recvnosig :: "net \<Rightarrow> memcached \<Rightarrow> nat \<Rightarrow> (error + byte list) \<times> net \<times> memcached" where
  "recvnosig n m l =
     (case sys_recv n l of (got, n', result) \<Rightarrow>
        (case checkresult m result False of
           (Inl e, m') \<Rightarrow> (Inl e, n', m')
         | (Inr r, m') \<Rightarrow>
             if l - r > 0 then
               (case recvnosig n' m' (l - r) of
                  (Inl e, n'', m'') \<Rightarrow> (Inl e, n'', m'')
                | (Inr rest, n'', m'') \<Rightarrow> (Inr (got @ rest), n'', m''))
             else (Inr got, n', m')))"
  by pat_completeness auto
termination
  by (relation "measure (\<lambda>(n, m, l). l)")
     (auto simp: checkresult_def Let_def split: if_splits)

declare recvnosig.simps [simp del]

definition recvstring :: "net \<Rightarrow> memcached \<Rightarrow> nat \<Rightarrow> (error + byte list) \<times> net \<times> memcached" where
  "recvstring n m l = recvnosig n m l"

subsection \<open>Responses\<close>

datatype pushed = PString "byte list" | PBuffer memcached_buffer

record response =
  r_status :: "16 word"
  r_cas :: "64 word"
  r_ret :: "pushed list"

text \<open>
  \<^verbatim>\<open>recvresponse\<close>: the values it leaves on the Lua stack are \<open>r_ret\<close>, and its result
  \<^verbatim>\<open>nret\<close> is their number. The header fields are read at the offsets of the
  specification's frame layout.
\<close>

definition recv_part ::
  "net \<Rightarrow> memcached \<Rightarrow> nat \<Rightarrow> bool \<Rightarrow> (error + pushed list) \<times> net \<times> memcached" where
  "recv_part n m l keep =
     (if l \<noteq> 0 then
        (case recvstring n m l of
           (Inl e, n', m') \<Rightarrow> (Inl e, n', m')
         | (Inr str, n', m') \<Rightarrow> (Inr (if keep then [PString str] else []), n', m'))
      else (Inr [], n, m))"

definition recv_value ::
  "lua_env \<Rightarrow> net \<Rightarrow> memcached \<Rightarrow> nat \<Rightarrow> nat \<Rightarrow> flag set
     \<Rightarrow> (error + pushed list) \<times> net \<times> memcached" where
  "recv_value env n m bodylen extkey flags =
     (if bodylen > extkey then
        (let valuelen = bodylen - extkey in
         if MEMCACHED_VALUE_BUFFER \<in> flags then
           (if \<not> alloc_ok env valuelen then (Inl OutOfMemory, n, m)
            else
              (case recvnosig n m valuelen of
                 (Inl e, n', m') \<Rightarrow> (Inl e, n', m')
               | (Inr v, n', m') \<Rightarrow>
                   (Inr (if MEMCACHED_VALUE \<in> flags
                         then [PBuffer \<lparr>bytes = (\<lambda>i. if i < length v then v ! i else 0),
                                        pos = valuelen, len = valuelen, capacity = valuelen\<rparr>]
                         else []), n', m')))
         else
           (case recvstring n m valuelen of
              (Inl e, n', m') \<Rightarrow> (Inl e, n', m')
            | (Inr v, n', m') \<Rightarrow>
                (Inr (if MEMCACHED_VALUE \<in> flags then [PString v] else []), n', m')))
      else
        (if MEMCACHED_VALUE \<in> flags then
           (if MEMCACHED_VALUE_BUFFER \<in> flags
            then (Inr [PBuffer \<lparr>bytes = (\<lambda>_. 0), pos = 0, len = 0, capacity = 0\<rparr>], n, m)
            else (Inr [PString []], n, m))
         else (Inr [], n, m)))"

definition recvresponse ::
  "lua_env \<Rightarrow> net \<Rightarrow> memcached \<Rightarrow> flag set \<Rightarrow> (error + response) \<times> net \<times> memcached" where
  "recvresponse env n m flags =
     (case recvnosig n m MEMCACHED_REQUEST_BASE of
        (Inl e, n1, m1) \<Rightarrow> (Inl e, n1, m1)
      | (Inr hdr, n1, m1) \<Rightarrow>
          if hdr ! 0 \<noteq> PROTOCOL_BINARY_RES then
            (Inl BadResponse, n1,
             m1\<lparr>fd := - 1, closed := (if \<not> reconnect m1 then True else closed m1)\<rparr>)
          else
            (let status = be16toh (take 2 (drop 6 hdr));
                 cas = be64toh (take 8 (drop 16 hdr));
                 extlen = unat (hdr ! 4);
                 keylen = unat (be16toh (take 2 (drop 2 hdr)));
                 bodylen = unat (be32toh (take 4 (drop 8 hdr)))
             in case recv_part n1 m1 extlen (MEMCACHED_EXTRAS \<in> flags) of
                  (Inl e, n2, m2) \<Rightarrow> (Inl e, n2, m2)
                | (Inr ext, n2, m2) \<Rightarrow>
                    (case recv_part n2 m2 keylen (MEMCACHED_KEY \<in> flags) of
                       (Inl e, n3, m3) \<Rightarrow> (Inl e, n3, m3)
                     | (Inr key, n3, m3) \<Rightarrow>
                         (case recv_value env n3 m3 bodylen (extlen + keylen) flags of
                            (Inl e, n4, m4) \<Rightarrow> (Inl e, n4, m4)
                          | (Inr val, n4, m4) \<Rightarrow>
                              (Inr \<lparr>r_status = status, r_cas = cas, r_ret = ext @ key @ val\<rparr>,
                               n4, m4)))))"

subsection \<open>Operations\<close>

text \<open>
  The arguments are the Lua arguments after \<^verbatim>\<open>luaL_checkudata\<close> and \<^verbatim>\<open>luaL_checklstring\<close>:
  a client, a key string. An optional argument is \<open>None\<close> when it is absent (or nil, for
  \<^verbatim>\<open>luaL_optinteger\<close> and \<^verbatim>\<open>luaL_optlstring\<close>); for the value of \<^verbatim>\<open>set\<close>, \<open>None\<close> is an
  absent argument and \<open>Some VNil\<close> is nil. The result of an operation is the list of the
  values it returns to Lua, or the error it raises, with the network and the client as it
  leaves them.
\<close>

definition default_encode :: "lua_env \<Rightarrow> encoder" where
  "default_encode env h v = map_sum id EncBuffer (mencode env h (Some v))"

definition default_decode :: "lua_env \<Rightarrow> decoder" where
  "default_decode env h a = (case mdecode env h a of (r, h', a') \<Rightarrow> (r, h'))"

definition bad_key :: "byte list \<Rightarrow> bool" where
  "bad_key key = (\<not> (length key > 0 \<and> length key \<le> UINT16_MAX))"

definition transmit :: "net \<Rightarrow> memcached \<Rightarrow> byte list list \<Rightarrow> (error + nat) \<times> net \<times> memcached" where
  "transmit n m iov =
     (case getsocket n m of
        (Inl e, n1, m1) \<Rightarrow> (Inl e, n1, m1)
      | (Inr _, n1, m1) \<Rightarrow> sendmsgnosig n1 m1 iov)"

definition get ::
  "lua_env \<Rightarrow> net \<Rightarrow> heap \<Rightarrow> memcached \<Rightarrow> byte list
     \<Rightarrow> (error + lvalue list) \<times> net \<times> heap \<times> memcached" where
  "get env n h m key =
     (if bad_key key then (Inl (ArgError 2 ''bad key length''), n, h, m)
      else
        (case transmit n m
                [request_header PROTOCOL_BINARY_CMD_GET (length key) MEMCACHED_REQUEST_GET_EXTRAS
                   (MEMCACHED_REQUEST_GET_EXTRAS + length key) 0, key] of
           (Inl e, n1, m1) \<Rightarrow> (Inl e, n1, h, m1)
         | (Inr _, n1, m1) \<Rightarrow>
             (case recvresponse env n1 m1 {MEMCACHED_VALUE, MEMCACHED_VALUE_BUFFER} of
                (Inl e, n2, m2) \<Rightarrow> (Inl e, n2, h, m2)
              | (Inr resp, n2, m2) \<Rightarrow>
                  if r_status resp = PROTOCOL_BINARY_RESPONSE_SUCCESS then
                    (case r_ret resp of
                       [PBuffer b] \<Rightarrow>
                         (case decode_index m2 of
                            None \<Rightarrow> (Inl CallNil, n2, h, m2)
                          | Some dec \<Rightarrow>
                              (case dec h (EncBuffer b) of
                                 (Inl e, h') \<Rightarrow> (Inl e, n2, h', m2)
                               | (Inr v, h') \<Rightarrow> (Inr [v, VInt (r_cas resp)], n2, h', m2)))
                     | _ \<Rightarrow> (Inl ProtocolError, n2, h, m2))
                  else if r_status resp = PROTOCOL_BINARY_RESPONSE_KEY_ENOENT then
                    (Inr [VNil], n2, h, m2)
                  else (Inl (MemcachedError (unat (r_status resp))), n2, h, m2))))"

text \<open>
  \<^verbatim>\<open>set\<close> (here \<open>set_op\<close>), registered three times with the opcode as upvalue (\<^verbatim>\<open>set\<close>, \<^verbatim>\<open>add\<close>,
  \<^verbatim>\<open>replace\<close>). \<open>set_request\<close> is the first branch of "handle both set and delete" up to
  the bytes it hands to \<^verbatim>\<open>sendmsg\<close>, \<open>delete_request\<close> the second.
\<close>

definition set_request ::
  "heap \<Rightarrow> memcached \<Rightarrow> byte \<Rightarrow> byte list \<Rightarrow> lvalue \<Rightarrow> int \<Rightarrow> 64 word \<Rightarrow> error + byte list list" where
  "set_request h m opcode key v expiration cas =
     (case encode_index m of
        None \<Rightarrow> Inl CallNil
      | Some enc \<Rightarrow>
          (case enc h v of
             Inl e \<Rightarrow> Inl e
           | Inr EncOther \<Rightarrow> Inl EncoderResult
           | Inr a \<Rightarrow>
               (let val = (case a of
                             EncBuffer b \<Rightarrow> read_bytes (bytes b) 0 (pos b)
                           | EncString str \<Rightarrow> str
                           | EncOther \<Rightarrow> [])
                in if length val > UINT32_MAX - (MEMCACHED_REQUEST_SET_EXTRAS + length key)
                   then Inl EncodedValueTooLong
                   else Inr [request_header opcode (length key) MEMCACHED_REQUEST_SET_EXTRAS
                               (MEMCACHED_REQUEST_SET_EXTRAS + length key + length val) cas
                             @ [0, 0, 0, 0] @ htobe32 (of_int expiration),
                             key, val])))"

definition delete_request :: "byte list \<Rightarrow> 64 word \<Rightarrow> byte list list" where
  "delete_request key cas =
     [request_header PROTOCOL_BINARY_CMD_DELETE (length key) MEMCACHED_REQUEST_DELETE_EXTRAS
        (MEMCACHED_REQUEST_DELETE_EXTRAS + length key) cas, key]"

definition set_response ::
  "lua_env \<Rightarrow> net \<Rightarrow> memcached \<Rightarrow> (error + lvalue list) \<times> net \<times> memcached" where
  "set_response env n m =
     (case recvresponse env n m {} of
        (Inl e, n2, m2) \<Rightarrow> (Inl e, n2, m2)
      | (Inr resp, n2, m2) \<Rightarrow>
          if r_status resp = PROTOCOL_BINARY_RESPONSE_SUCCESS then
            (Inr [VBool True, VInt (r_cas resp)], n2, m2)
          else if r_status resp = PROTOCOL_BINARY_RESPONSE_KEY_ENOENT
                \<or> r_status resp = PROTOCOL_BINARY_RESPONSE_KEY_EEXISTS then
            (Inr [VBool False], n2, m2)
          else (Inl (MemcachedError (unat (r_status resp))), n2, m2))"

definition set_op ::
  "lua_env \<Rightarrow> net \<Rightarrow> heap \<Rightarrow> memcached \<Rightarrow> byte \<Rightarrow> byte list \<Rightarrow> lvalue option \<Rightarrow> int option
     \<Rightarrow> 64 word option \<Rightarrow> (error + lvalue list) \<times> net \<times> memcached" where
  "set_op env n h m opcode key val expiration cas =
     (if bad_key key then (Inl (ArgError 2 ''bad key length''), n, m)
      else if opcode = PROTOCOL_BINARY_CMD_SET \<and> val = None then
        (Inl (ArgError 3 ''value expected''), n, m)
      else if opcode \<noteq> PROTOCOL_BINARY_CMD_SET \<and> (val = None \<or> val = Some VNil) then
        (Inl (ArgError 3 ''value required''), n, m)
      else if \<not> (0 \<le> (case expiration of None \<Rightarrow> 0 | Some x \<Rightarrow> x)
                \<and> (case expiration of None \<Rightarrow> 0 | Some x \<Rightarrow> x) \<le> int UINT32_MAX) then
        (Inl (ArgError 4 ''bad expiration''), n, m)
      else
        (case (if val \<noteq> Some VNil
               then set_request h m opcode key (the val)
                      (case expiration of None \<Rightarrow> 0 | Some x \<Rightarrow> x)
                      (case cas of None \<Rightarrow> 0 | Some c \<Rightarrow> c)
               else Inr (delete_request key (case cas of None \<Rightarrow> 0 | Some c \<Rightarrow> c))) of
           Inl e \<Rightarrow> (Inl e, n, m)
         | Inr iov \<Rightarrow>
             (case transmit n m iov of
                (Inl e, n1, m1) \<Rightarrow> (Inl e, n1, m1)
              | (Inr _, n1, m1) \<Rightarrow> set_response env n1 m1)))"




text \<open>
  \<^verbatim>\<open>stats\<close>: the \<^verbatim>\<open>while (1)\<close> loop that receives the frames is \<open>stats_loop\<close>; the Lua
  table it fills by \<^verbatim>\<open>lua_rawset\<close> with string keys and string values is a map. A frame that
  is received takes at least its header from the incoming bytes, so the loop ends.
\<close>

lemma recvnosig_closed_form:
  "recvnosig n m l =
     (if 0 < l \<and> l \<le> length (incoming n)
      then (Inr (take l (incoming n)), n\<lparr>incoming := drop l (incoming n)\<rparr>, m)
      else (Inl SocketClosed, n\<lparr>incoming := (if l = 0 then incoming n else [])\<rparr>,
            m\<lparr>fd := - 1, closed := (if \<not> reconnect m then True else closed m)\<rparr>))"
proof -
  have empty: "recvnosig n' m l' =
      (Inl SocketClosed, n', m\<lparr>fd := - 1, closed := (if \<not> reconnect m then True else closed m)\<rparr>)"
    if "incoming n' = [] \<or> l' = 0" for n' l'
    using that
    by (subst recvnosig.simps) (auto simp: sys_recv_def checkresult_def Let_def)
  consider (ok) "0 < l" "l \<le> length (incoming n)" | (zero) "l = 0 \<or> incoming n = []"
    | (short) "0 < l" "length (incoming n) < l" "incoming n \<noteq> []"
    by fastforce
  then show ?thesis
  proof cases
    case ok
    then show ?thesis
      by (subst recvnosig.simps) (simp add: sys_recv_def checkresult_def Let_def min_def)
  next
    case zero
    then show ?thesis by (auto simp: empty)
  next
    case short
    then show ?thesis
      by (subst recvnosig.simps)
         (simp add: sys_recv_def checkresult_def Let_def min_def empty)
  qed
qed

lemma recv_part_shrinks:
  "recv_part n m l keep = (Inr x, n', m') \<Longrightarrow> length (incoming n') \<le> length (incoming n)"
  by (auto simp: recv_part_def recvstring_def recvnosig_closed_form split: if_splits)

lemma recv_value_shrinks:
  "recv_value env n m bl ek flags = (Inr x, n', m') \<Longrightarrow>
   length (incoming n') \<le> length (incoming n)"
  by (auto simp: recv_value_def recvstring_def recvnosig_closed_form Let_def split: if_splits)

lemma recvresponse_shrinks:
  "recvresponse env n m flags = (Inr resp, n', m') \<Longrightarrow> length (incoming n') < length (incoming n)"
proof -
  assume a: "recvresponse env n m flags = (Inr resp, n', m')"
  then obtain hdr n1 m1 where h: "recvnosig n m MEMCACHED_REQUEST_BASE = (Inr hdr, n1, m1)"
    by (auto simp: recvresponse_def split: prod.splits sum.splits)
  then have 1: "length (incoming n1) < length (incoming n)"
    by (auto simp: recvnosig_closed_form MEMCACHED_REQUEST_BASE_def split: if_splits)
  from a h obtain el ext kl k bl v n2 m2 n3 m3 where
    e: "recv_part n1 m1 el (MEMCACHED_EXTRAS \<in> flags) = (Inr ext, n2, m2)" and
    k: "recv_part n2 m2 kl (MEMCACHED_KEY \<in> flags) = (Inr k, n3, m3)" and
    v: "recv_value env n3 m3 bl (el + kl) flags = (Inr v, n', m')"
    by (auto simp: recvresponse_def Let_def split: prod.splits sum.splits if_splits)
  from 1 recv_part_shrinks[OF e] recv_part_shrinks[OF k] recv_value_shrinks[OF v]
  show ?thesis by simp
qed

function stats_loop ::
  "lua_env \<Rightarrow> net \<Rightarrow> memcached \<Rightarrow> (byte list \<rightharpoonup> byte list)
     \<Rightarrow> (error + (byte list \<rightharpoonup> byte list)) \<times> net \<times> memcached" where
  "stats_loop env n m tbl =
     (case recvresponse env n m {MEMCACHED_KEY, MEMCACHED_VALUE} of
        (Inl e, n', m') \<Rightarrow> (Inl e, n', m')
      | (Inr resp, n', m') \<Rightarrow>
          if r_status resp = PROTOCOL_BINARY_RESPONSE_SUCCESS then
            (case r_ret resp of
               [v] \<Rightarrow> (Inr tbl, n', m')
             | [PString k, PString v] \<Rightarrow> stats_loop env n' m' (tbl(k \<mapsto> v))
             | _ \<Rightarrow> (Inl ProtocolError, n', m'))
          else (Inl (MemcachedError (unat (r_status resp))), n', m'))"
  by pat_completeness auto
termination
  by (relation "measure (\<lambda>(env, n, m, tbl). length (incoming n))")
     (auto dest!: sym[THEN recvresponse_shrinks])

declare stats_loop.simps [simp del]

definition stats ::
  "lua_env \<Rightarrow> net \<Rightarrow> memcached \<Rightarrow> byte list option
     \<Rightarrow> (error + (byte list \<rightharpoonup> byte list)) \<times> net \<times> memcached" where
  "stats env n m key =
     (if key \<noteq> None \<and> bad_key (the key) then (Inl (ArgError 2 ''bad key length''), n, m)
      else
        (case transmit n m
                (request_header PROTOCOL_BINARY_CMD_STAT (case key of None \<Rightarrow> 0 | Some k \<Rightarrow> length k)
                   MEMCACHED_REQUEST_STATS_EXTRAS
                   (MEMCACHED_REQUEST_STATS_EXTRAS + (case key of None \<Rightarrow> 0 | Some k \<Rightarrow> length k)) 0
                 # (case key of None \<Rightarrow> [] | Some k \<Rightarrow> [k])) of
           (Inl e, n1, m1) \<Rightarrow> (Inl e, n1, m1)
         | (Inr _, n1, m1) \<Rightarrow> stats_loop env n1 m1 Map.empty))"

definition quit :: "net \<Rightarrow> memcached \<Rightarrow> (error + unit) \<times> net \<times> memcached" where
  "quit n m =
     (case sendnosig n m (request_header PROTOCOL_BINARY_CMD_QUITQ 0 0 0 0) of
        (Inl e, n', m') \<Rightarrow> (Inl e, n', m')
      | (Inr _, n', m') \<Rightarrow> (Inr (), n', m'))"

text \<open>
  \<^verbatim>\<open>mclose\<close> (the \<^verbatim>\<open>close\<close> method and the \<^verbatim>\<open>__gc\<close> metamethod): \<^verbatim>\<open>quit\<close> runs under
  \<^verbatim>\<open>lua_pcall\<close>, so its error is dropped, but what it did to the network and to the
  client stays.
\<close>

definition mclose :: "net \<Rightarrow> memcached \<Rightarrow> net \<times> memcached" where
  "mclose n m =
     (let m1 = m\<lparr>closed := True, host_index := None, port_index := None,
                 encode_index := None, decode_index := None\<rparr> in
      if fd m1 \<ge> 0 then
        (case quit n m1 of (r, n', m2) \<Rightarrow> (n', m2\<lparr>fd := - 1\<rparr>))
      else (n, m1))"

text \<open>
  \<^verbatim>\<open>mopen\<close>. A field of the configuration table is absent (nil), holds a value of the type
  the getter expects, or holds a value of another type.
\<close>

datatype 'a field = FNil | FVal 'a | FBad

record config =
  cfg_host :: "string field"
  cfg_port :: "string field"
  cfg_encode :: "encoder field"
  cfg_decode :: "decoder field"
  cfg_timeout :: "int field"
  cfg_reconnect :: "bool field"

datatype open_arg = NoArg | ArgTable config | ArgOther

definition getfield :: "open_arg \<Rightarrow> (config \<Rightarrow> 'a field) \<Rightarrow> string \<Rightarrow> 'a \<Rightarrow> error + 'a" where
  "getfield arg sel name dflt =
     (case arg of
        ArgTable c \<Rightarrow>
          (case sel c of FNil \<Rightarrow> Inr dflt | FVal x \<Rightarrow> Inr x | FBad \<Rightarrow> Inl (BadField name))
      | _ \<Rightarrow> Inr dflt)"

definition INT_MAX :: int where "INT_MAX = 2147483647"
definition INT_MIN :: int where "INT_MIN = - 2147483648"

definition mopen :: "lua_env \<Rightarrow> open_arg \<Rightarrow> error + memcached" where
  "mopen env arg =
     (if arg = ArgOther then Inl (ArgError 1 ''table expected'')
      else
        (case getfield arg cfg_host ''host'' ''localhost'' of Inl e \<Rightarrow> Inl e | Inr host \<Rightarrow>
        (case getfield arg cfg_port ''port'' ''11211'' of Inl e \<Rightarrow> Inl e | Inr port \<Rightarrow>
        (case getfield arg cfg_encode ''encode'' (default_encode env) of Inl e \<Rightarrow> Inl e | Inr enc \<Rightarrow>
        (case getfield arg cfg_decode ''decode'' (default_decode env) of Inl e \<Rightarrow> Inl e | Inr dec \<Rightarrow>
        (case getfield arg cfg_timeout ''timeout'' 1000 of Inl e \<Rightarrow> Inl e | Inr tmo \<Rightarrow>
           if \<not> (INT_MIN \<le> tmo \<and> tmo \<le> INT_MAX) then Inl (BadField ''timeout'')
           else if \<not> tmo > 0 then Inl (ArgError 1 ''bad timeout'')
           else
             (case getfield arg cfg_reconnect ''reconnect'' True of Inl e \<Rightarrow> Inl e | Inr rec \<Rightarrow>
                Inr \<lparr>host_index = Some host, port_index = Some port, encode_index = Some enc,
                     decode_index = Some dec, timeout = tmo, fd = - 1, reconnect = rec,
                     closed = False\<rparr>)))))))"


section \<open>Byte order: reading back what was written\<close>

lemma length_be_bytes [simp]: "length (be_bytes n v) = n"
  by (induction n arbitrary: v) auto

lemma be_nat_append: "be_nat (xs @ ys) = be_nat xs * 256 ^ length ys + be_nat ys"
proof (induction ys rule: rev_induct)
  case Nil
  then show ?case by (simp add: be_nat_def)
next
  case (snoc y ys)
  have "be_nat (xs @ ys @ [y]) = be_nat (xs @ ys) * 256 + unat y"
    by (simp add: be_nat_def)
  also have "\<dots> = (be_nat xs * 256 ^ length ys + be_nat ys) * 256 + unat y"
    by (simp add: snoc)
  also have "\<dots> = be_nat xs * 256 ^ length (ys @ [y]) + be_nat (ys @ [y])"
    by (simp add: be_nat_def algebra_simps)
  finally show ?case by simp
qed

lemma be_nat_single [simp]: "be_nat [x] = unat x"
  by (simp add: be_nat_def)

lemma be_nat_be_bytes: "be_nat (be_bytes n v) = v mod 256 ^ n"
proof (induction n arbitrary: v)
  case 0
  then show ?case by (simp add: be_nat_def)
next
  case (Suc n)
  have "unat (of_nat (v mod 256) :: byte) = v mod 256"
    by (simp add: unat_of_nat)
  then have "be_nat (be_bytes (Suc n) v) = (v div 256 mod 256 ^ n) * 256 + v mod 256"
    by (simp add: be_nat_append Suc)
  also have "\<dots> = v mod 256 ^ Suc n"
    by (simp add: mod_mult2_eq mult.commute)
  finally show ?case .
qed

lemma be_nat_bound: "be_nat bs < 256 ^ length bs"
proof (induction bs rule: rev_induct)
  case Nil
  then show ?case by (simp add: be_nat_def)
next
  case (snoc x xs)
  have "unat x < 256" using unsigned_less[of x, where ?'a=nat] by simp
  with snoc show ?case by (simp add: be_nat_append)
qed

lemma be16toh_htobe16 [simp]: "be16toh (htobe16 w) = w"
  using unsigned_less[of w, where ?'a=nat] by (simp add: be16toh_def htobe16_def be_nat_be_bytes)

lemma be32toh_htobe32 [simp]: "be32toh (htobe32 w) = w"
  using unsigned_less[of w, where ?'a=nat] by (simp add: be32toh_def htobe32_def be_nat_be_bytes)

lemma be64toh_htobe64 [simp]: "be64toh (htobe64 w) = w"
  using unsigned_less[of w, where ?'a=nat] by (simp add: be64toh_def htobe64_def be_nat_be_bytes)

lemma length_htobe [simp]:
  "length (htobe16 a) = 2" "length (htobe32 b) = 4" "length (htobe64 c) = 8"
  by (simp_all add: htobe16_def htobe32_def htobe64_def)

lemma bytes_double_double_bytes [simp]: "bytes_double env (double_bytes env w) = w"
  using unsigned_less[of w, where ?'a=nat] by (simp add: bytes_double_def double_bytes_def be_nat_be_bytes)

lemma length_double_bytes [simp]: "length (double_bytes env w) = 8"
  by (simp add: double_bytes_def)

lemma be_bytes_1: "be_bytes (Suc 0) v = [of_nat (v mod 256)]"
  by simp

lemma be_bytes_2: "be_bytes 2 v = [of_nat (v div 256 mod 256), of_nat (v mod 256)]"
  by (simp add: numeral_2_eq_2)

lemma be_bytes_4:
  "be_bytes 4 v = [of_nat (v div 256 div 256 div 256 mod 256), of_nat (v div 256 div 256 mod 256),
                   of_nat (v div 256 mod 256), of_nat (v mod 256)]"
proof -
  have e: "(4::nat) = Suc (Suc (Suc (Suc 0)))" by simp
  show ?thesis by (subst e) simp
qed

lemma be_bytes_8:
  "be_bytes 8 v = be_bytes 4 (v div 256 div 256 div 256 div 256) @ be_bytes 4 v"
proof -
  have e: "(8::nat) = Suc (Suc (Suc (Suc (Suc (Suc (Suc (Suc 0)))))))" by simp
  show ?thesis unfolding be_bytes_4 by (subst e) simp
qed

section \<open>Properties of the buffer\<close>

text \<open>
  One step of the growth policy in the words of the specification: double below 64 KiB,
  grow by half at or above 64 KiB, and take the exact requirement where the multiplication
  would leave the range of \<^verbatim>\<open>size_t\<close>.
\<close>


definition grow_step :: "nat \<Rightarrow> nat \<Rightarrow> nat" where
  "grow_step required c =
     (if c < 64 * 1024 then (if c \<le> SIZE_MAX div 2 then c * 2 else required)
      else (if c \<le> SIZE_MAX div 3 * 2 then c + c div 2 else required))"

lemma grow_capacity_unfold:
  "grow_capacity c r = (if c < r then grow_capacity (grow_step r c) r else Some c)"
  by (subst grow_capacity.simps) (simp add: grow_step_def)

lemma grow_step_gt: "0 < c \<Longrightarrow> c < r \<Longrightarrow> c < grow_step r c"
  by (auto simp: grow_step_def)

lemma grow_capacity_spec:
  "0 < c \<Longrightarrow> \<exists>k. grow_capacity c r = Some ((grow_step r ^^ k) c) \<and> r \<le> (grow_step r ^^ k) c
      \<and> (\<forall>j<k. (grow_step r ^^ j) c < r)"
proof (induction "r - c" arbitrary: c rule: less_induct)
  case less
  show ?case
  proof (cases "c < r")
    case False
    then have "grow_capacity c r = Some ((grow_step r ^^ 0) c)"
      by (subst grow_capacity_unfold) simp
    with False show ?thesis by (intro exI[of _ 0]) simp
  next
    case True
    let ?c = "grow_step r c"
    from grow_step_gt[OF less.prems True] have gt: "c < ?c" .
    with True have "r - ?c < r - c" by simp
    moreover from gt have "0 < ?c" by simp
    ultimately obtain k where k: "grow_capacity ?c r = Some ((grow_step r ^^ k) ?c)"
        "r \<le> (grow_step r ^^ k) ?c" "\<forall>j<k. (grow_step r ^^ j) ?c < r"
      using less.hyps by blast
    have "grow_capacity c r = Some ((grow_step r ^^ Suc k) c)"
      using k(1) True by (subst grow_capacity_unfold) (simp add: funpow_swap1)
    moreover have "r \<le> (grow_step r ^^ Suc k) c" using k(2) by (simp add: funpow_swap1)
    moreover have "\<forall>j<Suc k. (grow_step r ^^ j) c < r"
    proof (intro allI impI)
      fix j assume "j < Suc k"
      then show "(grow_step r ^^ j) c < r"
        using True k(3) by (cases j) (simp_all add: funpow_swap1)
    qed
    ultimately show ?thesis by blast
  qed
qed

text \<open>
  Claim C6. \<open>buffer_require\<close> fails with \<open>BufferOverflow\<close> exactly when \<open>pos + n\<close>
  exceeds the 256 MiB ceiling; when it returns, \<open>capacity - pos \<ge> n\<close> and only the capacity
  has changed; when it has to grow, the new capacity is the first value at or above the
  requirement in the sequence that starts at the current capacity (1024 if zero) and applies
  \<open>grow_step\<close>; with memory available it returns whenever the ceiling is respected, and the
  loop always ends. \<open>buffer_avail\<close> fails with \<open>BufferUnderflow\<close> exactly when
  \<open>pos + n > len\<close> (for a \<open>len\<close> in the range of \<^verbatim>\<open>size_t\<close>).
\<close>

theorem buffer_require_avail_spec:
  "(buffer_require env bf n = Inl BufferOverflow \<longleftrightarrow> pos bf + n > MEMCACHED_BUFFER_MAX)
   \<and> (\<forall>bf'. buffer_require env bf n = Inr bf' \<longrightarrow>
         n \<le> capacity bf' - pos bf' \<and> pos bf + n \<le> capacity bf'
         \<and> bf' = bf\<lparr>capacity := capacity bf'\<rparr>
         \<and> (pos bf + n \<le> capacity bf \<longrightarrow> bf' = bf)
         \<and> (capacity bf < pos bf + n \<longrightarrow>
               (\<exists>k. capacity bf' =
                      (grow_step (pos bf + n) ^^ k)
                        (if capacity bf = 0 then MEMCACHED_BUFFER_SIZE else capacity bf)
                    \<and> (\<forall>j<k. (grow_step (pos bf + n) ^^ j)
                          (if capacity bf = 0 then MEMCACHED_BUFFER_SIZE else capacity bf)
                        < pos bf + n))))
   \<and> (pos bf + n \<le> MEMCACHED_BUFFER_MAX \<and> (\<forall>c. alloc_ok env c) \<longrightarrow>
         (\<exists>bf'. buffer_require env bf n = Inr bf'))
   \<and> buffer_require env bf n \<noteq> Inl LoopDiverges
   \<and> (len bf \<le> SIZE_MAX \<longrightarrow>
        (buffer_avail bf n = Inl BufferUnderflow \<longleftrightarrow> pos bf + n > len bf)
      \<and> (buffer_avail bf n = Inr () \<longleftrightarrow> pos bf + n \<le> len bf))"
proof -
  let ?c0 = "if capacity bf = 0 then MEMCACHED_BUFFER_SIZE else capacity bf"
  let ?r = "pos bf + n"
  have c0: "0 < ?c0" by (simp add: MEMCACHED_BUFFER_SIZE_def)
  from grow_capacity_spec[OF c0, of ?r] obtain k where
    k: "grow_capacity ?c0 ?r = Some ((grow_step ?r ^^ k) ?c0)" "?r \<le> (grow_step ?r ^^ k) ?c0"
       "\<forall>j<k. (grow_step ?r ^^ j) ?c0 < ?r" by blast
  have ov: "(n > SIZE_MAX - pos bf \<or> ?r > MEMCACHED_BUFFER_MAX) \<longleftrightarrow> ?r > MEMCACHED_BUFFER_MAX"
    by (auto simp: SIZE_MAX_def MEMCACHED_BUFFER_MAX_def)
  have 1: "buffer_require env bf n = Inl BufferOverflow \<longleftrightarrow> ?r > MEMCACHED_BUFFER_MAX"
    unfolding buffer_require_def ov using k(1) by (auto simp: Let_def)
  have 2: "\<forall>bf'. buffer_require env bf n = Inr bf' \<longrightarrow>
         n \<le> capacity bf' - pos bf' \<and> ?r \<le> capacity bf'
         \<and> bf' = bf\<lparr>capacity := capacity bf'\<rparr>
         \<and> (?r \<le> capacity bf \<longrightarrow> bf' = bf)
         \<and> (capacity bf < ?r \<longrightarrow>
               (\<exists>k. capacity bf' = (grow_step ?r ^^ k) ?c0
                    \<and> (\<forall>j<k. (grow_step ?r ^^ j) ?c0 < ?r)))"
    unfolding buffer_require_def ov using k by (auto simp: Let_def split: if_splits)
  have 3: "?r \<le> MEMCACHED_BUFFER_MAX \<and> (\<forall>c. alloc_ok env c) \<longrightarrow>
         (\<exists>bf'. buffer_require env bf n = Inr bf')"
    unfolding buffer_require_def ov using k(1) by (auto simp: Let_def)
  have 4: "buffer_require env bf n \<noteq> Inl LoopDiverges"
    unfolding buffer_require_def ov using k(1) by (auto simp: Let_def)
  have 5: "len bf \<le> SIZE_MAX \<longrightarrow>
        (buffer_avail bf n = Inl BufferUnderflow \<longleftrightarrow> ?r > len bf)
      \<and> (buffer_avail bf n = Inr () \<longleftrightarrow> ?r \<le> len bf)"
    by (auto simp: buffer_avail_def SIZE_MAX_def)
  show ?thesis using 1 2 3 4 5 by blast
qed


definition env_ok :: lua_env where
  "env_ok = \<lparr>alloc_ok = (\<lambda>_. True), stack_max = 1000000, big_endian = False,
             cvt_str = (\<lambda>_. None), cvt_flt = (\<lambda>_. None), beyond = (\<lambda>_ _. 0)\<rparr>"

definition buffer0 :: memcached_buffer where
  "buffer0 = \<lparr>bytes = (\<lambda>_. 0), pos = 0, len = 0, capacity = MEMCACHED_BUFFER_SIZE\<rparr>"

lemma grow_step_1024: "grow_step 2000 1024 = 2048"
  by (simp add: grow_step_def SIZE_MAX_def)

theorem buffer_require_avail_spec_witness:
  "buffer_require env_ok buffer0 2000 = Inr (buffer0\<lparr>capacity := 2048\<rparr>)
   \<and> 2000 \<le> capacity (buffer0\<lparr>capacity := 2048\<rparr>) - pos (buffer0\<lparr>capacity := 2048\<rparr>)
   \<and> buffer_require env_ok (buffer0\<lparr>pos := 10\<rparr>) MEMCACHED_BUFFER_MAX = Inl BufferOverflow
   \<and> buffer_avail (buffer0\<lparr>pos := 3, len := 10\<rparr>) 7 = Inr ()
   \<and> buffer_avail (buffer0\<lparr>pos := 3, len := 10\<rparr>) 8 = Inl BufferUnderflow"
proof -
  have a: "buffer_require env_ok buffer0 2000 = Inr (buffer0\<lparr>capacity := 2048\<rparr>)"
    by (simp add: buffer_require_def buffer0_def env_ok_def MEMCACHED_BUFFER_SIZE_def
          MEMCACHED_BUFFER_MAX_def SIZE_MAX_def grow_capacity.simps)
  have b: "pos (buffer0\<lparr>pos := 10\<rparr>) + MEMCACHED_BUFFER_MAX > MEMCACHED_BUFFER_MAX"
    by simp
  have c: "len (buffer0\<lparr>pos := 3, len := 10\<rparr>) \<le> SIZE_MAX"
    by (simp add: SIZE_MAX_def)
  from buffer_require_avail_spec[of env_ok "buffer0\<lparr>pos := 10\<rparr>" MEMCACHED_BUFFER_MAX] b
  have b': "buffer_require env_ok (buffer0\<lparr>pos := 10\<rparr>) MEMCACHED_BUFFER_MAX = Inl BufferOverflow"
    by blast
  from buffer_require_avail_spec[of env_ok "buffer0\<lparr>pos := 3, len := 10\<rparr>" 7] c
  have c7: "buffer_avail (buffer0\<lparr>pos := 3, len := 10\<rparr>) 7 = Inr ()" by simp
  from buffer_require_avail_spec[of env_ok "buffer0\<lparr>pos := 3, len := 10\<rparr>" 8] c
  have c8: "buffer_avail (buffer0\<lparr>pos := 3, len := 10\<rparr>) 8 = Inl BufferUnderflow" by simp
  from buffer_require_avail_spec[of env_ok buffer0 2000] a
  have a': "2000 \<le> capacity (buffer0\<lparr>capacity := 2048\<rparr>) - pos (buffer0\<lparr>capacity := 2048\<rparr>)"
    by blast
  from a a' b' c7 c8 show ?thesis by simp
qed




section \<open>Properties of the client\<close>

lemma sent_recvnosig [simp]: "sent (fst (snd (recvnosig n m l))) = sent n"
  by (simp add: recvnosig_closed_form)

lemma sent_recv_part [simp]: "sent (fst (snd (recv_part n m l keep))) = sent n"
  by (simp add: recv_part_def recvstring_def recvnosig_closed_form)

lemma sent_recv_value [simp]: "sent (fst (snd (recv_value env n m bl ek flags))) = sent n"
  by (simp add: recv_value_def recvstring_def recvnosig_closed_form Let_def)

lemma sent_recvresponse [simp]: "sent (fst (snd (recvresponse env n m flags))) = sent n"
proof -
  have 1: "sent n1 = sent n" if "recvnosig n m l = (r, n1, m1)" for r n1 m1 l
    using sent_recvnosig[of n m l] that by simp
  have 2: "sent n2 = sent n1" if "recv_part n1 m1 l keep = (r, n2, m2)" for r n1 n2 m1 m2 l keep
    using sent_recv_part[of n1 m1 l keep] that by simp
  have 3: "sent n2 = sent n1" if "recv_value env n1 m1 bl ek flags = (r, n2, m2)"
    for r n1 n2 m1 m2 bl ek
    using sent_recv_value[of env n1 m1 bl ek flags] that by simp
  show ?thesis
    by (auto simp: recvresponse_def Let_def split: prod.splits sum.splits dest!: 1 2 3)
qed

lemma sent_set_response [simp]: "sent (fst (snd (set_response env n m))) = sent n"
proof -
  have "sent n2 = sent n" if "recvresponse env n m {} = (r, n2, m2)" for r n2 m2
    using sent_recvresponse[of env n m "{}"] that by simp
  then show ?thesis
    by (auto simp: set_response_def split: prod.splits sum.splits)
qed

lemma transmit_connected:
  "\<not> closed m \<Longrightarrow> 0 \<le> fd m \<Longrightarrow> send_ok n \<Longrightarrow> concat iov \<noteq> [] \<Longrightarrow>
   transmit n m iov = (Inr (length (concat iov)), n\<lparr>sent := sent n @ concat iov\<rparr>, m)"
  by (simp add: transmit_def getsocket_def sendmsgnosig_def sys_send_def checkresult_def)


lemma request_header_fields:
  "length (request_header opc kl el bl c) = 24"
  "request_header opc kl el bl c ! 0 = PROTOCOL_BINARY_REQ"
  "request_header opc kl el bl c ! 1 = opc"
  "take 2 (drop 2 (request_header opc kl el bl c)) = htobe16 (of_nat kl)"
  "take 8 (drop 16 (request_header opc kl el bl c)) = htobe64 c"
  by (simp_all add: request_header_def)


definition net_up :: net where
  "net_up = \<lparr>resolve_ok = True, connect_fd = Some 3, send_ok = True, sent = [], incoming = []\<rparr>"


lemma mclose_closed: "closed (snd (mclose n m)) \<and> fd (snd (mclose n m)) = - 1 \<or> fd m < 0 \<and> closed (snd (mclose n m))"
  by (auto simp: mclose_def quit_def sendnosig_def sys_send_def checkresult_def Let_def
           split: prod.splits sum.splits if_splits)

definition client0 :: memcached where
  "client0 = projr (mopen env_ok NoArg)"

lemma client0_eq:
  "client0 = \<lparr>host_index = Some ''localhost'', port_index = Some ''11211'',
     encode_index = Some (default_encode env_ok), decode_index = Some (default_decode env_ok),
     timeout = 1000, fd = - 1, reconnect = True, closed = False\<rparr>"
  by (simp add: client0_def mopen_def getfield_def INT_MIN_def INT_MAX_def)


definition client_up :: memcached where
  "client_up = client0\<lparr>fd := 3\<rparr>"

text \<open>
  Claim C4. With a valid key and expiration, \<open>set\<close> with a nil value sends the request
  \<open>delete_request\<close>: a header with the DELETE opcode, the length of the same key and the
  CAS argument in the CAS field, followed by the key; its response is read as that of a
  store (\<open>set_response\<close>). \<open>add\<close> and \<open>replace\<close> with a nil or absent value raise an
  argument error, "value required" when the key is valid, and leave the network and the
  client as they were.
\<close>

theorem set_nil_is_delete:
  assumes "\<not> bad_key key"
    and "0 \<le> (case ex of None \<Rightarrow> 0 | Some x \<Rightarrow> x)"
    and "(case ex of None \<Rightarrow> 0 | Some x \<Rightarrow> x) \<le> int UINT32_MAX"
    and "c = (case cs of None \<Rightarrow> 0 | Some x \<Rightarrow> x)"
  shows "set_op env n h m PROTOCOL_BINARY_CMD_SET key (Some VNil) ex cs =
           (case transmit n m (delete_request key c) of
              (Inl err, n1, m1) \<Rightarrow> (Inl err, n1, m1)
            | (Inr k, n1, m1) \<Rightarrow> set_response env n1 m1)
    \<and> delete_request key c =
           [request_header PROTOCOL_BINARY_CMD_DELETE (length key) 0 (length key) c, key]
    \<and> hd (delete_request key c) ! 1 = PROTOCOL_BINARY_CMD_DELETE
    \<and> take 2 (drop 2 (hd (delete_request key c))) = htobe16 (of_nat (length key))
    \<and> take 8 (drop 16 (hd (delete_request key c))) = htobe64 c
    \<and> (\<not> closed m \<and> 0 \<le> fd m \<and> send_ok n \<longrightarrow>
           sent (fst (snd (set_op env n h m PROTOCOL_BINARY_CMD_SET key (Some VNil) ex cs)))
             = sent n @ request_header PROTOCOL_BINARY_CMD_DELETE (length key) 0 (length key) c @ key)
    \<and> (opcode \<noteq> PROTOCOL_BINARY_CMD_SET \<and> (v = None \<or> v = Some VNil) \<longrightarrow>
           set_op env n h m opcode key v ex' cs' = (Inl (ArgError 3 ''value required''), n, m))
    \<and> (opcode \<noteq> PROTOCOL_BINARY_CMD_SET \<and> (v = None \<or> v = Some VNil) \<longrightarrow>
           set_op env n h m opcode key' v ex' cs' =
             (Inl (ArgError (if bad_key key' then 2 else 3)
                     (if bad_key key' then ''bad key length'' else ''value required'')), n, m))"
proof (intro conjI)
  show 1: "set_op env n h m PROTOCOL_BINARY_CMD_SET key (Some VNil) ex cs =
           (case transmit n m (delete_request key c) of
              (Inl err, n1, m1) \<Rightarrow> (Inl err, n1, m1)
            | (Inr k, n1, m1) \<Rightarrow> set_response env n1 m1)"
    using assms by (simp add: set_op_def split: prod.splits sum.splits)
  show "delete_request key c =
           [request_header PROTOCOL_BINARY_CMD_DELETE (length key) 0 (length key) c, key]"
    by (simp add: delete_request_def MEMCACHED_REQUEST_DELETE_EXTRAS_def)
  show "hd (delete_request key c) ! 1 = PROTOCOL_BINARY_CMD_DELETE"
    by (simp add: delete_request_def request_header_def)
  show "take 2 (drop 2 (hd (delete_request key c))) = htobe16 (of_nat (length key))"
    by (simp add: delete_request_def request_header_def)
  show "take 8 (drop 16 (hd (delete_request key c))) = htobe64 c"
    by (simp add: delete_request_def request_header_def)
  show "\<not> closed m \<and> 0 \<le> fd m \<and> send_ok n \<longrightarrow>
           sent (fst (snd (set_op env n h m PROTOCOL_BINARY_CMD_SET key (Some VNil) ex cs)))
             = sent n @ request_header PROTOCOL_BINARY_CMD_DELETE (length key) 0 (length key) c @ key"
  proof
    assume c: "\<not> closed m \<and> 0 \<le> fd m \<and> send_ok n"
    have ne: "concat (delete_request key c) \<noteq> []"
      by (simp add: delete_request_def request_header_def)
    show "sent (fst (snd (set_op env n h m PROTOCOL_BINARY_CMD_SET key (Some VNil) ex cs)))
             = sent n @ request_header PROTOCOL_BINARY_CMD_DELETE (length key) 0 (length key) c @ key"
      unfolding 1 using c transmit_connected[OF _ _ _ ne, of m n]
      by (simp add: delete_request_def MEMCACHED_REQUEST_DELETE_EXTRAS_def)
  qed
  show "opcode \<noteq> PROTOCOL_BINARY_CMD_SET \<and> (v = None \<or> v = Some VNil) \<longrightarrow>
           set_op env n h m opcode key v ex' cs' = (Inl (ArgError 3 ''value required''), n, m)"
    using assms(1) by (auto simp: set_op_def)
  show "opcode \<noteq> PROTOCOL_BINARY_CMD_SET \<and> (v = None \<or> v = Some VNil) \<longrightarrow>
           set_op env n h m opcode key' v ex' cs' =
             (Inl (ArgError (if bad_key key' then 2 else 3)
                     (if bad_key key' then ''bad key length'' else ''value required'')), n, m)"
    by (auto simp: set_op_def)
qed

theorem set_nil_is_delete_witness:
  "\<not> bad_key [0x6B]
   \<and> sent (fst (snd (set_op env_ok net_up [] client_up PROTOCOL_BINARY_CMD_SET [0x6B]
                        (Some VNil) None (Some 7))))
       = [0x80, 0x04, 0, 1, 0, 0, 0, 0, 0, 0, 0, 1, 0, 0, 0, 0, 0, 0, 0, 0, 0, 0, 0, 7, 0x6B]
   \<and> set_op env_ok net_up [] client_up PROTOCOL_BINARY_CMD_ADD [0x6B] (Some VNil) None None
       = (Inl (ArgError 3 ''value required''), net_up, client_up)
   \<and> set_op env_ok net_up [] client_up PROTOCOL_BINARY_CMD_REPLACE [0x6B] None None None
       = (Inl (ArgError 3 ''value required''), net_up, client_up)"
proof -
  have k: "\<not> bad_key [0x6B]" by (simp add: bad_key_def UINT16_MAX_def)
  have e: "0 \<le> (case None :: int option of None \<Rightarrow> 0 | Some x \<Rightarrow> x)"
    "(case None :: int option of None \<Rightarrow> 0 | Some x \<Rightarrow> x) \<le> int UINT32_MAX"
    by (simp_all add: UINT32_MAX_def)
  have c: "(7 :: 64 word) = (case Some 7 of None \<Rightarrow> 0 | Some x \<Rightarrow> x)" by simp
  have up: "\<not> closed client_up \<and> 0 \<le> fd client_up \<and> send_ok net_up"
    by (simp add: client_up_def client0_eq net_up_def)
  have hdr: "request_header PROTOCOL_BINARY_CMD_DELETE (length [0x6B :: byte]) 0
               (length [0x6B :: byte]) 7
             = [0x80, 0x04, 0, 1, 0, 0, 0, 0, 0, 0, 0, 1, 0, 0, 0, 0, 0, 0, 0, 0, 0, 0, 0, 7]"
    by (simp add: request_header_def PROTOCOL_BINARY_REQ_def PROTOCOL_BINARY_CMD_DELETE_def
          htobe16_def htobe32_def htobe64_def be_bytes_2 be_bytes_4 be_bytes_8)
  have add: "PROTOCOL_BINARY_CMD_ADD \<noteq> PROTOCOL_BINARY_CMD_SET"
    and rep: "PROTOCOL_BINARY_CMD_REPLACE \<noteq> PROTOCOL_BINARY_CMD_SET"
    by (simp_all add: PROTOCOL_BINARY_CMD_ADD_def PROTOCOL_BINARY_CMD_REPLACE_def
          PROTOCOL_BINARY_CMD_SET_def)
  note t = set_nil_is_delete[OF k e c]
  note t6 = t[THEN conjunct2, THEN conjunct2, THEN conjunct2, THEN conjunct2, THEN conjunct2,
              THEN conjunct1]
  note t7 = t[THEN conjunct2, THEN conjunct2, THEN conjunct2, THEN conjunct2, THEN conjunct2,
              THEN conjunct2, THEN conjunct1]
  have sn: "sent net_up = []" by (simp add: net_up_def)
  from t6[of client_up net_up env_ok "[]"] up hdr sn
  have 1: "sent (fst (snd (set_op env_ok net_up [] client_up PROTOCOL_BINARY_CMD_SET [0x6B]
                        (Some VNil) None (Some 7))))
       = [0x80, 0x04, 0, 1, 0, 0, 0, 0, 0, 0, 0, 1, 0, 0, 0, 0, 0, 0, 0, 0, 0, 0, 0, 7, 0x6B]"
    by simp
  from t7[of PROTOCOL_BINARY_CMD_ADD "Some VNil" env_ok net_up "[]" client_up None None] add
  have 2: "set_op env_ok net_up [] client_up PROTOCOL_BINARY_CMD_ADD [0x6B] (Some VNil) None None
       = (Inl (ArgError 3 ''value required''), net_up, client_up)" by simp
  from t7[of PROTOCOL_BINARY_CMD_REPLACE None env_ok net_up "[]" client_up None None] rep
  have 3: "set_op env_ok net_up [] client_up PROTOCOL_BINARY_CMD_REPLACE [0x6B] None None None
       = (Inl (ArgError 3 ''value required''), net_up, client_up)" by simp
  from k 1 2 3 show ?thesis by simp
qed

subsection \<open>The statistics stream\<close>

record frame =
  f_opcode :: byte
  f_status :: "16 word"
  f_cas :: "64 word"
  f_extras :: "byte list"
  f_key :: "byte list"
  f_value :: "byte list"

definition response_frame :: "frame \<Rightarrow> byte list" where
  "response_frame f =
     [PROTOCOL_BINARY_RES, f_opcode f] @ htobe16 (of_nat (length (f_key f)))
       @ [of_nat (length (f_extras f)), 0] @ htobe16 (f_status f)
       @ htobe32 (of_nat (length (f_extras f) + length (f_key f) + length (f_value f)))
       @ [0, 0, 0, 0] @ htobe64 (f_cas f)
       @ f_extras f @ f_key f @ f_value f"

definition wf_frame :: "frame \<Rightarrow> bool" where
  "wf_frame f = (length (f_extras f) < 256 \<and> length (f_key f) < 65536
                 \<and> length (f_extras f) + length (f_key f) + length (f_value f) < 2 ^ 32)"

lemma recvnosig_prefix:
  "incoming n = xs @ rest \<Longrightarrow> xs \<noteq> [] \<Longrightarrow>
   recvnosig n m (length xs) = (Inr xs, n\<lparr>incoming := rest\<rparr>, m)"
  by (simp add: recvnosig_closed_form)

lemma recv_part_prefix:
  "incoming n = xs @ rest \<Longrightarrow>
   recv_part n m (length xs) keep
     = (Inr (if xs \<noteq> [] \<and> keep then [PString xs] else []), n\<lparr>incoming := rest\<rparr>, m)"
  by (cases "xs = []") (auto simp: recv_part_def recvstring_def recvnosig_closed_form)

lemma recv_value_prefix:
  "incoming n = xs @ rest \<Longrightarrow> MEMCACHED_VALUE_BUFFER \<notin> flags \<Longrightarrow> MEMCACHED_VALUE \<in> flags \<Longrightarrow>
   recv_value env n m (ek + length xs) ek flags = (Inr [PString xs], n\<lparr>incoming := rest\<rparr>, m)"
  by (cases "xs = []") (auto simp: recv_value_def recvstring_def recvnosig_closed_form)

lemma recvresponse_frame:
  assumes "wf_frame f" and "incoming n = response_frame f @ rest"
  shows "recvresponse env n m {MEMCACHED_KEY, MEMCACHED_VALUE} =
           (Inr \<lparr>r_status = f_status f, r_cas = f_cas f,
                 r_ret = (if f_key f = [] then [] else [PString (f_key f)]) @ [PString (f_value f)]\<rparr>,
            n\<lparr>incoming := rest\<rparr>, m)"
proof -
  let ?hdr = "[PROTOCOL_BINARY_RES, f_opcode f] @ htobe16 (of_nat (length (f_key f)))
       @ [of_nat (length (f_extras f)), 0] @ htobe16 (f_status f)
       @ htobe32 (of_nat (length (f_extras f) + length (f_key f) + length (f_value f)))
       @ [0, 0, 0, 0] @ htobe64 (f_cas f)"
  have len: "length ?hdr = 24" by simp
  have inc: "incoming n = ?hdr @ (f_extras f @ f_key f @ f_value f @ rest)"
    using assms(2) by (simp add: response_frame_def)
  have h: "recvnosig n m MEMCACHED_REQUEST_BASE
             = (Inr ?hdr, n\<lparr>incoming := f_extras f @ f_key f @ f_value f @ rest\<rparr>, m)"
    using recvnosig_prefix[OF inc, of m] len by (simp add: MEMCACHED_REQUEST_BASE_def)
  have el: "unat (of_nat (length (f_extras f)) :: byte) = length (f_extras f)"
    using assms(1) by (simp add: wf_frame_def unat_of_nat)
  have kl: "unat (of_nat (length (f_key f)) :: 16 word) = length (f_key f)"
    using assms(1) by (simp add: wf_frame_def unat_of_nat)
  have bl: "unat (of_nat (length (f_extras f) + length (f_key f) + length (f_value f)) :: 32 word)
              = length (f_extras f) + length (f_key f) + length (f_value f)"
    using assms(1) by (simp add: wf_frame_def unat_of_nat del: of_nat_add)
  have fields: "?hdr ! 0 = PROTOCOL_BINARY_RES" "?hdr ! 4 = of_nat (length (f_extras f))"
    "take 2 (drop 6 ?hdr) = htobe16 (f_status f)"
    "take 8 (drop 16 ?hdr) = htobe64 (f_cas f)"
    "take 2 (drop 2 ?hdr) = htobe16 (of_nat (length (f_key f)))"
    "take 4 (drop 8 ?hdr)
       = htobe32 (of_nat (length (f_extras f) + length (f_key f) + length (f_value f)))"
    by (simp_all add: nth_append)
  let ?n1 = "n\<lparr>incoming := f_extras f @ f_key f @ f_value f @ rest\<rparr>"
  have e: "recv_part ?n1 m (length (f_extras f)) False
             = (Inr [], n\<lparr>incoming := f_key f @ f_value f @ rest\<rparr>, m)"
    using recv_part_prefix[of ?n1 "f_extras f" "f_key f @ f_value f @ rest" m False] by simp
  let ?n2 = "n\<lparr>incoming := f_key f @ f_value f @ rest\<rparr>"
  have k: "recv_part ?n2 m (length (f_key f)) True
             = (Inr (if f_key f = [] then [] else [PString (f_key f)]),
                n\<lparr>incoming := f_value f @ rest\<rparr>, m)"
    using recv_part_prefix[of ?n2 "f_key f" "f_value f @ rest" m True] by simp
  let ?n3 = "n\<lparr>incoming := f_value f @ rest\<rparr>"
  have v: "recv_value env ?n3 m (length (f_extras f) + length (f_key f) + length (f_value f))
             (length (f_extras f) + length (f_key f)) {MEMCACHED_KEY, MEMCACHED_VALUE}
             = (Inr [PString (f_value f)], n\<lparr>incoming := rest\<rparr>, m)"
    using recv_value_prefix[of ?n3 "f_value f" rest "{MEMCACHED_KEY, MEMCACHED_VALUE}" env m
            "length (f_extras f) + length (f_key f)"] by simp
  have mem: "(MEMCACHED_EXTRAS \<in> {MEMCACHED_KEY, MEMCACHED_VALUE}) = False"
    "(MEMCACHED_KEY \<in> {MEMCACHED_KEY, MEMCACHED_VALUE}) = True" by simp_all
  show ?thesis
    unfolding recvresponse_def h
    by (simp only: prod.case sum.case fields Let_def el kl bl be16toh_htobe16 be32toh_htobe32
          be64toh_htobe64 mem e k v simp_thms if_False append_Nil)
qed

lemma recvnosig_error:
  "recvnosig n m l = (Inl e, n', m') \<Longrightarrow> e = SocketClosed"
  by (auto simp: recvnosig_closed_form split: if_splits)

lemma recv_part_cases:
  "recv_part n m l keep = (r, n', m') \<Longrightarrow>
   r = Inl SocketClosed \<or> (\<exists>x. r = Inr (if keep \<and> l \<noteq> 0 then [PString x] else []))"
  by (auto simp: recv_part_def recvstring_def recvnosig_closed_form split: if_splits)

lemma recv_value_cases:
  "recv_value env n m bl ek {MEMCACHED_KEY, MEMCACHED_VALUE} = (r, n', m') \<Longrightarrow>
   r = Inl SocketClosed \<or> (\<exists>x. r = Inr [PString x])"
  by (auto simp: recv_value_def recvstring_def recvnosig_closed_form Let_def split: if_splits)

lemma recvresponse_stats_cases:
  assumes "recvresponse env n m {MEMCACHED_KEY, MEMCACHED_VALUE} = (r, n', m')"
  shows "r = Inl SocketClosed \<or> r = Inl BadResponse
         \<or> (\<exists>resp v. r = Inr resp \<and> r_ret resp = [PString v])
         \<or> (\<exists>resp k v. r = Inr resp \<and> r_ret resp = [PString k, PString v])"
proof (cases "recvnosig n m MEMCACHED_REQUEST_BASE")
  case (fields rh n1 m1)
  show ?thesis
  proof (cases rh)
    case (Inl e)
    with fields assms recvnosig_error[of n m _ e n1 m1] show ?thesis
      by (auto simp: recvresponse_def)
  next
    case (Inr hdr)
    show ?thesis
    proof (cases "hdr ! 0 \<noteq> PROTOCOL_BINARY_RES")
      case True
      with fields Inr assms show ?thesis by (auto simp: recvresponse_def)
    next
      case False
      let ?el = "unat (hdr ! 4)"
      let ?kl = "unat (be16toh (take 2 (drop 2 hdr)))"
      let ?bl = "unat (be32toh (take 4 (drop 8 hdr)))"
      obtain re n2 m2 where e: "recv_part n1 m1 ?el False = (re, n2, m2)"
        by (cases "recv_part n1 m1 ?el False") auto
      obtain rk n3 m3 where k: "recv_part n2 m2 ?kl True = (rk, n3, m3)"
        by (cases "recv_part n2 m2 ?kl True") auto
      obtain rv n4 m4 where v: "recv_value env n3 m3 ?bl (?el + ?kl) {MEMCACHED_KEY, MEMCACHED_VALUE}
                                  = (rv, n4, m4)"
        by (cases "recv_value env n3 m3 ?bl (?el + ?kl) {MEMCACHED_KEY, MEMCACHED_VALUE}") auto
      from recv_part_cases[OF e] recv_part_cases[OF k] recv_value_cases[OF v]
        assms fields Inr False e k v
      show ?thesis
        by (auto simp: recvresponse_def Let_def split: if_splits)
    qed
  qed
qed

lemma stats_loop_no_protocol_error:
  "fst (stats_loop env n m tbl) \<noteq> Inl ProtocolError"
proof (induction env n m tbl rule: stats_loop.induct)
  case (1 env n m tbl)
  obtain r n' m' where rr: "recvresponse env n m {MEMCACHED_KEY, MEMCACHED_VALUE} = (r, n', m')"
    by (cases "recvresponse env n m {MEMCACHED_KEY, MEMCACHED_VALUE}") auto
  from recvresponse_stats_cases[OF rr]
  consider (err) "r = Inl SocketClosed \<or> r = Inl BadResponse"
    | (one) resp v where "r = Inr resp" "r_ret resp = [PString v]"
    | (two) resp k v where "r = Inr resp" "r_ret resp = [PString k, PString v]"
    by blast
  then show ?case
  proof cases
    case err
    with rr show ?thesis by (subst stats_loop.simps) auto
  next
    case one
    with rr show ?thesis by (subst stats_loop.simps) auto
  next
    case two
    show ?thesis
    proof (cases "r_status resp = PROTOCOL_BINARY_RESPONSE_SUCCESS")
      case False
      with rr two show ?thesis by (subst stats_loop.simps) auto
    next
      case True
      have "fst (stats_loop env n' m' (tbl(k \<mapsto> v))) \<noteq> Inl ProtocolError"
        by (rule "1.IH") (use rr two True in \<open>auto simp: rr[symmetric]\<close>)
      with rr two True show ?thesis by (subst stats_loop.simps) auto
    qed
  qed
qed

text \<open>
  One step of the loop. When the next bytes of the stream are a well-formed response frame:
  a status other than SUCCESS ends the loop with an error; a SUCCESS frame with a key stores
  its value under the key and the loop goes on with the rest of the stream; a SUCCESS frame
  with an empty key ends the loop and returns the mapping, without a look at its value.
\<close>

lemma stats_loop_frames:
  assumes "wf_frame f" and "incoming n = response_frame f @ rest"
  shows "(f_status f \<noteq> PROTOCOL_BINARY_RESPONSE_SUCCESS \<longrightarrow>
            stats_loop env n m tbl
              = (Inl (MemcachedError (unat (f_status f))), n\<lparr>incoming := rest\<rparr>, m))
       \<and> (f_status f = PROTOCOL_BINARY_RESPONSE_SUCCESS \<and> f_key f \<noteq> [] \<longrightarrow>
            stats_loop env n m tbl
              = stats_loop env (n\<lparr>incoming := rest\<rparr>) m (tbl(f_key f \<mapsto> f_value f)))
       \<and> (f_status f = PROTOCOL_BINARY_RESPONSE_SUCCESS \<and> f_key f = [] \<longrightarrow>
            stats_loop env n m tbl = (Inr tbl, n\<lparr>incoming := rest\<rparr>, m))
       \<and> fst (stats_loop env n m tbl) \<noteq> Inl ProtocolError"
  using recvresponse_frame[OF assms, of env m] stats_loop_no_protocol_error[of env n m tbl]
  by (subst (1 2 3) stats_loop.simps) simp

definition frame_end :: frame where
  "frame_end = \<lparr>f_opcode = PROTOCOL_BINARY_CMD_STAT, f_status = 0, f_cas = 0, f_extras = [],
                f_key = [], f_value = []\<rparr>"

definition frame_pid :: frame where
  "frame_pid = \<lparr>f_opcode = PROTOCOL_BINARY_CMD_STAT, f_status = 0, f_cas = 0, f_extras = [],
                f_key = [0x70, 0x69, 0x64], f_value = [0x34, 0x32]\<rparr>"

definition frame_bad :: frame where
  "frame_bad = \<lparr>f_opcode = PROTOCOL_BINARY_CMD_STAT, f_status = 0, f_cas = 0, f_extras = [],
                f_key = [], f_value = [0x34, 0x32]\<rparr>"

lemma stats_loop_two_frames:
  "stats_loop env_ok (net_up\<lparr>incoming := response_frame frame_pid @ response_frame frame_end\<rparr>)
      client_up Map.empty
   = (Inr [[0x70, 0x69, 0x64] \<mapsto> [0x34, 0x32]], net_up, client_up)"
proof -
  have w1: "wf_frame frame_pid" and w2: "wf_frame frame_end"
    by (simp_all add: wf_frame_def frame_pid_def frame_end_def)
  have 1: "stats_loop env_ok
             (net_up\<lparr>incoming := response_frame frame_pid @ response_frame frame_end\<rparr>)
             client_up Map.empty
           = stats_loop env_ok (net_up\<lparr>incoming := response_frame frame_end\<rparr>) client_up
               [[0x70, 0x69, 0x64] \<mapsto> [0x34, 0x32]]"
    using stats_loop_frames[OF w1,
            of "net_up\<lparr>incoming := response_frame frame_pid @ response_frame frame_end\<rparr>"
               "response_frame frame_end" env_ok client_up Map.empty]
    by (simp add: frame_pid_def PROTOCOL_BINARY_RESPONSE_SUCCESS_def)
  have 2: "stats_loop env_ok (net_up\<lparr>incoming := response_frame frame_end\<rparr>) client_up
               [[0x70, 0x69, 0x64] \<mapsto> [0x34, 0x32]]
           = (Inr [[0x70, 0x69, 0x64] \<mapsto> [0x34, 0x32]], net_up, client_up)"
    using stats_loop_frames[OF w2, of "net_up\<lparr>incoming := response_frame frame_end\<rparr>" "[]"
            env_ok client_up "[[0x70, 0x69, 0x64] \<mapsto> [0x34, 0x32]]"]
    by (simp add: frame_end_def net_up_def PROTOCOL_BINARY_RESPONSE_SUCCESS_def)
  from 1 2 show ?thesis by simp
qed

section \<open>The encoder writes forward\<close>

text \<open>
  \<open>binv\<close> is what holds of the buffer while a value is encoded: the position is within
  the capacity and within the ceiling. The encoder never changes \<open>len\<close> and never writes
  below the position it started at.
\<close>

declare encode.simps [simp del] encode_pairs.simps [simp del]

definition binv :: "memcached_buffer \<Rightarrow> bool" where
  "binv bf = (pos bf \<le> capacity bf \<and> pos bf \<le> MEMCACHED_BUFFER_MAX)"

lemma buffer_require_Inr:
  assumes "buffer_require env bf n = Inr bf1"
  shows "pos bf1 = pos bf" "len bf1 = len bf" "bytes bf1 = bytes bf"
    "pos bf + n \<le> capacity bf1" "pos bf + n \<le> MEMCACHED_BUFFER_MAX"
proof -
  let ?c0 = "if capacity bf = 0 then MEMCACHED_BUFFER_SIZE else capacity bf"
  have c0: "0 < ?c0" by (simp add: MEMCACHED_BUFFER_SIZE_def)
  from grow_capacity_spec[OF c0, of "pos bf + n"] obtain k where
    k: "grow_capacity ?c0 (pos bf + n) = Some ((grow_step (pos bf + n) ^^ k) ?c0)"
       "pos bf + n \<le> (grow_step (pos bf + n) ^^ k) ?c0" by blast
  from assms k show "pos bf1 = pos bf" "len bf1 = len bf" "bytes bf1 = bytes bf"
    "pos bf + n \<le> capacity bf1" "pos bf + n \<le> MEMCACHED_BUFFER_MAX"
    by (auto simp: buffer_require_def Let_def split: if_splits)
qed

lemma write_bytes_below [simp]: "i < off \<Longrightarrow> write_bytes m off bs i = m i"
  by (simp add: write_bytes_def)

lemma write_bytes_above [simp]: "off + length bs \<le> i \<Longrightarrow> write_bytes m off bs i = m i"
  by (simp add: write_bytes_def)

lemma write_bytes_in: "off \<le> i \<Longrightarrow> i < off + length bs \<Longrightarrow> write_bytes m off bs i = bs ! (i - off)"
  by (simp add: write_bytes_def)

lemma length_read_bytes [simp]: "length (read_bytes m off n) = n"
  by (simp add: read_bytes_def)

lemma nth_read_bytes [simp]: "i < n \<Longrightarrow> read_bytes m off n ! i = m (off + i)"
  by (simp add: read_bytes_def)

lemma put_simps [simp]:
  "pos (put bf x) = pos bf + 1" "len (put bf x) = len bf" "capacity (put bf x) = capacity bf"
  "bytes (put bf x) = (bytes bf)(pos bf := x)"
  by (simp_all add: put_def)

lemma put_bytes_simps [simp]:
  "pos (put_bytes bf bs) = pos bf + length bs" "len (put_bytes bf bs) = len bf"
  "capacity (put_bytes bf bs) = capacity bf"
  "bytes (put_bytes bf bs) = write_bytes (bytes bf) (pos bf) bs"
  by (simp_all add: put_bytes_def)

lemma widen_header_Inr:
  assumes "widen_header env bf sp tag w narr nrec = Inr bf'" and "1 \<le> w"
  shows "pos bf' = pos bf + (2 * w - 2)" "len bf' = len bf"
    "pos bf' \<le> capacity bf'" "pos bf' \<le> MEMCACHED_BUFFER_MAX"
    "\<forall>i. i + 1 < sp \<longrightarrow> bytes bf' i = bytes bf i"
proof -
  from assms(1) obtain bf2 where
    r: "buffer_require env (bf\<lparr>bytes := (bytes bf)(sp - 1 := tag)\<rparr>) (2 * w - 2) = Inr bf2"
    by (auto simp: widen_header_def Let_def split: sum.splits)
  note b = buffer_require_Inr[OF r]
  from assms(1) r have eq: "bf' = bf2\<lparr>pos := pos bf2 + (2 * w - 2), bytes := write_bytes (write_bytes
        (memmove (bytes bf2) (sp + 2 * w) (sp + 2) (pos bf2 - sp - 2)) sp (be_bytes w narr))
        (sp + w) (be_bytes w nrec)\<rparr>"
    by (auto simp: widen_header_def Let_def)
  from eq b show "pos bf' = pos bf + (2 * w - 2)" "len bf' = len bf"
    "pos bf' \<le> capacity bf'" "pos bf' \<le> MEMCACHED_BUFFER_MAX"
    by simp_all
  show "\<forall>i. i + 1 < sp \<longrightarrow> bytes bf' i = bytes bf i"
    using eq b by (auto simp: memmove_def)
qed

lemma table_sizes_Inr:
  assumes "table_sizes env bf sp narr nrec = Inr bf'" and "binv bf"
  shows "pos bf \<le> pos bf'" "len bf' = len bf" "binv bf'"
    "\<forall>i. i + 1 < sp \<longrightarrow> bytes bf' i = bytes bf i"
proof -
  consider (t8) "bf' = bf\<lparr>bytes := (bytes bf)(sp := of_nat narr, sp + 1 := of_nat nrec)\<rparr>"
    | (w) tag w where "widen_header env bf sp tag w narr nrec = Inr bf'" "1 \<le> w"
    using assms(1) by (auto simp: table_sizes_def split: if_splits)
  then have "pos bf \<le> pos bf' \<and> len bf' = len bf \<and> binv bf'
     \<and> (\<forall>i. i + 1 < sp \<longrightarrow> bytes bf' i = bytes bf i)"
  proof cases
    case t8
    with assms(2) show ?thesis by (simp add: binv_def)
  next
    case w
    from widen_header_Inr[OF w] show ?thesis by (simp add: binv_def)
  qed
  then show "pos bf \<le> pos bf'" "len bf' = len bf" "binv bf'"
    "\<forall>i. i + 1 < sp \<longrightarrow> bytes bf' i = bytes bf i" by simp_all
qed

lemma encode_frame:
  "encode env h stk bf br v = Inr (bf', br') \<Longrightarrow>
     pos bf < pos bf' \<and> len bf' = len bf \<and> binv bf' \<and> (\<forall>i < pos bf. bytes bf' i = bytes bf i)"
  "encode_pairs env h stk bf br narr nrec es = Inr (bf'', br'', narr', nrec') \<Longrightarrow> binv bf \<Longrightarrow>
     pos bf \<le> pos bf'' \<and> len bf'' = len bf \<and> binv bf'' \<and> (\<forall>i < pos bf. bytes bf'' i = bytes bf i)"
proof (induction env h stk bf br v and env h stk bf br narr nrec es
       arbitrary: bf' br' and bf'' br'' narr' nrec' rule: encode_encode_pairs.induct)
  case (1 env h stk bf br x)
  then obtain bf1 where r: "buffer_require env bf 1 = Inr bf1"
    and e: "bf' = put bf1 (if x then MEMCACHED_TYPE_BOOLEANTRRUE else LUA_TBOOLEAN)"
    by (auto simp: encode.simps split: sum.splits)
  from buffer_require_Inr[OF r] e show ?case by (simp add: binv_def)
next
  case (2 env h stk bf br i)
  then obtain bf1 where r: "buffer_require env bf (1 + 8) = Inr bf1"
    and e: "bf' = put_bytes (put bf1 MEMCACHED_TYPE_INTEGER) (htobe64 i)"
    by (auto simp: encode.simps split: sum.splits)
  from buffer_require_Inr[OF r] e show ?case by (simp add: binv_def)
next
  case (3 env h stk bf br d)
  then obtain bf1 where r: "buffer_require env bf (1 + 8) = Inr bf1"
    and e: "bf' = put_bytes (put bf1 LUA_TNUMBER) (double_bytes env d)"
    by (auto simp: encode.simps split: sum.splits)
  from buffer_require_Inr[OF r] e show ?case by (simp add: binv_def)
next
  case (4 env h stk bf br s)
  show ?case
  proof (cases "length s \<le> 255")
    case True
    with 4 obtain bf1 where r: "buffer_require env bf (1 + 1 + length s) = Inr bf1"
      and e: "bf' = put_bytes (put (put bf1 MEMCACHED_TYPE_STRINGSHORT) (of_nat (length s))) s"
      by (auto simp: encode.simps split: sum.splits if_splits)
    from buffer_require_Inr[OF r] e show ?thesis by (simp add: binv_def)
  next
    case False
    with 4 obtain bf1 where r: "buffer_require env bf (1 + 8 + length s) = Inr bf1"
      and e: "bf' = put_bytes (put_bytes (put bf1 LUA_TSTRING) (htobe64 (of_nat (length s)))) s"
      by (auto simp: encode.simps split: sum.splits if_splits)
    from buffer_require_Inr[OF r] e show ?thesis by (simp add: binv_def)
  qed
next
  case (5 env h stk bf br t)
  show ?case
  proof (cases "etab br t = None")
    case False
    with 5(2) obtain bf1 where r: "buffer_require env bf (1 + 8) = Inr bf1"
      and e: "bf' = put_bytes (put bf1 MEMCACHED_TYPE_TABLEREF) (htobe64 (of_int (the (etab br t))))"
      by (auto simp: encode.simps split: sum.splits if_splits)
    from buffer_require_Inr[OF r] e show ?thesis by (simp add: binv_def)
  next
    case True
    let ?br1 = "br\<lparr>ecnt := ecnt br + 1, etab := (etab br)(t \<mapsto> ecnt br + 1)\<rparr>"
    from True 5(2) obtain bf1 bf4 br4 na nr where
      c: "lua_checkstack env stk 2" "ecnt br \<noteq> LUA_MAXINTEGER" and
      r: "buffer_require env bf (1 + 2) = Inr bf1" and
      p: "encode_pairs env h stk ((put bf1 MEMCACHED_TYPE_TABLE8)\<lparr>pos := pos bf1 + 3\<rparr>) ?br1
            0 0 (entries h t) = Inr (bf4, br4, na, nr)" and
      ts: "table_sizes env bf4 (pos bf1 + 1) na nr = Inr bf'"
      by (auto simp: encode.simps split: sum.splits if_splits prod.splits)
    note b = buffer_require_Inr[OF r]
    let ?bf3 = "(put bf1 MEMCACHED_TYPE_TABLE8)\<lparr>pos := pos bf1 + 3\<rparr>"
    have b3: "binv ?bf3" using b by (simp add: binv_def)
    have cs: "\<not> \<not> lua_checkstack env stk 2" using c by simp
    have nn: "\<not> etab br t \<noteq> None" using True by simp
    from "5.IH"[OF cs nn c(2) r p b3]
    have ih: "pos ?bf3 \<le> pos bf4" "len bf4 = len ?bf3" "binv bf4"
      "\<forall>i < pos ?bf3. bytes bf4 i = bytes ?bf3 i" by simp_all
    from table_sizes_Inr[OF ts ih(3)]
    have t: "pos bf4 \<le> pos bf'" "len bf' = len bf4" "binv bf'"
      "\<forall>i. i + 1 < pos bf1 + 1 \<longrightarrow> bytes bf' i = bytes bf4 i" by simp_all
    from ih t b show ?thesis by simp
  qed
next
  case (6 env h stk bf br)
  then show ?case by (simp add: encode.simps)
next
  case (7 env h stk bf br x)
  then show ?case by (simp add: encode.simps)
next
  case (8 env h stk bf br narr nrec)
  then show ?case by (simp add: encode_pairs.simps)
next
  case (9 env h stk bf br narr nrec kv es)
  show ?case
  proof (cases "supported (fst kv) \<and> supported (snd kv)")
    case False
    with "9.prems" "9.IH"(4)[OF False] show ?thesis by (simp add: encode_pairs.simps)
  next
    case sup: True
    with "9.prems" obtain na nr bf1 br1 bf2 br2 where
      c: "classify env (fst kv) narr nrec = Inr (na, nr)" and
      k: "encode env h (stk + 2) bf br (fst kv) = Inr (bf1, br1)" and
      v: "encode env h (stk + 2) bf1 br1 (snd kv) = Inr (bf2, br2)" and
      r: "encode_pairs env h stk bf2 br2 na nr es = Inr (bf'', br'', narr', nrec')"
      by (auto simp: encode_pairs.simps split: if_splits sum.splits prod.splits)
    note 1 = "9.IH"(1)[OF sup c refl k]
    note 2 = "9.IH"(2)[OF sup c refl k refl v]
    from 2 have b2: "binv bf2" by simp
    note 3 = "9.IH"(3)[OF sup c refl k refl v refl r b2]
    from 1 2 3 show ?thesis by auto
  qed
qed

definition buf_adv :: "dstate \<Rightarrow> dstate \<Rightarrow> bool" where
  "buf_adv s s' = (\<exists>p. d_buf s' = (d_buf s)\<lparr>pos := p\<rparr> \<and> pos (d_buf s) \<le> p
                      \<and> (pos (d_buf s) \<le> len (d_buf s) \<longrightarrow> p \<le> len (d_buf s)))"

lemma buf_adv_refl [simp]: "buf_adv s s"
  by (auto simp: buf_adv_def intro!: exI[of _ "pos (d_buf s)"])

lemma buf_adv_trans: "buf_adv s s' \<Longrightarrow> buf_adv s' s'' \<Longrightarrow> buf_adv s s''"
  by (auto simp: buf_adv_def)

lemma buf_adv_heap [simp]: "buf_adv s (s'\<lparr>d_heap := x\<rparr>) = buf_adv s s'"
  "buf_adv (s\<lparr>d_heap := x\<rparr>) s' = buf_adv s s'"
  by (simp_all add: buf_adv_def)

lemma buf_adv_br [simp]: "buf_adv s (s'\<lparr>d_br := x\<rparr>) = buf_adv s s'"
  "buf_adv (s\<lparr>d_br := x\<rparr>) s' = buf_adv s s'"
  by (simp_all add: buf_adv_def)

lemma read_n_adv: "read_n s n = (r, s') \<Longrightarrow> buf_adv s s' \<and> d_heap s' = d_heap s \<and> d_br s' = d_br s"
  by (auto simp: read_n_def buffer_avail_def split: if_splits)
     (auto simp: buf_adv_def)

lemma decode_case_adv:
  "decode_case env ty s = (r, s') \<Longrightarrow> buf_adv s s' \<and> d_heap s' = d_heap s \<and> d_br s' = d_br s"
proof (cases ty)
  case T_STRING
  assume a: "decode_case env ty s = (r, s')"
  obtain r1 s1 where 1: "read_n s 8 = (r1, s1)" by (cases "read_n s 8")
  show ?thesis
  proof (cases r1)
    case (Inl e)
    with a 1 T_STRING read_n_adv[OF 1] show ?thesis by simp
  next
    case (Inr x)
    obtain r2 s2 where 2: "read_n s1 (unat (be64toh x)) = (r2, s2)"
      by (cases "read_n s1 (unat (be64toh x))")
    from a 1 2 Inr T_STRING have "s' = s2" by (auto split: sum.splits)
    with read_n_adv[OF 1] read_n_adv[OF 2] show ?thesis by (auto intro: buf_adv_trans)
  qed
next
  case T_STRINGSHORT
  assume a: "decode_case env ty s = (r, s')"
  obtain r1 s1 where 1: "read_n s 1 = (r1, s1)" by (cases "read_n s 1")
  show ?thesis
  proof (cases r1)
    case (Inl e)
    with a 1 T_STRINGSHORT read_n_adv[OF 1] show ?thesis by simp
  next
    case (Inr x)
    obtain r2 s2 where 2: "read_n s1 (unat (hd x)) = (r2, s2)"
      by (cases "read_n s1 (unat (hd x))")
    from a 1 2 Inr T_STRINGSHORT have "s' = s2" by (auto split: sum.splits)
    with read_n_adv[OF 1] read_n_adv[OF 2] show ?thesis by (auto intro: buf_adv_trans)
  qed
qed (auto split: prod.splits sum.splits option.splits if_splits dest!: read_n_adv)

lemma decode_switch_adv:
  "decode_switch env s = (r, s') \<Longrightarrow> buf_adv s s' \<and> d_heap s' = d_heap s \<and> d_br s' = d_br s"
proof -
  assume a: "decode_switch env s = (r, s')"
  obtain r1 s1 where 1: "read_n s 1 = (r1, s1)" by (cases "read_n s 1")
  show ?thesis
  proof (cases r1)
    case (Inl e)
    with a 1 read_n_adv[OF 1] show ?thesis by (simp add: decode_switch_def)
  next
    case (Inr tag)
    show ?thesis
    proof (cases "wire_type (hd tag)")
      case None
      with a 1 Inr read_n_adv[OF 1] show ?thesis by (simp add: decode_switch_def)
    next
      case (Some ty)
      with a 1 Inr have "decode_case env ty s1 = (r, s')" by (simp add: decode_switch_def)
      from decode_case_adv[OF this] read_n_adv[OF 1] show ?thesis
        by (auto intro: buf_adv_trans)
    qed
  qed
qed

lemma lua_rawset_length: "lua_rawset env h t k v = Inr h' \<Longrightarrow> length h' = length h"
  by (auto simp: lua_rawset_def split: sum.splits)

lemma decode_adv:
  "buf_adv s (snd (decode env stk s))"
  "buf_adv s (snd (decodetable env stk s narr nrec))"
  "buf_adv s (snd (decode_pairs env stk t s n))"
proof (induction env stk s and env stk s narr nrec and env stk t s n
       rule: decode_decodetable_decode_pairs.induct)
  case (1 env stk s)
  obtain r s' where sw: "decode_switch env s = (r, s')" by (cases "decode_switch env s")
  note a = decode_switch_adv[OF sw]
  show ?case
  proof (cases r)
    case (Inl e)
    with sw a show ?thesis by (simp add: decode.simps)
  next
    case (Inr hd)
    show ?thesis
    proof (cases hd)
      case (HValue v)
      with sw a Inr show ?thesis by (simp add: decode.simps)
    next
      case (HTable narr nrec)
      from "1.IH"[OF sw[symmetric] Inr HTable] a sw Inr HTable
      show ?thesis by (auto simp: decode.simps intro: buf_adv_trans)
    qed
  qed
next
  case (2 env stk s narr nrec)
  show ?case
  proof (cases "lua_checkstack env stk 3")
    case False
    then show ?thesis by (simp add: decodetable.simps)
  next
    case True
    let ?s1 = "s\<lparr>d_heap := d_heap s @ [[]],
                   d_br := (d_br s)\<lparr>dcnt := dcnt (d_br s) + 1,
                                    dtab := (dtab (d_br s))(dcnt (d_br s) + 1 \<mapsto> length (d_heap s))\<rparr>\<rparr>"
    obtain r2 s2 where p1: "decode_pairs env (stk + 1) (length (d_heap s)) ?s1 narr = (r2, s2)"
      by (cases "decode_pairs env (stk + 1) (length (d_heap s)) ?s1 narr")
    have nn: "\<not> \<not> lua_checkstack env stk 3" using True by simp
    from "2.IH"(1)[OF nn] p1 have a1: "buf_adv s s2" by simp
    show ?thesis
    proof (cases r2)
      case (Inl e)
      with True p1 a1 show ?thesis by (simp add: decodetable.simps)
    next
      case (Inr u)
      obtain r3 s3 where p2: "decode_pairs env (stk + 1) (length (d_heap s)) s2 nrec = (r3, s3)"
        by (cases "decode_pairs env (stk + 1) (length (d_heap s)) s2 nrec")
      from "2.IH"(2)[OF nn p1[symmetric] Inr] p2 have "buf_adv s2 s3" by simp
      with a1 have "buf_adv s s3" by (rule buf_adv_trans)
      with True p1 p2 Inr show ?thesis by (auto simp: decodetable.simps split: sum.splits)
    qed
  qed
next
  case (3 env stk t s n)
  show ?case
  proof (cases "0 < n")
    case False
    then show ?thesis by (simp add: decode_pairs.simps)
  next
    case True
    obtain r1 s1 where d1: "decode env stk s = (r1, s1)" by (cases "decode env stk s")
    from "3.IH"(1)[OF True] d1 have a1: "buf_adv s s1" by simp
    show ?thesis
    proof (cases r1)
      case (Inl e)
      with True d1 a1 show ?thesis by (simp add: decode_pairs.simps)
    next
      case k: (Inr k)
      obtain r2 s2 where d2: "decode env (stk + 1) s1 = (r2, s2)"
        by (cases "decode env (stk + 1) s1")
      from "3.IH"(2)[OF True d1[symmetric] k] d2 a1 have a2: "buf_adv s s2"
        by (auto intro: buf_adv_trans)
      show ?thesis
      proof (cases r2)
        case (Inl e)
        with True d1 d2 k a2 show ?thesis by (simp add: decode_pairs.simps)
      next
        case v: (Inr v)
        show ?thesis
        proof (cases "lua_rawset env (d_heap s2) t k v")
          case (Inl e)
          with True d1 d2 k v a2 show ?thesis by (simp add: decode_pairs.simps)
        next
          case (Inr h')
          from "3.IH"(3)[OF True d1[symmetric] k d2[symmetric] v Inr] a2
          have "buf_adv s (snd (decode_pairs env stk t (s2\<lparr>d_heap := h'\<rparr>) (n - 1)))"
            by (auto intro: buf_adv_trans)
          with True d1 d2 k v Inr show ?thesis by (simp add: decode_pairs.simps)
        qed
      qed
    qed
  qed
qed

lemma length_version [simp]: "length MEMCACHED_CODEC_VERSION = 4"
  by (simp add: MEMCACHED_CODEC_VERSION_def)

lemma mencode_Inr:
  assumes "mencode env h arg = Inr b"
  obtains v b1 b3 br where "arg = Some v" "buffer_require env buffer0 4 = Inr b1"
    "encode env h 3 (put_bytes b1 MEMCACHED_CODEC_VERSION) \<lparr>etab = Map.empty, ecnt = 0\<rparr> v = Inr (b3, br)"
    "b = b3\<lparr>len := pos b3\<rparr>"
  using assms
  by (auto simp: mencode_def buffer0_def split: option.splits if_splits sum.splits)

lemma read_bytes_write_bytes [simp]:
  "read_bytes (write_bytes m off bs) off (length bs) = bs"
  by (auto simp: list_eq_iff_nth_eq length_read_bytes nth_read_bytes write_bytes_def)

lemma read_bytes_cong:
  "(\<And>i. off \<le> i \<Longrightarrow> i < off + n \<Longrightarrow> m i = m' i) \<Longrightarrow> read_bytes m off n = read_bytes m' off n"
  by (auto simp: list_eq_iff_nth_eq length_read_bytes nth_read_bytes)

lemma take_read_bytes: "k \<le> n \<Longrightarrow> take k (read_bytes m off n) = read_bytes m off k"
  by (auto simp: list_eq_iff_nth_eq length_read_bytes nth_read_bytes)

lemma mencode_shape:
  assumes "mencode env h arg = Inr b"
  shows "pos b = len b" "len b \<le> capacity b" "len b \<le> MEMCACHED_BUFFER_MAX" "4 < len b"
    "read_bytes (bytes b) 0 4 = MEMCACHED_CODEC_VERSION"
proof -
  from assms obtain v b1 b3 br where v: "arg = Some v"
    and r: "buffer_require env buffer0 4 = Inr b1"
    and e: "encode env h 3 (put_bytes b1 MEMCACHED_CODEC_VERSION) \<lparr>etab = Map.empty, ecnt = 0\<rparr> v
            = Inr (b3, br)"
    and b: "b = b3\<lparr>len := pos b3\<rparr>" by (rule mencode_Inr)
  note f = encode_frame(1)[OF e]
  note q = buffer_require_Inr[OF r]
  have p4: "pos (put_bytes b1 MEMCACHED_CODEC_VERSION) = 4"
    using q by (simp add: buffer0_def)
  show "pos b = len b" using b by simp
  show "len b \<le> capacity b" using b f by (simp add: binv_def)
  show "len b \<le> MEMCACHED_BUFFER_MAX" using b f by (simp add: binv_def)
  show "4 < len b" using b f p4 by simp
  have "read_bytes (bytes b) 0 4 = read_bytes (bytes (put_bytes b1 MEMCACHED_CODEC_VERSION)) 0 4"
    using f p4 b by (intro read_bytes_cong) simp
  also have "\<dots> = read_bytes (write_bytes (bytes b1) 0 MEMCACHED_CODEC_VERSION) 0
                     (length MEMCACHED_CODEC_VERSION)"
    using q by (simp add: put_bytes_def buffer0_def)
  also have "\<dots> = MEMCACHED_CODEC_VERSION" by (rule read_bytes_write_bytes)
  finally show "read_bytes (bytes b) 0 4 = MEMCACHED_CODEC_VERSION" .
qed

lemma read_bytes_string_buffer:
  "n \<le> length str \<Longrightarrow> read_bytes (bytes (string_buffer str)) 0 n = take n str"
  by (auto simp: list_eq_iff_nth_eq length_read_bytes nth_read_bytes string_buffer_def)

lemma mdecode_buffer_short:
  "len b < 4 \<Longrightarrow> mdecode_buffer env h b =
     (Inl BufferUnderflow, \<lparr>d_heap = h, d_buf = b\<lparr>pos := 0\<rparr>, d_br = \<lparr>dtab = Map.empty, dcnt = 0\<rparr>\<rparr>)"
  by (simp add: mdecode_buffer_def read_n_def buffer_avail_def SIZE_MAX_def)

lemma mdecode_buffer_version:
  "4 \<le> len b \<Longrightarrow> read_bytes (bytes b) 0 4 \<noteq> MEMCACHED_CODEC_VERSION \<Longrightarrow>
   mdecode_buffer env h b =
     (Inl BadCodecVersion, \<lparr>d_heap = h, d_buf = b\<lparr>pos := 0\<rparr>, d_br = \<lparr>dtab = Map.empty, dcnt = 0\<rparr>\<rparr>)"
  by (simp add: mdecode_buffer_def read_n_def buffer_avail_def SIZE_MAX_def Let_def)

text \<open>
  Claim C8 (amended). An input of at least four bytes whose first four bytes are not
  \<^verbatim>\<open>4C 4D F6 02\<close> fails \<open>mdecode\<close> with \<open>BadCodecVersion\<close>, and the heap is returned as it
  was: no table has been created. An input of fewer than four bytes fails with
  \<open>BufferUnderflow\<close> instead, again with the heap unchanged: the four bytes are asked of the
  buffer before they are compared. Every buffer returned by \<open>mencode\<close> holds more than four
  bytes and begins with exactly the four bytes of the version tag.
\<close>

theorem version_gate:
  "(4 \<le> length str \<and> take 4 str \<noteq> MEMCACHED_CODEC_VERSION \<longrightarrow>
      mdecode env h (EncString str) = (Inl BadCodecVersion, h, EncString str))
   \<and> (length str < 4 \<longrightarrow>
      mdecode env h (EncString str) = (Inl BufferUnderflow, h, EncString str))
   \<and> (4 \<le> len b \<and> read_bytes (bytes b) 0 4 \<noteq> MEMCACHED_CODEC_VERSION \<longrightarrow>
      mdecode env h (EncBuffer b) = (Inl BadCodecVersion, h, EncBuffer (b\<lparr>pos := 0\<rparr>)))
   \<and> (len b < 4 \<longrightarrow>
      mdecode env h (EncBuffer b) = (Inl BufferUnderflow, h, EncBuffer (b\<lparr>pos := 0\<rparr>)))
   \<and> (mencode env h arg = Inr b' \<longrightarrow>
      4 < len b' \<and> take 4 (buffer_tostring b') = MEMCACHED_CODEC_VERSION)"
proof (intro conjI impI)
  assume a: "4 \<le> length str \<and> take 4 str \<noteq> MEMCACHED_CODEC_VERSION"
  then have "read_bytes (bytes (string_buffer str)) 0 4 \<noteq> MEMCACHED_CODEC_VERSION"
    by (simp add: read_bytes_string_buffer)
  moreover have "4 \<le> len (string_buffer str)" using a by (simp add: string_buffer_def)
  ultimately show "mdecode env h (EncString str) = (Inl BadCodecVersion, h, EncString str)"
    by (simp add: mdecode_def mdecode_buffer_version)
next
  assume "length str < 4"
  then have "len (string_buffer str) < 4" by (simp add: string_buffer_def)
  then show "mdecode env h (EncString str) = (Inl BufferUnderflow, h, EncString str)"
    by (simp add: mdecode_def mdecode_buffer_short)
next
  assume "4 \<le> len b \<and> read_bytes (bytes b) 0 4 \<noteq> MEMCACHED_CODEC_VERSION"
  then show "mdecode env h (EncBuffer b) = (Inl BadCodecVersion, h, EncBuffer (b\<lparr>pos := 0\<rparr>))"
    by (simp add: mdecode_def mdecode_buffer_version)
next
  assume "len b < 4"
  then show "mdecode env h (EncBuffer b) = (Inl BufferUnderflow, h, EncBuffer (b\<lparr>pos := 0\<rparr>))"
    by (simp add: mdecode_def mdecode_buffer_short)
next
  assume m: "mencode env h arg = Inr b'"
  show "4 < len b'" by (rule mencode_shape(4)[OF m])
  then show "take 4 (buffer_tostring b') = MEMCACHED_CODEC_VERSION"
    using mencode_shape(5)[OF m] by (simp add: buffer_tostring_def take_read_bytes)
qed

definition buffer_true :: memcached_buffer where
  "buffer_true = \<lparr>bytes = (write_bytes (\<lambda>_. 0) 0 MEMCACHED_CODEC_VERSION)(4 := MEMCACHED_TYPE_BOOLEANTRRUE),
                  pos = 5, len = 5, capacity = MEMCACHED_BUFFER_SIZE\<rparr>"

lemma buffer_require_small:
  "pos bf + n \<le> capacity bf \<Longrightarrow> capacity bf \<le> MEMCACHED_BUFFER_MAX \<Longrightarrow> buffer_require env bf n = Inr bf"
  by (auto simp: buffer_require_def SIZE_MAX_def MEMCACHED_BUFFER_MAX_def)

lemma encode_true:
  "encode env_ok [] 3 (put_bytes buffer0 MEMCACHED_CODEC_VERSION) \<lparr>etab = Map.empty, ecnt = 0\<rparr>
     (VBool True) = Inr (buffer_true\<lparr>len := 0\<rparr>, \<lparr>etab = Map.empty, ecnt = 0\<rparr>)"
  by (simp add: encode.simps buffer_require_small buffer0_def
        MEMCACHED_BUFFER_SIZE_def MEMCACHED_BUFFER_MAX_def put_def put_bytes_def buffer_true_def)

lemma mencode_true: "mencode env_ok [] (Some (VBool True)) = Inr buffer_true"
  using encode_true
  by (simp add: mencode_def buffer_require_small env_ok_def buffer0_def buffer_true_def
        MEMCACHED_BUFFER_SIZE_def MEMCACHED_BUFFER_MAX_def put_bytes_def)

theorem version_gate_witness:
  "mdecode env_ok [] (EncString [0x4C, 0x4D, 0xF6, 0x01, 0x41])
     = (Inl BadCodecVersion, [], EncString [0x4C, 0x4D, 0xF6, 0x01, 0x41])
   \<and> mdecode env_ok [] (EncBuffer (string_buffer [0x4C, 0x4D, 0xF6]))
     = (Inl BufferUnderflow, [], EncBuffer (string_buffer [0x4C, 0x4D, 0xF6]))
   \<and> mencode env_ok [] (Some (VBool True)) = Inr buffer_true
   \<and> take 4 (buffer_tostring buffer_true) = MEMCACHED_CODEC_VERSION"
  using version_gate[of "[0x4C, 0x4D, 0xF6, 0x01, 0x41]" env_ok "[]" "string_buffer [0x4C, 0x4D, 0xF6]"
          "Some (VBool True)" buffer_true] mencode_true
  by (simp add: MEMCACHED_CODEC_VERSION_def string_buffer_def)

theorem version_gate_short_counterexample:
  "mdecode env_ok [] (EncString [0x00, 0x01, 0x02]) = (Inl BufferUnderflow, [], EncString [0x00, 0x01, 0x02])
   \<and> take 4 [0x00, 0x01, 0x02] \<noteq> MEMCACHED_CODEC_VERSION"
  by (simp add: mdecode_def mdecode_buffer_short string_buffer_def MEMCACHED_CODEC_VERSION_def)

lemma mdecode_buffer_adv:
  assumes "mdecode_buffer env h b = (r, s)"
  shows "\<exists>p. d_buf s = b\<lparr>pos := p\<rparr> \<and> p \<le> len b"
proof -
  let ?s0 = "\<lparr>d_heap = h, d_buf = b\<lparr>pos := 0\<rparr>, d_br = \<lparr>dtab = Map.empty, dcnt = 0\<rparr>\<rparr>"
  obtain r1 s1 where 1: "read_n ?s0 (length MEMCACHED_CODEC_VERSION) = (r1, s1)"
    by (cases "read_n ?s0 (length MEMCACHED_CODEC_VERSION)")
  from read_n_adv[OF 1] have a1: "buf_adv ?s0 s1" by simp
  have a0: "buf_adv ?s0 ?s0" by simp
  have "buf_adv ?s0 s"
  proof (cases r1)
    case (Inl e)
    with assms 1 a1 show ?thesis by (simp add: mdecode_buffer_def)
  next
    case (Inr ver)
    show ?thesis
    proof (cases "ver = MEMCACHED_CODEC_VERSION")
      case False
      with assms 1 Inr have "s = ?s0" by (simp add: mdecode_buffer_def)
      then show ?thesis using a0 by simp
    next
      case True
      obtain r2 s2 where 2: "decode env 2 s1 = (r2, s2)" by (cases "decode env 2 s1")
      from decode_adv(1)[of s1 env 2] 2 have "buf_adv s1 s2" by simp
      with a1 have "buf_adv ?s0 s2" by (rule buf_adv_trans)
      moreover from assms 1 2 Inr True have "s = s2"
        by (auto simp: mdecode_buffer_def split: sum.splits if_splits)
      ultimately show ?thesis by simp
    qed
  qed
  then show ?thesis by (auto simp: buf_adv_def)
qed

text \<open>
  What \<open>mencode\<close>, \<open>encode\<close>, \<open>decode\<close> and \<open>mdecode\<close> keep of a buffer. The buffer that
  \<open>mencode\<close> returns has \<open>pos = len \<le> capacity\<close> and \<open>len\<close> within the 256 MiB ceiling;
  \<open>encode\<close> keeps \<open>pos \<le> capacity\<close> and \<open>pos\<close> within the ceiling, advances \<open>pos\<close> and does
  not touch \<open>len\<close>; \<open>decode\<close> does not touch \<open>len\<close>, \<open>capacity\<close> or the bytes and advances
  \<open>pos\<close>, never beyond \<open>len\<close>.
\<close>

lemma buffer_invariant:
  "(mencode env h arg = Inr b \<longrightarrow>
      pos b = len b \<and> len b \<le> capacity b \<and> len b \<le> MEMCACHED_BUFFER_MAX)
   \<and> (encode env h stk bf br v = Inr (bf', br') \<longrightarrow>
      len bf' = len bf \<and> pos bf < pos bf' \<and> pos bf' \<le> capacity bf'
      \<and> pos bf' \<le> MEMCACHED_BUFFER_MAX)
   \<and> (decode env stk' s = (r, s') \<and> pos (d_buf s) \<le> len (d_buf s) \<longrightarrow>
      pos (d_buf s) \<le> pos (d_buf s') \<and> pos (d_buf s') \<le> len (d_buf s')
      \<and> d_buf s' = (d_buf s)\<lparr>pos := pos (d_buf s')\<rparr>)
   \<and> (mdecode env h (EncBuffer bx) = (rx, hx, EncBuffer bx') \<longrightarrow>
      pos bx' \<le> len bx' \<and> bx' = bx\<lparr>pos := pos bx'\<rparr>)"
proof (intro conjI impI)
  assume m: "mencode env h arg = Inr b"
  show "pos b = len b" by (rule mencode_shape(1)[OF m])
  show "len b \<le> capacity b" by (rule mencode_shape(2)[OF m])
  show "len b \<le> MEMCACHED_BUFFER_MAX" by (rule mencode_shape(3)[OF m])
next
  assume e: "encode env h stk bf br v = Inr (bf', br')"
  note f = encode_frame(1)[OF e]
  show "len bf' = len bf" using f by simp
  show "pos bf < pos bf'" using f by simp
  show "pos bf' \<le> capacity bf'" using f by (simp add: binv_def)
  show "pos bf' \<le> MEMCACHED_BUFFER_MAX" using f by (simp add: binv_def)
next
  assume d: "decode env stk' s = (r, s') \<and> pos (d_buf s) \<le> len (d_buf s)"
  from decode_adv(1)[of s env stk'] d have a: "buf_adv s s'" by simp
  show "pos (d_buf s) \<le> pos (d_buf s')" using a by (auto simp: buf_adv_def)
  show "pos (d_buf s') \<le> len (d_buf s')" using a d by (auto simp: buf_adv_def)
  show "d_buf s' = (d_buf s)\<lparr>pos := pos (d_buf s')\<rparr>" using a by (auto simp: buf_adv_def)
next
  assume m: "mdecode env h (EncBuffer bx) = (rx, hx, EncBuffer bx')"
  obtain r1 s1 where 1: "mdecode_buffer env h bx = (r1, s1)" by (cases "mdecode_buffer env h bx")
  with m have b: "bx' = d_buf s1" by (simp add: mdecode_def)
  from mdecode_buffer_adv[OF 1] b show "pos bx' \<le> len bx'" by auto
  from mdecode_buffer_adv[OF 1] b show "bx' = bx\<lparr>pos := pos bx'\<rparr>" by auto
qed

definition dstate_true :: dstate where
  "dstate_true = \<lparr>d_heap = [], d_buf = buffer_true\<lparr>pos := 4\<rparr>, d_br = \<lparr>dtab = Map.empty, dcnt = 0\<rparr>\<rparr>"

lemma decode_true:
  "decode env_ok 2 dstate_true = (Inr (VBool True), dstate_true\<lparr>d_buf := buffer_true\<rparr>)"
  by (simp add: decode.simps decode_switch_def read_n_def buffer_avail_def dstate_true_def
        buffer_true_def SIZE_MAX_def read_bytes_def wire_type_def MEMCACHED_TYPE_BOOLEANTRRUE_def
        LUA_TBOOLEAN_def LUA_TNUMBER_def LUA_TSTRING_def LUA_TTABLE_def MEMCACHED_TYPE_INTEGER_def)

lemma mdecode_true:
  "mdecode env_ok [] (EncBuffer buffer_true) = (Inr (VBool True), [], EncBuffer buffer_true)"
proof -
  have "read_bytes (bytes buffer_true) 0 4
        = read_bytes (write_bytes (\<lambda>_. 0) 0 MEMCACHED_CODEC_VERSION) 0 (length MEMCACHED_CODEC_VERSION)"
    by (simp add: buffer_true_def) (rule read_bytes_cong, simp)
  then have rb: "read_bytes (bytes buffer_true) 0 4 = MEMCACHED_CODEC_VERSION"
    by (simp only: read_bytes_write_bytes)
  have "read_n \<lparr>d_heap = [], d_buf = buffer_true\<lparr>pos := 0\<rparr>, d_br = \<lparr>dtab = Map.empty, dcnt = 0\<rparr>\<rparr> 4
        = (Inr MEMCACHED_CODEC_VERSION, dstate_true)"
    using rb by (simp add: read_n_def buffer_avail_def SIZE_MAX_def dstate_true_def)
       (simp add: buffer_true_def)
  then show ?thesis
    using decode_true by (simp add: mdecode_def mdecode_buffer_def)
       (simp add: buffer_true_def dstate_true_def)
qed

lemma buffer_invariant_instance:
  "mencode env_ok [] (Some (VBool True)) = Inr buffer_true
   \<and> pos buffer_true = len buffer_true \<and> len buffer_true \<le> capacity buffer_true
   \<and> encode env_ok [] 3 (put_bytes buffer0 MEMCACHED_CODEC_VERSION) \<lparr>etab = Map.empty, ecnt = 0\<rparr>
        (VBool True) = Inr (buffer_true\<lparr>len := 0\<rparr>, \<lparr>etab = Map.empty, ecnt = 0\<rparr>)
   \<and> pos (put_bytes buffer0 MEMCACHED_CODEC_VERSION) < pos (buffer_true\<lparr>len := 0\<rparr>)
   \<and> decode env_ok 2 dstate_true = (Inr (VBool True), dstate_true\<lparr>d_buf := buffer_true\<rparr>)
   \<and> pos (d_buf dstate_true) \<le> len (d_buf dstate_true)
   \<and> pos (d_buf (dstate_true\<lparr>d_buf := buffer_true\<rparr>)) \<le> len (d_buf (dstate_true\<lparr>d_buf := buffer_true\<rparr>))
   \<and> mdecode env_ok [] (EncBuffer buffer_true) = (Inr (VBool True), [], EncBuffer buffer_true)"
  using buffer_invariant[of env_ok "[]" "Some (VBool True)" buffer_true 3
          "put_bytes buffer0 MEMCACHED_CODEC_VERSION" "\<lparr>etab = Map.empty, ecnt = 0\<rparr>" "VBool True"
          "buffer_true\<lparr>len := 0\<rparr>" "\<lparr>etab = Map.empty, ecnt = 0\<rparr>" 2 dstate_true
          "Inr (VBool True)" "dstate_true\<lparr>d_buf := buffer_true\<rparr>" buffer_true "Inr (VBool True)" "[]"
          buffer_true]
        mencode_true encode_true decode_true mdecode_true
  by (simp add: dstate_true_def buffer_true_def)

subsection \<open>The table header\<close>

text \<open>
  What the loop over the entries of a table counts, without the writing: \<open>counts\<close> follows the
  two counters of \<open>encode_pairs\<close>. \<open>size_class\<close> is the width in bytes of the smallest size
  field that holds both counts and \<open>table_tag\<close> the tag of a width, as the format describes
  them. \<open>arr_from n vs\<close> is the sequence of entries with keys \<open>n + 1, n + 2, \<dots>\<close>.
\<close>

fun counts :: "lua_env \<Rightarrow> nat \<Rightarrow> nat \<Rightarrow> ltable \<Rightarrow> nat \<times> nat" where
  "counts env narr nrec [] = (narr, nrec)"
| "counts env narr nrec (kv # es) =
     (if supported (fst kv) \<and> supported (snd kv) then
        (if nrec = 0 \<and> sint (lua_tointeger env (fst kv)) = int narr + 1
         then counts env (narr + 1) nrec es else counts env narr (nrec + 1) es)
      else counts env narr nrec es)"

definition size_class :: "nat \<Rightarrow> nat \<Rightarrow> nat" where
  "size_class narr nrec =
     (if narr < 2 ^ 8 \<and> nrec < 2 ^ 8 then 1
      else if narr < 2 ^ 16 \<and> nrec < 2 ^ 16 then 2
      else if narr < 2 ^ 32 \<and> nrec < 2 ^ 32 then 4 else 8)"

definition table_tag :: "nat \<Rightarrow> byte" where
  "table_tag w = (if w = 1 then 5 else if w = 2 then 21 else if w = 4 then 37 else 53)"

fun arr_from :: "nat \<Rightarrow> lvalue list \<Rightarrow> ltable" where
  "arr_from n [] = []"
| "arr_from n (v # vs) = (VInt (of_nat (n + 1)), v) # arr_from (n + 1) vs"

lemma encode_pairs_counts:
  "encode_pairs env h stk bf br narr nrec es = Inr (bf', br', narr', nrec') \<Longrightarrow>
     counts env narr nrec es = (narr', nrec')"
proof (induction es arbitrary: bf br narr nrec)
  case Nil
  then show ?case by (simp add: encode_pairs.simps)
next
  case (Cons kv es)
  show ?case
  proof (cases "supported (fst kv) \<and> supported (snd kv)")
    case False
    with Cons.prems have "encode_pairs env h stk bf br narr nrec es = Inr (bf', br', narr', nrec')"
      by (simp add: encode_pairs.simps)
    from Cons.IH[OF this] False show ?thesis by auto
  next
    case True
    with Cons.prems obtain na nr bf2 br2 where
      c: "classify env (fst kv) narr nrec = Inr (na, nr)" and
      p: "encode_pairs env h stk bf2 br2 na nr es = Inr (bf', br', narr', nrec')"
      by (auto simp: encode_pairs.simps split: sum.splits)
    from c have "(na, nr) = (if nrec = 0 \<and> sint (lua_tointeger env (fst kv)) = int narr + 1
                             then (narr + 1, nrec) else (narr, nrec + 1))"
      by (auto simp: classify_def split: if_splits)
    with Cons.IH[OF p] True show ?thesis by (auto split: if_splits)
  qed
qed

lemma sint_of_nat_64: "n < 2 ^ 63 \<Longrightarrow> sint (of_nat n :: 64 word) = int n"
proof -
  assume a: "n < 2 ^ 63"
  have "sint (of_nat n :: 64 word) = sint (word_of_int (int n) :: 64 word)" by simp
  also have "\<dots> = int n"
    using a by (simp only: sint_sbintrunc') (rule signed_take_bit_int_eq_self, simp_all)
  finally show ?thesis .
qed

lemma counts_arr_from:
  "\<forall>v\<in>set vs. supported v \<Longrightarrow> n + length vs \<le> INT64_MAX \<Longrightarrow>
     counts env n 0 (arr_from n vs) = (n + length vs, 0)"
proof (induction vs arbitrary: n)
  case Nil
  then show ?case by simp
next
  case (Cons v vs)
  from Cons.prems(2) have "n + 1 < 2 ^ 63" by (simp add: INT64_MAX_def)
  then have "sint (of_nat (n + 1) :: 64 word) = int n + 1"
    using sint_of_nat_64[of "n + 1"] by simp
  moreover have "counts env (n + 1) 0 (arr_from (n + 1) vs) = (n + 1 + length vs, 0)"
    using Cons.prems by (intro Cons.IH) auto
  ultimately show ?case using Cons.prems(1) by (simp add: lua_tointeger_def)
qed

lemma counts_rec_only:
  "0 < nrec \<Longrightarrow> \<forall>kv\<in>set es. supported (fst kv) \<and> supported (snd kv) \<Longrightarrow>
     counts env narr nrec es = (narr, nrec + length es)"
  by (induction es arbitrary: nrec) auto

lemma counts_records:
  "\<forall>kv\<in>set es. supported (fst kv) \<and> supported (snd kv) \<Longrightarrow> es \<noteq> [] \<Longrightarrow>
   sint (lua_tointeger env (fst (hd es))) \<noteq> 1 \<Longrightarrow> counts env 0 0 es = (0, length es)"
  by (cases es) (auto simp: counts_rec_only)


lemma widen_header_bytes:
  assumes "widen_header env bf sp tag w narr nrec = Inr bf'" and "1 \<le> w" and "1 \<le> sp"
    and "sp + 2 \<le> pos bf"
  shows "bytes bf' (sp - 1) = tag" "read_bytes (bytes bf') sp w = be_bytes w narr"
    "read_bytes (bytes bf') (sp + w) w = be_bytes w nrec"
    "read_bytes (bytes bf') (sp + 2 * w) (pos bf - sp - 2)
       = read_bytes (bytes bf) (sp + 2) (pos bf - sp - 2)"
proof -
  from assms(1) obtain bf2 where
    r: "buffer_require env (bf\<lparr>bytes := (bytes bf)(sp - 1 := tag)\<rparr>) (2 * w - 2) = Inr bf2"
    by (auto simp: widen_header_def Let_def split: sum.splits)
  note b = buffer_require_Inr[OF r]
  let ?m = "(bytes bf)(sp - 1 := tag)"
  let ?n = "pos bf - sp - 2"
  from assms(1) r b have eq: "bytes bf' = write_bytes (write_bytes
        (write_bytes ?m (sp + 2 * w) (read_bytes ?m (sp + 2) ?n)) sp (be_bytes w narr))
        (sp + w) (be_bytes w nrec)"
    by (auto simp: widen_header_def Let_def memmove_def)
  show "bytes bf' (sp - 1) = tag" using assms(2,3) by (simp add: eq)
  show "read_bytes (bytes bf') sp w = be_bytes w narr"
    using assms(2) by (auto simp: eq list_eq_iff_nth_eq write_bytes_in)
  show "read_bytes (bytes bf') (sp + w) w = be_bytes w nrec"
    using assms(2) by (auto simp: eq list_eq_iff_nth_eq write_bytes_in)
  show "read_bytes (bytes bf') (sp + 2 * w) ?n = read_bytes (bytes bf) (sp + 2) ?n"
    using assms(2,3) by (auto simp: eq list_eq_iff_nth_eq write_bytes_in)
qed

lemma table_sizes_header:
  assumes "table_sizes env bf sp narr nrec = Inr bf'" and "1 \<le> sp" and "sp + 2 \<le> pos bf"
    and "bytes bf (sp - 1) = MEMCACHED_TYPE_TABLE8"
  shows "bytes bf' (sp - 1) = table_tag (size_class narr nrec)"
    "read_bytes (bytes bf') sp (size_class narr nrec) = be_bytes (size_class narr nrec) narr"
    "read_bytes (bytes bf') (sp + size_class narr nrec) (size_class narr nrec)
       = be_bytes (size_class narr nrec) nrec"
    "pos bf' = pos bf + (2 * size_class narr nrec - 2)"
    "read_bytes (bytes bf') (sp + 2 * size_class narr nrec) (pos bf - sp - 2)
       = read_bytes (bytes bf) (sp + 2) (pos bf - sp - 2)"
proof -
  let ?w = "size_class narr nrec"
  have "bytes bf' (sp - 1) = table_tag ?w \<and> read_bytes (bytes bf') sp ?w = be_bytes ?w narr
      \<and> read_bytes (bytes bf') (sp + ?w) ?w = be_bytes ?w nrec
      \<and> pos bf' = pos bf + (2 * ?w - 2)
      \<and> read_bytes (bytes bf') (sp + 2 * ?w) (pos bf - sp - 2)
          = read_bytes (bytes bf) (sp + 2) (pos bf - sp - 2)"
  proof (cases "narr \<le> UINT8_MAX \<and> nrec \<le> UINT8_MAX")
    case True
    then have w: "?w = 1" by (simp add: size_class_def UINT8_MAX_def)
    from True assms(1)
    have eq: "bf' = bf\<lparr>bytes := (bytes bf)(sp := of_nat narr, sp + 1 := of_nat nrec)\<rparr>"
      by (simp add: table_sizes_def)
    have m: "narr mod 256 = narr" "nrec mod 256 = nrec" using True by (simp_all add: UINT8_MAX_def)
    show ?thesis unfolding w using assms(2,3,4) m
      by (auto simp: eq table_tag_def MEMCACHED_TYPE_TABLE8_def LUA_TTABLE_def list_eq_iff_nth_eq)
  next
    case n8: False
    show ?thesis
    proof (cases "narr \<le> UINT16_MAX \<and> nrec \<le> UINT16_MAX")
      case True
      with n8 have w: "?w = 2"
        by (auto simp: size_class_def UINT8_MAX_def UINT16_MAX_def)
      from True n8 assms(1)
      have wh: "widen_header env bf sp MEMCACHED_TYPE_TABLE16 2 narr nrec = Inr bf'"
        by (auto simp: table_sizes_def split: if_splits)
      show ?thesis unfolding w
        using widen_header_bytes[OF wh _ assms(2,3)] widen_header_Inr(1)[OF wh]
        by (simp add: table_tag_def MEMCACHED_TYPE_TABLE16_def LUA_TTABLE_def)
    next
      case n16: False
      show ?thesis
      proof (cases "narr \<le> UINT32_MAX \<and> nrec \<le> UINT32_MAX")
        case True
        with n8 n16 have w: "?w = 4"
          by (auto simp: size_class_def UINT8_MAX_def UINT16_MAX_def UINT32_MAX_def)
        from True n8 n16 assms(1)
        have wh: "widen_header env bf sp MEMCACHED_TYPE_TABLE32 4 narr nrec = Inr bf'"
          by (auto simp: table_sizes_def split: if_splits)
        show ?thesis unfolding w
          using widen_header_bytes[OF wh _ assms(2,3)] widen_header_Inr(1)[OF wh]
          by (simp add: table_tag_def MEMCACHED_TYPE_TABLE32_def LUA_TTABLE_def)
      next
        case False
        with n8 n16 have w: "?w = 8"
          by (auto simp: size_class_def UINT8_MAX_def UINT16_MAX_def UINT32_MAX_def)
        from False n8 n16 assms(1)
        have wh: "widen_header env bf sp MEMCACHED_TYPE_TABLE64 8 narr nrec = Inr bf'"
          by (auto simp: table_sizes_def split: if_splits)
        show ?thesis unfolding w
          using widen_header_bytes[OF wh _ assms(2,3)] widen_header_Inr(1)[OF wh]
          by (simp add: table_tag_def MEMCACHED_TYPE_TABLE64_def LUA_TTABLE_def)
      qed
    qed
  qed
  then show "bytes bf' (sp - 1) = table_tag (size_class narr nrec)"
    "read_bytes (bytes bf') sp (size_class narr nrec) = be_bytes (size_class narr nrec) narr"
    "read_bytes (bytes bf') (sp + size_class narr nrec) (size_class narr nrec)
       = be_bytes (size_class narr nrec) nrec"
    "pos bf' = pos bf + (2 * size_class narr nrec - 2)"
    "read_bytes (bytes bf') (sp + 2 * size_class narr nrec) (pos bf - sp - 2)
       = read_bytes (bytes bf) (sp + 2) (pos bf - sp - 2)"
    by simp_all
qed

lemma encode_table_Inr:
  assumes "encode env h stk bf br (VTable t) = Inr (bf', br')" and "etab br t = None"
  obtains bf1 bf4 narr nrec where
    "buffer_require env bf 3 = Inr bf1"
    "encode_pairs env h stk ((put bf1 MEMCACHED_TYPE_TABLE8)\<lparr>pos := pos bf + 3\<rparr>)
        (br\<lparr>ecnt := ecnt br + 1, etab := (etab br)(t \<mapsto> ecnt br + 1)\<rparr>) 0 0 (entries h t)
      = Inr (bf4, br', narr, nrec)"
    "table_sizes env bf4 (pos bf + 1) narr nrec = Inr bf'"
    "lua_checkstack env stk 2" "ecnt br \<noteq> LUA_MAXINTEGER"
proof -
  have e: "(1::nat) + 2 = 3" by simp
  from assms obtain bf1 where r: "buffer_require env bf 3 = Inr bf1"
    unfolding encode.simps e by (auto split: if_splits sum.splits)
  note b = buffer_require_Inr(1)[OF r]
  have s: "Suc (pos bf) = pos bf + 1" by simp
  from assms r b that show ?thesis
    unfolding encode.simps e by (auto simp del: Suc_eq_plus1 add_Suc_right One_nat_def simp: s split: if_splits sum.splits)
qed


lemma buffer_require_ok:
  "\<forall>c. alloc_ok env c \<Longrightarrow> pos bf + n \<le> MEMCACHED_BUFFER_MAX \<Longrightarrow>
     \<exists>bf1. buffer_require env bf n = Inr bf1"
proof -
  assume a: "\<forall>c. alloc_ok env c" and b: "pos bf + n \<le> MEMCACHED_BUFFER_MAX"
  let ?c0 = "if capacity bf = 0 then MEMCACHED_BUFFER_SIZE else capacity bf"
  have c0: "0 < ?c0" by (simp add: MEMCACHED_BUFFER_SIZE_def)
  from grow_capacity_spec[OF c0, of "pos bf + n"] obtain c where
    "grow_capacity ?c0 (pos bf + n) = Some c" by blast
  with a b show ?thesis
    by (auto simp: buffer_require_def Let_def SIZE_MAX_def MEMCACHED_BUFFER_MAX_def)
qed

lemma encode_pairs_bools_ok:
  "\<forall>c. alloc_ok env c \<Longrightarrow> pos bf + 10 * length bs \<le> MEMCACHED_BUFFER_MAX \<Longrightarrow>
   n + length bs \<le> INT64_MAX \<Longrightarrow>
     \<exists>bf'. encode_pairs env h stk bf br n 0 (arr_from n (map VBool bs))
              = Inr (bf', br, n + length bs, 0) \<and> pos bf' = pos bf + 10 * length bs"
proof (induction bs arbitrary: bf n)
  case Nil
  then show ?case by (simp add: encode_pairs.simps)
next
  case (Cons b bs)
  from Cons.prems(3) have n: "n + 1 < 2 ^ 63" "n \<noteq> INT64_MAX" by (simp_all add: INT64_MAX_def)
  have si: "sint (of_nat (n + 1) :: 64 word) = int n + 1"
    using sint_of_nat_64[OF n(1)] by simp
  have c: "classify env (VInt (of_nat (n + 1))) n 0 = Inr (n + 1, 0)"
    using n(2) si by (simp add: classify_def lua_tointeger_def)
  from Cons.prems(1,2) obtain bf1 where r1: "buffer_require env bf 9 = Inr bf1"
    using buffer_require_ok[of env bf 9] by auto
  note q1 = buffer_require_Inr[OF r1]
  let ?b2 = "put_bytes (put bf1 MEMCACHED_TYPE_INTEGER) (htobe64 (of_nat (n + 1)))"
  have e1: "encode env h (stk + 2) bf br (VInt (of_nat (n + 1))) = Inr (?b2, br)"
    using r1 by (simp add: encode.simps)
  have p2: "pos ?b2 = pos bf + 9" using q1 by (simp add: length_htobe)
  from Cons.prems(1,2) p2 obtain bf3 where r3: "buffer_require env ?b2 1 = Inr bf3"
    using buffer_require_ok[of env ?b2 1] by auto
  note q3 = buffer_require_Inr[OF r3]
  let ?b4 = "put bf3 (if b then MEMCACHED_TYPE_BOOLEANTRRUE else LUA_TBOOLEAN)"
  have e2: "encode env h (stk + 2) ?b2 br (VBool b) = Inr (?b4, br)"
    using r3 by (simp add: encode.simps)
  have p4: "pos ?b4 = pos bf + 10" using q3 p2 by simp
  from Cons.IH[of ?b4 "n + 1"] Cons.prems p4 obtain bf' where
    ih: "encode_pairs env h stk ?b4 br (n + 1) 0 (arr_from (n + 1) (map VBool bs))
           = Inr (bf', br, n + 1 + length bs, 0)" "pos bf' = pos ?b4 + 10 * length bs"
    by auto
  have "encode_pairs env h stk bf br n 0 (arr_from n (map VBool (b # bs)))
          = Inr (bf', br, n + length (b # bs), 0)"
    using c e1 e2 ih(1) by (simp add: encode_pairs.simps)
  with ih(2) p4 show ?case by auto
qed

lemma table_sizes_ok:
  "\<forall>c. alloc_ok env c \<Longrightarrow> pos bf + 14 \<le> MEMCACHED_BUFFER_MAX \<Longrightarrow>
     \<exists>bf'. table_sizes env bf sp narr nrec = Inr bf'"
proof -
  assume a: "\<forall>c. alloc_ok env c" and b: "pos bf + 14 \<le> MEMCACHED_BUFFER_MAX"
  have "\<exists>bf'. widen_header env bf sp tag w narr nrec = Inr bf'" if w: "w \<le> 8" for w tag
  proof -
    have "\<exists>bf2. buffer_require env (bf\<lparr>bytes := (bytes bf)(sp - 1 := tag)\<rparr>) (2 * w - 2) = Inr bf2"
      using a b w by (intro buffer_require_ok) auto
    then obtain bf2 where
      "buffer_require env (bf\<lparr>bytes := (bytes bf)(sp - 1 := tag)\<rparr>) (2 * w - 2) = Inr bf2" ..
    then show ?thesis by (simp add: widen_header_def Let_def)
  qed
  then show ?thesis by (simp add: table_sizes_def)
qed

lemma encode_bool_array_ok:
  assumes "\<forall>c. alloc_ok env c" "lua_checkstack env stk 2" "etab br t = None"
    "ecnt br \<noteq> LUA_MAXINTEGER" "entries h t = arr_from 0 (map VBool bs)"
    "pos bf + 17 + 10 * length bs \<le> MEMCACHED_BUFFER_MAX"
  shows "\<exists>bf' br'. encode env h stk bf br (VTable t) = Inr (bf', br')"
proof -
  have e: "(1::nat) + 2 = 3" by simp
  from assms(1,6) obtain bf1 where r: "buffer_require env bf 3 = Inr bf1"
    using buffer_require_ok[of env bf 3] by auto
  note q = buffer_require_Inr[OF r]
  let ?b = "(put bf1 MEMCACHED_TYPE_TABLE8)\<lparr>pos := pos bf1 + 3\<rparr>"
  let ?br = "br\<lparr>ecnt := ecnt br + 1, etab := (etab br)(t \<mapsto> ecnt br + 1)\<rparr>"
  have l: "0 + length bs \<le> INT64_MAX"
    using assms(6) by (simp add: MEMCACHED_BUFFER_MAX_def INT64_MAX_def)
  have "pos ?b + 10 * length bs \<le> MEMCACHED_BUFFER_MAX" using assms(6) q by simp
  from encode_pairs_bools_ok[OF assms(1) this l, of h stk ?br] obtain bf4 where
    p: "encode_pairs env h stk ?b ?br 0 0 (arr_from 0 (map VBool bs))
          = Inr (bf4, ?br, 0 + length bs, 0)" "pos bf4 = pos ?b + 10 * length bs"
    by blast
  have "pos bf4 + 14 \<le> MEMCACHED_BUFFER_MAX" using p(2) q assms(6) by simp
  from table_sizes_ok[OF assms(1) this] obtain bf5 where
    "table_sizes env bf4 (pos bf1 + 1) (0 + length bs) 0 = Inr bf5" by blast
  with p(1) r assms(2,3,4,5) show ?thesis
    unfolding encode.simps e by simp
qed

definition bool_array :: "nat \<Rightarrow> ltable" where
  "bool_array n = arr_from 0 (map VBool (replicate n True))"

text \<open>
  Claim C5. When \<open>encode\<close> returns for a table that it has not met before, the byte at the
  position where it started is the tag of the smallest size class (1, 2, 4 or 8 bytes: tags
  5, 21, 37, 53) that holds both the array count and the record count of the loop over the
  entries; the two counts follow the tag, big-endian, in that width; and the pairs, which were
  written three bytes after the start when the width was not known yet, now stand after the
  widened header, unchanged. For a table whose entries are the keys \<open>1, \<dots>, n\<close> with supported
  values the array count is \<open>n\<close>, so that the tag is 5 up to \<open>n = 2\<^sup>8 - 1\<close>, 21 from \<open>2\<^sup>8\<close>,
  37 from \<open>2\<^sup>1\<^sup>6\<close> and 53 from \<open>2\<^sup>3\<^sup>2\<close>; for a table of \<open>n\<close> supported entries whose first key is
  not 1 the record count is \<open>n\<close>, with the same thresholds.
\<close>

theorem table_header_size_class:
  "(encode env h stk bf br (VTable t) = Inr (bf', br') \<and> etab br t = None \<longrightarrow>
      (\<exists>bf1 bf4 narr nrec.
          buffer_require env bf 3 = Inr bf1
        \<and> encode_pairs env h stk ((put bf1 MEMCACHED_TYPE_TABLE8)\<lparr>pos := pos bf + 3\<rparr>)
             (br\<lparr>ecnt := ecnt br + 1, etab := (etab br)(t \<mapsto> ecnt br + 1)\<rparr>) 0 0 (entries h t)
           = Inr (bf4, br', narr, nrec)
        \<and> counts env 0 0 (entries h t) = (narr, nrec)
        \<and> bytes bf' (pos bf) = table_tag (size_class narr nrec)
        \<and> read_bytes (bytes bf') (pos bf + 1) (size_class narr nrec)
            = be_bytes (size_class narr nrec) narr
        \<and> read_bytes (bytes bf') (pos bf + 1 + size_class narr nrec) (size_class narr nrec)
            = be_bytes (size_class narr nrec) nrec
        \<and> pos bf' = pos bf4 + (2 * size_class narr nrec - 2)
        \<and> read_bytes (bytes bf') (pos bf + 1 + 2 * size_class narr nrec) (pos bf4 - (pos bf + 3))
            = read_bytes (bytes bf4) (pos bf + 3) (pos bf4 - (pos bf + 3))))
   \<and> (encode env h stk bf br (VTable t) = Inr (bf', br') \<and> etab br t = None
        \<and> entries h t = arr_from 0 vs \<and> (\<forall>v\<in>set vs. supported v) \<and> length vs \<le> INT64_MAX \<longrightarrow>
        counts env 0 0 (entries h t) = (length vs, 0)
        \<and> bytes bf' (pos bf) =
            (if length vs \<le> 2 ^ 8 - 1 then 5 else if length vs \<le> 2 ^ 16 - 1 then 21
             else if length vs \<le> 2 ^ 32 - 1 then 37 else 53))
   \<and> (encode env h stk bf br (VTable t) = Inr (bf', br') \<and> etab br t = None
        \<and> entries h t \<noteq> [] \<and> (\<forall>kv\<in>set (entries h t). supported (fst kv) \<and> supported (snd kv))
        \<and> sint (lua_tointeger env (fst (hd (entries h t)))) \<noteq> 1 \<longrightarrow>
        counts env 0 0 (entries h t) = (0, length (entries h t))
        \<and> bytes bf' (pos bf) =
            (if length (entries h t) \<le> 2 ^ 8 - 1 then 5
             else if length (entries h t) \<le> 2 ^ 16 - 1 then 21
             else if length (entries h t) \<le> 2 ^ 32 - 1 then 37 else 53))"
proof -
  have main: "\<exists>bf1 bf4 narr nrec.
          buffer_require env bf 3 = Inr bf1
        \<and> encode_pairs env h stk ((put bf1 MEMCACHED_TYPE_TABLE8)\<lparr>pos := pos bf + 3\<rparr>)
             (br\<lparr>ecnt := ecnt br + 1, etab := (etab br)(t \<mapsto> ecnt br + 1)\<rparr>) 0 0 (entries h t)
           = Inr (bf4, br', narr, nrec)
        \<and> counts env 0 0 (entries h t) = (narr, nrec)
        \<and> bytes bf' (pos bf) = table_tag (size_class narr nrec)
        \<and> read_bytes (bytes bf') (pos bf + 1) (size_class narr nrec)
            = be_bytes (size_class narr nrec) narr
        \<and> read_bytes (bytes bf') (pos bf + 1 + size_class narr nrec) (size_class narr nrec)
            = be_bytes (size_class narr nrec) nrec
        \<and> pos bf' = pos bf4 + (2 * size_class narr nrec - 2)
        \<and> read_bytes (bytes bf') (pos bf + 1 + 2 * size_class narr nrec) (pos bf4 - (pos bf + 3))
            = read_bytes (bytes bf4) (pos bf + 3) (pos bf4 - (pos bf + 3))"
    if e: "encode env h stk bf br (VTable t) = Inr (bf', br')" and n: "etab br t = None"
  proof -
    from e n obtain bf1 bf4 narr nrec where
      r: "buffer_require env bf 3 = Inr bf1" and
      p: "encode_pairs env h stk ((put bf1 MEMCACHED_TYPE_TABLE8)\<lparr>pos := pos bf + 3\<rparr>)
            (br\<lparr>ecnt := ecnt br + 1, etab := (etab br)(t \<mapsto> ecnt br + 1)\<rparr>) 0 0 (entries h t)
          = Inr (bf4, br', narr, nrec)" and
      ts: "table_sizes env bf4 (pos bf + 1) narr nrec = Inr bf'"
      by (rule encode_table_Inr)
    note q = buffer_require_Inr[OF r]
    let ?b = "(put bf1 MEMCACHED_TYPE_TABLE8)\<lparr>pos := pos bf + 3\<rparr>"
    have bi: "binv ?b" using q by (simp add: binv_def)
    note f = encode_frame(2)[OF p bi]
    have tag: "bytes bf4 (pos bf + 1 - 1) = MEMCACHED_TYPE_TABLE8" using f q by simp
    have sp: "1 \<le> pos bf + 1" "pos bf + 1 + 2 \<le> pos bf4" using f by simp_all
    note th = table_sizes_header[OF ts sp tag]
    have l: "pos bf4 - (pos bf + 1) - 2 = pos bf4 - (pos bf + 3)" by simp
    from th(1) have 1: "bytes bf' (pos bf) = table_tag (size_class narr nrec)" by simp
    have e3: "pos bf + 1 + 2 = pos bf + 3" by simp
    have 5: "read_bytes (bytes bf') (pos bf + 1 + 2 * size_class narr nrec)
           (pos bf4 - (pos bf + 3)) = read_bytes (bytes bf4) (pos bf + 3) (pos bf4 - (pos bf + 3))"
      by (rule th(5)[unfolded l e3])
    from r p encode_pairs_counts[OF p] 1 th(2,3,4) 5 show ?thesis by blast
  qed
  have tagn: "table_tag (size_class a b) =
      (if a \<le> 2 ^ 8 - 1 \<and> b \<le> 2 ^ 8 - 1 then 5 else if a \<le> 2 ^ 16 - 1 \<and> b \<le> 2 ^ 16 - 1 then 21
       else if a \<le> 2 ^ 32 - 1 \<and> b \<le> 2 ^ 32 - 1 then 37 else 53)" for a b
    by (auto simp: table_tag_def size_class_def)
  show ?thesis
  proof (intro conjI impI)
    assume "encode env h stk bf br (VTable t) = Inr (bf', br') \<and> etab br t = None"
    then show "\<exists>bf1 bf4 narr nrec.
          buffer_require env bf 3 = Inr bf1
        \<and> encode_pairs env h stk ((put bf1 MEMCACHED_TYPE_TABLE8)\<lparr>pos := pos bf + 3\<rparr>)
             (br\<lparr>ecnt := ecnt br + 1, etab := (etab br)(t \<mapsto> ecnt br + 1)\<rparr>) 0 0 (entries h t)
           = Inr (bf4, br', narr, nrec)
        \<and> counts env 0 0 (entries h t) = (narr, nrec)
        \<and> bytes bf' (pos bf) = table_tag (size_class narr nrec)
        \<and> read_bytes (bytes bf') (pos bf + 1) (size_class narr nrec)
            = be_bytes (size_class narr nrec) narr
        \<and> read_bytes (bytes bf') (pos bf + 1 + size_class narr nrec) (size_class narr nrec)
            = be_bytes (size_class narr nrec) nrec
        \<and> pos bf' = pos bf4 + (2 * size_class narr nrec - 2)
        \<and> read_bytes (bytes bf') (pos bf + 1 + 2 * size_class narr nrec) (pos bf4 - (pos bf + 3))
            = read_bytes (bytes bf4) (pos bf + 3) (pos bf4 - (pos bf + 3))"
      using main by blast
  next
    assume a: "encode env h stk bf br (VTable t) = Inr (bf', br') \<and> etab br t = None
        \<and> entries h t = arr_from 0 vs \<and> (\<forall>v\<in>set vs. supported v) \<and> length vs \<le> INT64_MAX"
    then have c: "counts env 0 0 (entries h t) = (length vs, 0)"
      using counts_arr_from[of vs 0 env] by simp
    then show "counts env 0 0 (entries h t) = (length vs, 0)" .
    from main a c have "bytes bf' (pos bf) = table_tag (size_class (length vs) 0)" by fastforce
    then show "bytes bf' (pos bf) =
            (if length vs \<le> 2 ^ 8 - 1 then 5 else if length vs \<le> 2 ^ 16 - 1 then 21
             else if length vs \<le> 2 ^ 32 - 1 then 37 else 53)"
      by (simp add: tagn)
  next
    assume a: "encode env h stk bf br (VTable t) = Inr (bf', br') \<and> etab br t = None
        \<and> entries h t \<noteq> [] \<and> (\<forall>kv\<in>set (entries h t). supported (fst kv) \<and> supported (snd kv))
        \<and> sint (lua_tointeger env (fst (hd (entries h t)))) \<noteq> 1"
    then have c: "counts env 0 0 (entries h t) = (0, length (entries h t))"
      using counts_records[of "entries h t" env] by simp
    then show "counts env 0 0 (entries h t) = (0, length (entries h t))" .
    from main a c have "bytes bf' (pos bf) = table_tag (size_class 0 (length (entries h t)))"
      by fastforce
    then show "bytes bf' (pos bf) =
            (if length (entries h t) \<le> 2 ^ 8 - 1 then 5
             else if length (entries h t) \<le> 2 ^ 16 - 1 then 21
             else if length (entries h t) \<le> 2 ^ 32 - 1 then 37 else 53)"
      by (simp add: tagn)
  qed
qed


theorem table_header_size_class_witness:
  "(\<exists>bf' br'. encode env_ok [bool_array 255] 3 buffer0 \<lparr>etab = Map.empty, ecnt = 0\<rparr> (VTable 0)
        = Inr (bf', br')
      \<and> bytes bf' 0 = 5 \<and> read_bytes (bytes bf') 1 1 = [255] \<and> read_bytes (bytes bf') 2 1 = [0])
   \<and> (\<exists>bf' br'. encode env_ok [bool_array 256] 3 buffer0 \<lparr>etab = Map.empty, ecnt = 0\<rparr> (VTable 0)
        = Inr (bf', br')
      \<and> bytes bf' 0 = 21 \<and> read_bytes (bytes bf') 1 2 = [1, 0]
      \<and> read_bytes (bytes bf') 3 2 = [0, 0])
   \<and> (\<exists>bf' br'. encode env_ok [bool_array 65536] 3 buffer0 \<lparr>etab = Map.empty, ecnt = 0\<rparr> (VTable 0)
        = Inr (bf', br')
      \<and> bytes bf' 0 = 37 \<and> read_bytes (bytes bf') 1 4 = [0, 1, 0, 0]
      \<and> read_bytes (bytes bf') 5 4 = [0, 0, 0, 0])"
proof -
  let ?br = "\<lparr>etab = Map.empty, ecnt = 0\<rparr>"
  have g: "\<exists>bf' br'. encode env_ok [bool_array n] 3 buffer0 ?br (VTable 0) = Inr (bf', br')
      \<and> bytes bf' 0 = table_tag (size_class n 0)
      \<and> read_bytes (bytes bf') 1 (size_class n 0) = be_bytes (size_class n 0) n
      \<and> read_bytes (bytes bf') (1 + size_class n 0) (size_class n 0) = be_bytes (size_class n 0) 0"
    if n: "n \<le> 100000" for n
  proof -
    let ?vs = "map VBool (replicate n True)"
    have en: "entries [bool_array n] 0 = arr_from 0 ?vs" by (simp add: entries_def bool_array_def)
    have "\<exists>bf' br'. encode env_ok [bool_array n] 3 buffer0 ?br (VTable 0) = Inr (bf', br')"
    proof (rule encode_bool_array_ok[where bs = "replicate n True"])
      show "\<forall>c. alloc_ok env_ok c" by (simp add: env_ok_def)
      show "lua_checkstack env_ok 3 2" by (simp add: env_ok_def lua_checkstack_def)
      show "etab ?br 0 = None" by simp
      show "ecnt ?br \<noteq> LUA_MAXINTEGER" by (simp add: LUA_MAXINTEGER_def)
      show "entries [bool_array n] 0 = arr_from 0 ?vs" by (rule en)
      show "pos buffer0 + 17 + 10 * length (replicate n True) \<le> MEMCACHED_BUFFER_MAX"
        using n by (simp add: buffer0_def MEMCACHED_BUFFER_MAX_def)
    qed
    then obtain bf' br' where
      e: "encode env_ok [bool_array n] 3 buffer0 ?br (VTable 0) = Inr (bf', br')" by blast
    have c: "counts env_ok 0 0 (entries [bool_array n] 0) = (n, 0)"
      using n counts_arr_from[of ?vs 0 env_ok] by (auto simp: en INT64_MAX_def)
    from table_header_size_class[of env_ok "[bool_array n]" 3 buffer0 ?br 0 bf' br' ?vs] e c
    have "bytes bf' (pos buffer0) = table_tag (size_class n 0)
      \<and> read_bytes (bytes bf') (pos buffer0 + 1) (size_class n 0) = be_bytes (size_class n 0) n
      \<and> read_bytes (bytes bf') (pos buffer0 + 1 + size_class n 0) (size_class n 0)
          = be_bytes (size_class n 0) 0"
      by auto
    with e show ?thesis by (auto simp: buffer0_def)
  qed
  have s1: "size_class 255 0 = 1" "size_class 256 0 = 2" "size_class 65536 0 = 4"
    by (simp_all add: size_class_def)
  have ar: "1 + 1 = (2::nat)" "1 + 2 = (3::nat)" "1 + 4 = (5::nat)" by simp_all
  from g[of 255, unfolded s1 ar] have 1: "\<exists>bf' br'. encode env_ok [bool_array 255] 3 buffer0 ?br (VTable 0)
        = Inr (bf', br')
      \<and> bytes bf' 0 = 5 \<and> read_bytes (bytes bf') 1 1 = [255] \<and> read_bytes (bytes bf') 2 1 = [0]"
    by (simp add: table_tag_def)
  from g[of 256, unfolded s1 ar] have 2: "\<exists>bf' br'. encode env_ok [bool_array 256] 3 buffer0 ?br (VTable 0)
        = Inr (bf', br')
      \<and> bytes bf' 0 = 21 \<and> read_bytes (bytes bf') 1 2 = [1, 0]
      \<and> read_bytes (bytes bf') 3 2 = [0, 0]"
    by (simp add: table_tag_def be_bytes_2)
  from g[of 65536, unfolded s1 ar] have 3: "\<exists>bf' br'. encode env_ok [bool_array 65536] 3 buffer0 ?br (VTable 0)
        = Inr (bf', br')
      \<and> bytes bf' 0 = 37 \<and> read_bytes (bytes bf') 1 4 = [0, 1, 0, 0]
      \<and> read_bytes (bytes bf') 5 4 = [0, 0, 0, 0]"
    by (simp add: table_tag_def be_bytes_4)
  from 1 2 3 show ?thesis by blast
qed

section \<open>The closed client\<close>

text \<open>
  \<open>client_lost\<close> is the client \<open>client0\<close> opened with \<^verbatim>\<open>reconnect = false\<close> after it has
  lost its connection: \<^verbatim>\<open>checkresult\<close> has closed it, and it still holds its encode and
  decode functions (\<open>get_loses_connection\<close>).
\<close>

definition client_lost :: memcached where
  "client_lost = client0\<lparr>reconnect := False, closed := True\<rparr>"

lemma get_loses_connection:
  "get env_ok net_up [] (client0\<lparr>reconnect := False, fd := 3\<rparr>) [0x6B]
     = (Inl SocketClosed,
        net_up\<lparr>sent := request_header PROTOCOL_BINARY_CMD_GET 1 0 1 0 @ [0x6B]\<rparr>, [],
        client_lost)"
proof -
  have t: "transmit net_up (client0\<lparr>reconnect := False, fd := 3\<rparr>)
             [request_header PROTOCOL_BINARY_CMD_GET 1 0 1 0, [0x6B]]
           = (Inr (length (request_header PROTOCOL_BINARY_CMD_GET 1 0 1 0 @ [0x6B])),
              net_up\<lparr>sent := request_header PROTOCOL_BINARY_CMD_GET 1 0 1 0 @ [0x6B]\<rparr>,
              client0\<lparr>reconnect := False, fd := 3\<rparr>)"
    using transmit_connected[of "client0\<lparr>reconnect := False, fd := 3\<rparr>" net_up
            "[request_header PROTOCOL_BINARY_CMD_GET 1 0 1 0, [0x6B]]"]
    by (simp add: client0_eq net_up_def)
  show ?thesis
    using t
    by (simp add: get_def bad_key_def UINT16_MAX_def MEMCACHED_REQUEST_GET_EXTRAS_def
          recvresponse_def recvnosig_closed_form MEMCACHED_REQUEST_BASE_def net_up_def
          client_lost_def client0_eq)
qed




section \<open>An empty key with a value ends the statistics\<close>

text \<open>
  Claim C2. A frame of the statistics stream with an empty key and a value that is not
  empty is to be reported as a protocol error. \<open>stats\<close> does not do so: answered with the
  SUCCESS frame \<open>frame_bad\<close> (key length 0, value \<^verbatim>\<open>42\<close>), followed by a regular entry and the
  terminating frame, it returns the empty mapping as a normal result and leaves the two
  frames that follow unread. With the key and value flags \<open>recvresponse\<close> always pushes the
  value, so that its result is 1 exactly when the key is empty, and the branch for 1 pops
  that value without a look at it.
\<close>

theorem stats_empty_key_value_frame:
  "f_status frame_bad = PROTOCOL_BINARY_RESPONSE_SUCCESS
   \<and> f_key frame_bad = [] \<and> f_value frame_bad = [0x34, 0x32]
   \<and> stats env_ok
        (net_up\<lparr>incoming := response_frame frame_bad @ response_frame frame_pid
                              @ response_frame frame_end\<rparr>)
        client_up None
      = (Inr Map.empty,
         net_up\<lparr>sent := request_header PROTOCOL_BINARY_CMD_STAT 0 0 0 0,
                 incoming := response_frame frame_pid @ response_frame frame_end\<rparr>,
         client_up)"
proof -
  let ?rest = "response_frame frame_pid @ response_frame frame_end"
  let ?n = "net_up\<lparr>incoming := response_frame frame_bad @ ?rest\<rparr>"
  let ?rq = "request_header PROTOCOL_BINARY_CMD_STAT 0 0 0 0"
  have w: "wf_frame frame_bad" by (simp add: wf_frame_def frame_bad_def)
  have "length ?rq = 24" by (rule request_header_fields(1))
  then have rq0: "?rq \<noteq> []" by auto
  then have rq: "concat [?rq] \<noteq> []" by simp
  have t: "transmit ?n client_up [?rq] = (Inr (length (concat [?rq])), ?n\<lparr>sent := sent ?n @ concat [?rq]\<rparr>, client_up)"
    by (rule transmit_connected) (simp_all add: client_up_def client0_eq net_up_def rq0)
  have l: "stats_loop env_ok (?n\<lparr>sent := sent ?n @ concat [?rq]\<rparr>) client_up Map.empty
           = (Inr Map.empty, ?n\<lparr>sent := sent ?n @ concat [?rq]\<rparr>\<lparr>incoming := ?rest\<rparr>, client_up)"
    using stats_loop_frames[OF w, of "?n\<lparr>sent := sent ?n @ concat [?rq]\<rparr>" ?rest env_ok
            client_up Map.empty]
    by (simp add: frame_bad_def PROTOCOL_BINARY_RESPONSE_SUCCESS_def)
  have "stats env_ok ?n client_up None
        = (Inr Map.empty, ?n\<lparr>sent := sent ?n @ concat [?rq]\<rparr>\<lparr>incoming := ?rest\<rparr>, client_up)"
    using t l by (simp add: stats_def MEMCACHED_REQUEST_STATS_EXTRAS_def)
  then show ?thesis
    by (simp add: net_up_def frame_bad_def PROTOCOL_BINARY_RESPONSE_SUCCESS_def)
qed

section \<open>The position runs ahead of the length while a value is encoded\<close>

text \<open>
  Claim C3. The buffer is to satisfy \<open>pos \<le> len \<le> capacity\<close> at every step, with \<open>len\<close>
  following \<open>pos\<close> while a value is encoded (\<^verbatim>\<open>memcached.h\<close> describes \<^verbatim>\<open>pos\<close> as
  \<^verbatim>\<open>(<= len)\<close>). The encoder does not keep that: for the value \<^verbatim>\<open>true\<close>, \<open>mencode\<close> calls
  \<open>encode\<close> on the buffer that holds the four bytes of the version tag, and when \<open>encode\<close>
  has returned the buffer has \<open>pos = 5\<close> and \<open>len = 0\<close>; only then does \<open>mencode\<close> set \<open>len\<close>
  to \<open>pos\<close>, so that the buffer it returns has \<open>pos = len = 5\<close>.
\<close>

theorem encode_pos_exceeds_len:
  "encode env_ok [] 3 (put_bytes buffer0 MEMCACHED_CODEC_VERSION) \<lparr>etab = Map.empty, ecnt = 0\<rparr>
       (VBool True)
     = Inr (buffer_true\<lparr>len := 0\<rparr>, \<lparr>etab = Map.empty, ecnt = 0\<rparr>)
   \<and> pos (buffer_true\<lparr>len := 0\<rparr>) = 5 \<and> len (buffer_true\<lparr>len := 0\<rparr>) = 0
   \<and> mencode env_ok [] (Some (VBool True)) = Inr buffer_true
   \<and> pos buffer_true = 5 \<and> len buffer_true = 5"
  using encode_true mencode_true by (simp add: buffer_true_def)

text \<open>
  The capacity is not held to the ceiling either: \<open>buffer_require\<close> compares \<open>pos + n\<close> with
  it, and the capacity grows by factors.
\<close>

lemma capacity_exceeds_ceiling:
  "buffer_require env_ok buffer0 220000000 = Inr (buffer0\<lparr>capacity := 326886031\<rparr>)
   \<and> MEMCACHED_BUFFER_MAX < capacity (buffer0\<lparr>capacity := 326886031\<rparr>)"
proof -
  have "buffer_require env_ok buffer0 220000000 = Inr (buffer0\<lparr>capacity := 326886031\<rparr>)"
    by (simp add: buffer_require_def buffer0_def env_ok_def MEMCACHED_BUFFER_SIZE_def
          MEMCACHED_BUFFER_MAX_def SIZE_MAX_def grow_capacity.simps)
  then show ?thesis by (simp add: MEMCACHED_BUFFER_MAX_def)
qed

section \<open>Decoding the same bytes in another heap\<close>

text \<open>
  Two runs of the decoder on the same bytes differ in the tables they create: the second run
  starts in a heap that is \<open>d\<close> tables longer, so each of its tables has the index of the
  first run's plus \<open>d\<close>. \<open>shv\<close> shifts a value, \<open>she\<close> the entries of a table, \<open>shd\<close> what
  \<open>decode_switch\<close> returns. \<open>fresh b n v\<close> says that \<open>v\<close>, if it is a table, was created by
  the run that started at heap length \<open>b\<close> and has reached \<open>n\<close>.
\<close>

definition shv :: "nat \<Rightarrow> lvalue \<Rightarrow> lvalue" where
  "shv d v = (case v of VTable t \<Rightarrow> VTable (t + d) | _ \<Rightarrow> v)"

definition she :: "nat \<Rightarrow> ltable \<Rightarrow> ltable" where
  "she d es = map (map_prod (shv d) (shv d)) es"

fun shd :: "nat \<Rightarrow> dhead \<Rightarrow> dhead" where
  "shd d (HValue v) = HValue (shv d v)"
| "shd d (HTable narr nrec) = HTable narr nrec"

definition fresh :: "nat \<Rightarrow> nat \<Rightarrow> lvalue \<Rightarrow> bool" where
  "fresh b n v = (case v of VTable t \<Rightarrow> b \<le> t \<and> t < n | _ \<Rightarrow> True)"

definition srel :: "nat \<Rightarrow> nat \<Rightarrow> dstate \<Rightarrow> dstate \<Rightarrow> bool" where
  "srel d b sA sB =
     (d_buf sB = d_buf sA
      \<and> dcnt (d_br sB) = dcnt (d_br sA)
      \<and> (\<forall>n. dtab (d_br sB) n = map_option (\<lambda>t. t + d) (dtab (d_br sA) n))
      \<and> length (d_heap sB) = length (d_heap sA) + d
      \<and> b \<le> length (d_heap sA)
      \<and> (\<forall>i. b \<le> i \<and> i < length (d_heap sA) \<longrightarrow> d_heap sB ! (i + d) = she d (d_heap sA ! i))
      \<and> (\<forall>n t. dtab (d_br sA) n = Some t \<longrightarrow> b \<le> t \<and> t < length (d_heap sA))
      \<and> (\<forall>i. b \<le> i \<and> i < length (d_heap sA) \<longrightarrow>
            (\<forall>p\<in>set (d_heap sA ! i). fresh b (length (d_heap sA)) (fst p)
                                    \<and> fresh b (length (d_heap sA)) (snd p))))"

lemma shv_simps [simp]:
  "shv d (VTable t) = VTable (t + d)" "shv d VNil = VNil" "shv d (VBool x) = VBool x"
  "shv d (VInt i) = VInt i" "shv d (VFloat w) = VFloat w" "shv d (VStr s) = VStr s"
  "shv d (VOther z) = VOther z"
  by (simp_all add: shv_def)

lemma shv_inj [simp]: "shv d x = shv d y \<longleftrightarrow> x = y"
  by (cases x; cases y) simp_all

lemma shv_nil [simp]: "shv d v = VNil \<longleftrightarrow> v = VNil"
  by (cases v) simp_all

lemma fresh_simps [simp]:
  "fresh b n (VTable t) = (b \<le> t \<and> t < n)" "fresh b n VNil" "fresh b n (VBool x)"
  "fresh b n (VInt i)" "fresh b n (VFloat w)" "fresh b n (VStr s)" "fresh b n (VOther z)"
  by (simp_all add: fresh_def)

lemma fresh_mono: "fresh b n v \<Longrightarrow> n \<le> n' \<Longrightarrow> fresh b n' v"
  by (cases v) simp_all

lemma tset_map:
  "tset (map (map_prod (shv d) g) es) (shv d k) (g v) = map (map_prod (shv d) g) (tset es k v)"
  by (induction es) auto

lemma filter_map_shv:
  "filter (\<lambda>p. fst p \<noteq> shv d k) (map (map_prod (shv d) g) es)
     = map (map_prod (shv d) g) (filter (\<lambda>p. fst p \<noteq> k) es)"
  by (induction es) auto

lemma set_tset: "set (tset es k v) \<subseteq> insert (k, v) (set es)"
  by (induction es) auto

lemma normkey_shv: "normkey env (shv d k) = map_sum id (shv d) (normkey env k)"
  by (cases k) (simp_all add: normkey_def split: option.splits)

lemma normkey_fresh: "normkey env k = Inr k' \<Longrightarrow> fresh b n k \<Longrightarrow> fresh b n k'"
  by (cases k) (auto simp: normkey_def split: if_splits option.splits)

lemma read_n_shift:
  "d_buf sB = d_buf sA \<Longrightarrow>
     read_n sB n = (fst (read_n sA n), sB\<lparr>d_buf := d_buf (snd (read_n sA n))\<rparr>)"
  by (simp add: read_n_def split: sum.splits)

lemma read_n_state: "snd (read_n s n) = s\<lparr>d_buf := d_buf (snd (read_n s n))\<rparr>"
  by (simp add: read_n_def split: sum.splits)

lemma decode_case_shift:
  assumes "d_buf sB = d_buf sA"
    and "\<forall>n. dtab (d_br sB) n = map_option (\<lambda>t. t + d) (dtab (d_br sA) n)"
  shows "decode_case env ty sB
           = (map_sum id (shd d) (fst (decode_case env ty sA)),
              sB\<lparr>d_buf := d_buf (snd (decode_case env ty sA))\<rparr>)"
proof -
  have r: "read_n sB n = (fst (read_n sA n), sB\<lparr>d_buf := d_buf (snd (read_n sA n))\<rparr>)" for n
    using assms(1) by (rule read_n_shift)
  have r2: "read_n (sB\<lparr>d_buf := d_buf sA1\<rparr>) n
             = (fst (read_n sA1 n), sB\<lparr>d_buf := d_buf (snd (read_n sA1 n))\<rparr>)" for n sA1
    using read_n_shift[of "sB\<lparr>d_buf := d_buf sA1\<rparr>" sA1 n] by simp
  have br: "d_br (snd (read_n sA n)) = d_br sA" for n
    by (simp add: read_n_def split: sum.splits)
  show ?thesis
  proof (cases ty)
    case T_TABLEREF
    obtain rA sA1 where 1: "read_n sA 8 = (rA, sA1)" by (cases "read_n sA 8")
    have b1: "d_br sA1 = d_br sA" using br[of 8] 1 by simp
    show ?thesis using T_TABLEREF 1 r[of 8] b1 assms(2)
      by (cases rA) (auto split: option.splits)
  next
    case T_STRING
    obtain rA sA1 where 1: "read_n sA 8 = (rA, sA1)" by (cases "read_n sA 8")
    show ?thesis
    proof (cases rA)
      case (Inl e)
      with T_STRING 1 r[of 8] show ?thesis by simp
    next
      case (Inr x)
      obtain r2A sA2 where 2: "read_n sA1 (unat (be64toh x)) = (r2A, sA2)"
        by (cases "read_n sA1 (unat (be64toh x))")
      show ?thesis using T_STRING 1 2 Inr r[of 8] r2[of sA1 "unat (be64toh x)"]
        by (cases r2A) auto
    qed
  next
    case T_STRINGSHORT
    obtain rA sA1 where 1: "read_n sA 1 = (rA, sA1)" by (cases "read_n sA 1")
    show ?thesis
    proof (cases rA)
      case (Inl e)
      with T_STRINGSHORT 1 r[of 1] show ?thesis by simp
    next
      case (Inr x)
      obtain r2A sA2 where 2: "read_n sA1 (unat (hd x)) = (r2A, sA2)"
        by (cases "read_n sA1 (unat (hd x))")
      show ?thesis using T_STRINGSHORT 1 2 Inr r[of 1] r2[of sA1 "unat (hd x)"]
        by (cases r2A) auto
    qed
  next
    case T_BOOLEAN
    then show ?thesis using assms(1)[symmetric] by simp
  next
    case T_BOOLEANTRUE
    then show ?thesis using assms(1)[symmetric] by simp
  next
    case T_NUMBER
    obtain rA sA1 where 1: "read_n sA 8 = (rA, sA1)" by (cases "read_n sA 8")
    show ?thesis using T_NUMBER 1 r[of 8] by (cases rA) auto
  next
    case T_INTEGER
    obtain rA sA1 where 1: "read_n sA 8 = (rA, sA1)" by (cases "read_n sA 8")
    show ?thesis using T_INTEGER 1 r[of 8] by (cases rA) auto
  next
    case T_TABLE8
    obtain rA sA1 where 1: "read_n sA (1 + 1) = (rA, sA1)" by (cases "read_n sA (1 + 1)")
    show ?thesis using T_TABLE8 1 r[of "1 + 1"] by (cases rA) auto
  next
    case T_TABLE16
    obtain rA sA1 where 1: "read_n sA (2 + 2) = (rA, sA1)" by (cases "read_n sA (2 + 2)")
    show ?thesis using T_TABLE16 1 r[of "2 + 2"] by (cases rA) auto
  next
    case T_TABLE32
    obtain rA sA1 where 1: "read_n sA (4 + 4) = (rA, sA1)" by (cases "read_n sA (4 + 4)")
    show ?thesis using T_TABLE32 1 r[of "4 + 4"] by (cases rA) auto
  next
    case T_TABLE64
    obtain rA sA1 where 1: "read_n sA (8 + 8) = (rA, sA1)" by (cases "read_n sA (8 + 8)")
    show ?thesis using T_TABLE64 1 r[of "8 + 8"] by (cases rA) auto
  qed
qed

lemma decode_switch_shift:
  assumes "d_buf sB = d_buf sA"
    and "\<forall>n. dtab (d_br sB) n = map_option (\<lambda>t. t + d) (dtab (d_br sA) n)"
  shows "decode_switch env sB
           = (map_sum id (shd d) (fst (decode_switch env sA)),
              sB\<lparr>d_buf := d_buf (snd (decode_switch env sA))\<rparr>)"
proof -
  obtain rA sA1 where 1: "read_n sA 1 = (rA, sA1)" by (cases "read_n sA 1")
  have rB: "read_n sB 1 = (rA, sB\<lparr>d_buf := d_buf sA1\<rparr>)"
    using read_n_shift[OF assms(1), of 1] 1 by simp
  have b1: "d_br sA1 = d_br sA" using 1 by (auto simp: read_n_def split: sum.splits)
  show ?thesis
  proof (cases rA)
    case (Inl e)
    with 1 rB show ?thesis by (simp add: decode_switch_def)
  next
    case (Inr tag)
    show ?thesis
    proof (cases "wire_type (hd tag)")
      case None
      with 1 rB Inr show ?thesis by (simp add: decode_switch_def)
    next
      case (Some ty)
      have "decode_case env ty (sB\<lparr>d_buf := d_buf sA1\<rparr>)
              = (map_sum id (shd d) (fst (decode_case env ty sA1)),
                 sB\<lparr>d_buf := d_buf sA1\<rparr>\<lparr>d_buf := d_buf (snd (decode_case env ty sA1))\<rparr>)"
        using assms(2) b1 by (intro decode_case_shift) simp_all
      with 1 rB Inr Some show ?thesis by (simp add: decode_switch_def)
    qed
  qed
qed

lemma decode_switch_fresh:
  assumes "decode_switch env s = (Inr (HValue v), s')"
    and "\<forall>n t. dtab (d_br s) n = Some t \<longrightarrow> b \<le> t \<and> t < m"
  shows "fresh b m v"
proof -
  from assms(1) obtain tag s1 ty where 1: "read_n s 1 = (Inr tag, s1)"
    and ty: "wire_type (hd tag) = Some ty" and c: "decode_case env ty s1 = (Inr (HValue v), s')"
    by (auto simp: decode_switch_def split: prod.splits sum.splits option.splits)
  from read_n_adv[OF 1] have b1: "d_br s1 = d_br s" by simp
  show ?thesis
  proof (cases ty)
    case T_TABLEREF
    obtain r2 s2 where 2: "read_n s1 8 = (r2, s2)" by (cases "read_n s1 8")
    from read_n_adv[OF 2] have b2: "d_br s2 = d_br s1" by simp
    from c T_TABLEREF 2 b2 b1 assms(2) show ?thesis
      by (auto split: sum.splits option.splits)
  qed (use c in \<open>auto split: prod.splits sum.splits if_splits\<close>)
qed

lemma srel_buf: "srel d b sA sB \<Longrightarrow> srel d b (sA\<lparr>d_buf := x\<rparr>) (sB\<lparr>d_buf := x\<rparr>)"
  by (simp add: srel_def)

lemma srel_switch:
  assumes "srel d b sA sB" and "decode_switch env sA = (r, sA')"
  shows "decode_switch env sB = (map_sum id (shd d) r, sB\<lparr>d_buf := d_buf sA'\<rparr>)"
    "srel d b sA' (sB\<lparr>d_buf := d_buf sA'\<rparr>)" "d_heap sA' = d_heap sA"
proof -
  from assms(1) have 1: "d_buf sB = d_buf sA"
    and 2: "\<forall>n. dtab (d_br sB) n = map_option (\<lambda>t. t + d) (dtab (d_br sA) n)"
    by (simp_all add: srel_def)
  from decode_switch_shift[OF 1 2, of env] assms(2)
  show "decode_switch env sB = (map_sum id (shd d) r, sB\<lparr>d_buf := d_buf sA'\<rparr>)" by simp
  from decode_switch_adv[OF assms(2)] have e: "d_heap sA' = d_heap sA" "d_br sA' = d_br sA"
    by simp_all
  then have "sA' = sA\<lparr>d_buf := d_buf sA'\<rparr>" by simp
  then show "srel d b sA' (sB\<lparr>d_buf := d_buf sA'\<rparr>)"
    using srel_buf[OF assms(1), of "d_buf sA'"] by simp
  show "d_heap sA' = d_heap sA" by (rule e(1))
qed

definition newtable :: "dstate \<Rightarrow> dstate" where
  "newtable s = s\<lparr>d_heap := d_heap s @ [[]],
                  d_br := (d_br s)\<lparr>dcnt := dcnt (d_br s) + 1,
                                   dtab := (dtab (d_br s))(dcnt (d_br s) + 1 \<mapsto> length (d_heap s))\<rparr>\<rparr>"

lemma srel_newtable:
  assumes "srel d b sA sB"
  shows "srel d b (newtable sA) (newtable sB)"
proof -
  note s = assms[unfolded srel_def]
  have l: "length (d_heap sB) = length (d_heap sA) + d" using s by simp
  have 6: "d_heap (newtable sB) ! (i + d) = she d (d_heap (newtable sA) ! i)"
    if "b \<le> i \<and> i < length (d_heap (newtable sA))" for i
  proof (cases "i < length (d_heap sA)")
    case True
    then show ?thesis using s that by (simp add: newtable_def nth_append)
  next
    case False
    with that have "i = length (d_heap sA)" by (simp add: newtable_def)
    then show ?thesis using l by (simp add: newtable_def nth_append she_def)
  qed
  have 8: "\<forall>p\<in>set (d_heap (newtable sA) ! i). fresh b (length (d_heap (newtable sA))) (fst p)
                                    \<and> fresh b (length (d_heap (newtable sA))) (snd p)"
    if "b \<le> i \<and> i < length (d_heap (newtable sA))" for i
  proof (cases "i < length (d_heap sA)")
    case True
    with s that have "\<forall>p\<in>set (d_heap sA ! i). fresh b (length (d_heap sA)) (fst p)
                                    \<and> fresh b (length (d_heap sA)) (snd p)" by blast
    then show ?thesis using True
      by (auto simp: newtable_def nth_append intro: fresh_mono)
  next
    case False
    with that have "i = length (d_heap sA)" by (simp add: newtable_def)
    then show ?thesis by (simp add: newtable_def nth_append)
  qed
  have 7: "\<forall>n t. dtab (d_br (newtable sA)) n = Some t \<longrightarrow>
             b \<le> t \<and> t < length (d_heap (newtable sA))"
    using s by (auto simp: newtable_def less_Suc_eq)
  have 3: "\<forall>n. dtab (d_br (newtable sB)) n = map_option (\<lambda>t. t + d) (dtab (d_br (newtable sA)) n)"
    using s by (simp add: newtable_def)
  show ?thesis
    unfolding srel_def
  proof (intro conjI)
    show "d_buf (newtable sB) = d_buf (newtable sA)" using s by (simp add: newtable_def)
    show "dcnt (d_br (newtable sB)) = dcnt (d_br (newtable sA))" using s by (simp add: newtable_def)
    show "\<forall>n. dtab (d_br (newtable sB)) n = map_option (\<lambda>t. t + d) (dtab (d_br (newtable sA)) n)"
      by (rule 3)
    show "length (d_heap (newtable sB)) = length (d_heap (newtable sA)) + d"
      using l by (simp add: newtable_def)
    show "b \<le> length (d_heap (newtable sA))" using s by (simp add: newtable_def)
    show "\<forall>i. b \<le> i \<and> i < length (d_heap (newtable sA)) \<longrightarrow>
             d_heap (newtable sB) ! (i + d) = she d (d_heap (newtable sA) ! i)"
      using 6 by blast
    show "\<forall>n t. dtab (d_br (newtable sA)) n = Some t \<longrightarrow>
             b \<le> t \<and> t < length (d_heap (newtable sA))" by (rule 7)
    show "\<forall>i. b \<le> i \<and> i < length (d_heap (newtable sA)) \<longrightarrow>
            (\<forall>p\<in>set (d_heap (newtable sA) ! i). fresh b (length (d_heap (newtable sA))) (fst p)
                                    \<and> fresh b (length (d_heap (newtable sA))) (snd p))"
      using 8 by blast
  qed
qed

lemma srel_rawset:
  assumes "srel d b sA sB" and "b \<le> t" and "t < length (d_heap sA)"
    and "fresh b (length (d_heap sA)) k" and "fresh b (length (d_heap sA)) v"
  shows "lua_rawset env (d_heap sA) t k v = Inl e \<Longrightarrow>
           lua_rawset env (d_heap sB) (t + d) (shv d k) (shv d v) = Inl e"
    "lua_rawset env (d_heap sA) t k v = Inr hA \<Longrightarrow>
       \<exists>hB. lua_rawset env (d_heap sB) (t + d) (shv d k) (shv d v) = Inr hB
           \<and> srel d b (sA\<lparr>d_heap := hA\<rparr>) (sB\<lparr>d_heap := hB\<rparr>) \<and> length hA = length (d_heap sA)"
proof -
  note s = assms(1)[unfolded srel_def]
  have l: "length (d_heap sB) = length (d_heap sA) + d" using s by simp
  have eB: "entries (d_heap sB) (t + d) = she d (entries (d_heap sA) t)"
    using s assms(2,3) l by (simp add: entries_def)
  show "lua_rawset env (d_heap sA) t k v = Inl e \<Longrightarrow>
           lua_rawset env (d_heap sB) (t + d) (shv d k) (shv d v) = Inl e"
    by (cases "normkey env k") (auto simp: lua_rawset_def normkey_shv)
  assume a: "lua_rawset env (d_heap sA) t k v = Inr hA"
  then obtain k' where nk: "normkey env k = Inr k'"
    by (cases "normkey env k") (auto simp: lua_rawset_def)
  let ?new = "if v = VNil then filter (\<lambda>p. fst p \<noteq> k') (entries (d_heap sA) t)
              else tset (entries (d_heap sA) t) k' v"
  from a nk have hA: "hA = (d_heap sA)[t := ?new]" by (simp add: lua_rawset_def)
  let ?hB = "(d_heap sB)[t + d := she d ?new]"
  have rB: "lua_rawset env (d_heap sB) (t + d) (shv d k) (shv d v) = Inr ?hB"
    using nk eB by (simp add: lua_rawset_def normkey_shv she_def tset_map filter_map_shv)
  have fk: "fresh b (length (d_heap sA)) k'" using normkey_fresh[OF nk assms(4)] .
  have sub: "set ?new \<subseteq> insert (k', v) (set (entries (d_heap sA) t))"
    using set_tset[of "entries (d_heap sA) t" k' v] by auto
  have en: "entries (d_heap sA) t = d_heap sA ! t" using assms(3) by (simp add: entries_def)
  have "srel d b (sA\<lparr>d_heap := hA\<rparr>) (sB\<lparr>d_heap := ?hB\<rparr>)"
    unfolding srel_def
  proof (intro conjI)
    show "d_buf (sB\<lparr>d_heap := ?hB\<rparr>) = d_buf (sA\<lparr>d_heap := hA\<rparr>)" using s by simp
    show "dcnt (d_br (sB\<lparr>d_heap := ?hB\<rparr>)) = dcnt (d_br (sA\<lparr>d_heap := hA\<rparr>))" using s by simp
    show "\<forall>n. dtab (d_br (sB\<lparr>d_heap := ?hB\<rparr>)) n
            = map_option (\<lambda>t. t + d) (dtab (d_br (sA\<lparr>d_heap := hA\<rparr>)) n)" using s by simp
    show "length (d_heap (sB\<lparr>d_heap := ?hB\<rparr>)) = length (d_heap (sA\<lparr>d_heap := hA\<rparr>)) + d"
      using l hA by simp
    show "b \<le> length (d_heap (sA\<lparr>d_heap := hA\<rparr>))" using s hA by simp
    show "\<forall>i. b \<le> i \<and> i < length (d_heap (sA\<lparr>d_heap := hA\<rparr>)) \<longrightarrow>
            d_heap (sB\<lparr>d_heap := ?hB\<rparr>) ! (i + d) = she d (d_heap (sA\<lparr>d_heap := hA\<rparr>) ! i)"
    proof (intro allI impI)
      fix i assume i: "b \<le> i \<and> i < length (d_heap (sA\<lparr>d_heap := hA\<rparr>))"
      show "d_heap (sB\<lparr>d_heap := ?hB\<rparr>) ! (i + d) = she d (d_heap (sA\<lparr>d_heap := hA\<rparr>) ! i)"
      proof (cases "i = t")
        case True
        then show ?thesis using assms(3) l hA by simp
      next
        case False
        then show ?thesis using s i hA by simp
      qed
    qed
    show "\<forall>n t. dtab (d_br (sA\<lparr>d_heap := hA\<rparr>)) n = Some t \<longrightarrow>
            b \<le> t \<and> t < length (d_heap (sA\<lparr>d_heap := hA\<rparr>))" using s hA by simp
    show "\<forall>i. b \<le> i \<and> i < length (d_heap (sA\<lparr>d_heap := hA\<rparr>)) \<longrightarrow>
            (\<forall>p\<in>set (d_heap (sA\<lparr>d_heap := hA\<rparr>) ! i).
                fresh b (length (d_heap (sA\<lparr>d_heap := hA\<rparr>))) (fst p)
              \<and> fresh b (length (d_heap (sA\<lparr>d_heap := hA\<rparr>))) (snd p))"
    proof (intro allI impI ballI)
      fix i p
      assume i: "b \<le> i \<and> i < length (d_heap (sA\<lparr>d_heap := hA\<rparr>))"
        and p: "p \<in> set (d_heap (sA\<lparr>d_heap := hA\<rparr>) ! i)"
      have old: "\<forall>q\<in>set (d_heap sA ! j). fresh b (length (d_heap sA)) (fst q)
                                    \<and> fresh b (length (d_heap sA)) (snd q)"
        if "b \<le> j \<and> j < length (d_heap sA)" for j
        using s that by blast
      have "fresh b (length (d_heap sA)) (fst p) \<and> fresh b (length (d_heap sA)) (snd p)"
      proof (cases "i = t")
        case True
        with p hA assms(3) have "p \<in> set ?new" by simp
        with sub have "p = (k', v) \<or> p \<in> set (d_heap sA ! t)" using en by auto
        then show ?thesis using fk assms(5) old[of t] assms(2,3) by auto
      next
        case False
        with p hA have "p \<in> set (d_heap sA ! i)" by simp
        then show ?thesis using old[of i] i hA by auto
      qed
      then show "fresh b (length (d_heap (sA\<lparr>d_heap := hA\<rparr>))) (fst p)
              \<and> fresh b (length (d_heap (sA\<lparr>d_heap := hA\<rparr>))) (snd p)"
        using hA by simp
    qed
  qed
  with rB hA show "\<exists>hB. lua_rawset env (d_heap sB) (t + d) (shv d k) (shv d v) = Inr hB
           \<and> srel d b (sA\<lparr>d_heap := hA\<rparr>) (sB\<lparr>d_heap := hB\<rparr>) \<and> length hA = length (d_heap sA)"
    by auto
qed

lemma decodetable_newtable:
  "decodetable env stk s narr nrec =
     (if \<not> lua_checkstack env stk 3 then (Inl StackOverflow, s)
      else
        (case decode_pairs env (stk + 1) (length (d_heap s)) (newtable s) narr of
           (Inl e, s2) \<Rightarrow> (Inl e, s2)
         | (Inr _, s2) \<Rightarrow>
             (case decode_pairs env (stk + 1) (length (d_heap s)) s2 nrec of
                (Inl e, s3) \<Rightarrow> (Inl e, s3)
              | (Inr _, s3) \<Rightarrow> (Inr (VTable (length (d_heap s))), s3))))"
  by (subst decodetable.simps) (simp add: newtable_def)

lemma decode_shift:
  "\<forall>sB. srel d b s sB \<longrightarrow>
     (\<exists>sB'. decode env stk sB = (map_sum id (shv d) (fst (decode env stk s)), sB')
           \<and> srel d b (snd (decode env stk s)) sB')
     \<and> (\<forall>v. fst (decode env stk s) = Inr v \<longrightarrow>
            fresh b (length (d_heap (snd (decode env stk s)))) v)
     \<and> length (d_heap s) \<le> length (d_heap (snd (decode env stk s)))"
  "\<forall>sB. srel d b s sB \<longrightarrow>
     (\<exists>sB'. decodetable env stk sB narr nrec
              = (map_sum id (shv d) (fst (decodetable env stk s narr nrec)), sB')
           \<and> srel d b (snd (decodetable env stk s narr nrec)) sB')
     \<and> (\<forall>v. fst (decodetable env stk s narr nrec) = Inr v \<longrightarrow>
            fresh b (length (d_heap (snd (decodetable env stk s narr nrec)))) v)
     \<and> length (d_heap s) \<le> length (d_heap (snd (decodetable env stk s narr nrec)))"
  "\<forall>sB. srel d b s sB \<and> b \<le> t \<and> t < length (d_heap s) \<longrightarrow>
     (\<exists>sB'. decode_pairs env stk (t + d) sB n = (fst (decode_pairs env stk t s n), sB')
           \<and> srel d b (snd (decode_pairs env stk t s n)) sB')
     \<and> length (d_heap s) \<le> length (d_heap (snd (decode_pairs env stk t s n)))"
proof (induction env stk s and env stk s narr nrec and env stk t s n
       rule: decode_decodetable_decode_pairs.induct)
  case (1 env stk s)
  show ?case
  proof (intro allI impI)
    fix sB assume r: "srel d b s sB"
    obtain rs s' where sw: "decode_switch env s = (rs, s')" by (cases "decode_switch env s")
    note sh = srel_switch[OF r sw]
    show "(\<exists>sB'. decode env stk sB = (map_sum id (shv d) (fst (decode env stk s)), sB')
           \<and> srel d b (snd (decode env stk s)) sB')
     \<and> (\<forall>v. fst (decode env stk s) = Inr v \<longrightarrow>
            fresh b (length (d_heap (snd (decode env stk s)))) v)
     \<and> length (d_heap s) \<le> length (d_heap (snd (decode env stk s)))"
    proof (cases rs)
      case (Inl e)
      with sw sh show ?thesis by (simp add: decode.simps)
    next
      case (Inr hd)
      show ?thesis
      proof (cases hd)
        case (HValue v)
        have "\<forall>n t. dtab (d_br s) n = Some t \<longrightarrow> b \<le> t \<and> t < length (d_heap s)"
          using r by (simp add: srel_def)
        from decode_switch_fresh[OF sw[unfolded Inr HValue] this]
        have "fresh b (length (d_heap s)) v" .
        with sw sh Inr HValue show ?thesis by (simp add: decode.simps)
      next
        case (HTable narr nrec)
        from "1.IH"[OF sw[symmetric] Inr HTable] sh(2)
        have ih: "(\<exists>sB'. decodetable env stk (sB\<lparr>d_buf := d_buf s'\<rparr>) narr nrec
              = (map_sum id (shv d) (fst (decodetable env stk s' narr nrec)), sB')
           \<and> srel d b (snd (decodetable env stk s' narr nrec)) sB')
     \<and> (\<forall>v. fst (decodetable env stk s' narr nrec) = Inr v \<longrightarrow>
            fresh b (length (d_heap (snd (decodetable env stk s' narr nrec)))) v)
     \<and> length (d_heap s') \<le> length (d_heap (snd (decodetable env stk s' narr nrec)))"
          by blast
        with sw sh Inr HTable show ?thesis by (simp add: decode.simps)
      qed
    qed
  qed
next
  case (2 env stk s narr nrec)
  show ?case
  proof (intro allI impI)
    fix sB assume r: "srel d b s sB"
    let ?t = "length (d_heap s)"
    have lB: "length (d_heap sB) = ?t + d" and bt: "b \<le> ?t" using r by (simp_all add: srel_def)
    show "(\<exists>sB'. decodetable env stk sB narr nrec
              = (map_sum id (shv d) (fst (decodetable env stk s narr nrec)), sB')
           \<and> srel d b (snd (decodetable env stk s narr nrec)) sB')
     \<and> (\<forall>v. fst (decodetable env stk s narr nrec) = Inr v \<longrightarrow>
            fresh b (length (d_heap (snd (decodetable env stk s narr nrec)))) v)
     \<and> length (d_heap s) \<le> length (d_heap (snd (decodetable env stk s narr nrec)))"
    proof (cases "lua_checkstack env stk 3")
      case False
      with r show ?thesis by (simp add: decodetable_newtable)
    next
      case True
      have nn: "\<not> \<not> lua_checkstack env stk 3" using True by simp
      obtain r2 s2 where p1: "decode_pairs env (stk + 1) ?t (newtable s) narr = (r2, s2)"
        by (cases "decode_pairs env (stk + 1) ?t (newtable s) narr")
      have rn: "srel d b (newtable s) (newtable sB)" by (rule srel_newtable[OF r])
      have tl: "?t < length (d_heap (newtable s))" by (simp add: newtable_def)
      from "2.IH"(1)[OF nn, folded newtable_def] rn bt tl p1
      obtain sB2 where b1': "decode_pairs env (stk + 1) (?t + d) (newtable sB) narr = (r2, sB2)"
        and r2: "srel d b s2 sB2" and l2: "length (d_heap (newtable s)) \<le> length (d_heap s2)"
        by fastforce
      note b1 = b1'[folded lB]
      have l2': "?t < length (d_heap s2)" using l2 tl by simp
      show ?thesis
      proof (cases r2)
        case (Inl e)
        with True p1 b1 r2 l2' show ?thesis
          by (simp add: decodetable_newtable)
      next
        case (Inr u)
        obtain r3 s3 where p2: "decode_pairs env (stk + 1) ?t s2 nrec = (r3, s3)"
          by (cases "decode_pairs env (stk + 1) ?t s2 nrec")
        from "2.IH"(2)[OF nn p1[unfolded newtable_def, symmetric] Inr] r2 bt l2' p2
        obtain sB3 where b2': "decode_pairs env (stk + 1) (?t + d) sB2 nrec = (r3, sB3)"
          and r3: "srel d b s3 sB3" and l3: "length (d_heap s2) \<le> length (d_heap s3)"
          by fastforce
        note b2 = b2'[folded lB]
        have l3': "?t < length (d_heap s3)" using l3 l2' by simp
        show ?thesis
          using True p1 b1 p2 b2 r3 l3' lB Inr bt
          by (cases r3) (simp_all add: decodetable_newtable)
      qed
    qed
  qed
next
  case (3 env stk t s n)
  show ?case
  proof (intro allI impI)
    fix sB assume a: "srel d b s sB \<and> b \<le> t \<and> t < length (d_heap s)"
    then have r: "srel d b s sB" and bt: "b \<le> t" and tl: "t < length (d_heap s)" by simp_all
    show "(\<exists>sB'. decode_pairs env stk (t + d) sB n = (fst (decode_pairs env stk t s n), sB')
           \<and> srel d b (snd (decode_pairs env stk t s n)) sB')
     \<and> length (d_heap s) \<le> length (d_heap (snd (decode_pairs env stk t s n)))"
    proof (cases "0 < n")
      case False
      with r show ?thesis by (simp add: decode_pairs.simps)
    next
      case True
      obtain r1 s1 where d1: "decode env stk s = (r1, s1)" by (cases "decode env stk s")
      note i1 = "3.IH"(1)[OF True, rule_format, OF r, unfolded d1 fst_conv snd_conv]
      from i1
      obtain sB1 where b1: "decode env stk sB = (map_sum id (shv d) r1, sB1)"
        and r1: "srel d b s1 sB1"
        and f1: "\<forall>v. r1 = Inr v \<longrightarrow> fresh b (length (d_heap s1)) v"
        and l1: "length (d_heap s) \<le> length (d_heap s1)"
        by blast
      show ?thesis
      proof (cases r1)
        case (Inl e)
        with True d1 b1 r1 l1 show ?thesis by (simp add: decode_pairs.simps)
      next
        case k: (Inr k)
        obtain r2 s2 where d2: "decode env (stk + 1) s1 = (r2, s2)"
          by (cases "decode env (stk + 1) s1")
        note i2 = "3.IH"(2)[OF True d1[symmetric] k, rule_format, OF r1,
                     unfolded d2 fst_conv snd_conv]
        from i2
        obtain sB2 where b2: "decode env (stk + 1) sB1 = (map_sum id (shv d) r2, sB2)"
          and r2: "srel d b s2 sB2"
          and f2: "\<forall>v. r2 = Inr v \<longrightarrow> fresh b (length (d_heap s2)) v"
          and l2: "length (d_heap s1) \<le> length (d_heap s2)"
          by blast
        have l02: "length (d_heap s) \<le> length (d_heap s2)" using l1 l2 by simp
        show ?thesis
        proof (cases r2)
          case (Inl e)
          with True d1 d2 b1 b2 k r2 l02 show ?thesis by (simp add: decode_pairs.simps)
        next
          case v: (Inr v)
          have fk: "fresh b (length (d_heap s2)) k" using f1 k l2 by (auto intro: fresh_mono)
          have fv: "fresh b (length (d_heap s2)) v" using f2 v by simp
          have tl2: "t < length (d_heap s2)" using tl l02 by simp
          note rs = srel_rawset[OF r2 bt tl2 fk fv, of env]
          show ?thesis
          proof (cases "lua_rawset env (d_heap s2) t k v")
            case (Inl e)
            from rs(1)[OF Inl] True d1 d2 b1 b2 k v r2 l02 Inl show ?thesis
              by (simp add: decode_pairs.simps)
          next
            case (Inr h')
            from rs(2)[OF Inr] obtain hB where
              rb: "lua_rawset env (d_heap sB2) (t + d) (shv d k) (shv d v) = Inr hB"
              and r3: "srel d b (s2\<lparr>d_heap := h'\<rparr>) (sB2\<lparr>d_heap := hB\<rparr>)"
              and lh: "length h' = length (d_heap s2)" by blast
            have tl3: "t < length (d_heap (s2\<lparr>d_heap := h'\<rparr>))" using tl2 lh by simp
            from "3.IH"(3)[OF True d1[symmetric] k d2[symmetric] v Inr] r3 bt tl3
            have ih: "(\<exists>sB'. decode_pairs env stk (t + d) (sB2\<lparr>d_heap := hB\<rparr>) (n - 1)
                         = (fst (decode_pairs env stk t (s2\<lparr>d_heap := h'\<rparr>) (n - 1)), sB')
                      \<and> srel d b (snd (decode_pairs env stk t (s2\<lparr>d_heap := h'\<rparr>) (n - 1))) sB')
               \<and> length (d_heap (s2\<lparr>d_heap := h'\<rparr>))
                   \<le> length (d_heap (snd (decode_pairs env stk t (s2\<lparr>d_heap := h'\<rparr>) (n - 1))))"
              by blast
            have e1: "decode_pairs env stk t s n = decode_pairs env stk t (s2\<lparr>d_heap := h'\<rparr>) (n - 1)"
              using True d1 d2 k v Inr by (subst decode_pairs.simps) simp
            have e2: "decode_pairs env stk (t + d) sB n
                        = decode_pairs env stk (t + d) (sB2\<lparr>d_heap := hB\<rparr>) (n - 1)"
              using True b1 b2 k v rb by (subst decode_pairs.simps) simp
            from ih l02 lh show ?thesis unfolding e1 e2 by simp
          qed
        qed
      qed
    qed
  qed
qed

subsection \<open>Structural equality\<close>

text \<open>
  Two values, each in its heap, are structurally equal when a one-to-one correspondence \<open>R\<close>
  between tables of the first heap and tables of the second relates them: values that are
  not tables are related when they are equal (floats by their bits), tables when \<open>R\<close> relates
  them, and tables that \<open>R\<close> relates have the same entries in the same order, keys and values
  related again. As \<open>R\<close> is one-to-one, two paths reach one table on one side exactly when
  they do on the other.
\<close>

definition val_rel :: "(nat \<Rightarrow> nat \<Rightarrow> bool) \<Rightarrow> lvalue \<Rightarrow> lvalue \<Rightarrow> bool" where
  "val_rel R a b =
     (case a of
        VTable x \<Rightarrow> (case b of VTable y \<Rightarrow> R x y | _ \<Rightarrow> False)
      | _ \<Rightarrow> a = b)"

definition same_tables :: "(nat \<Rightarrow> nat \<Rightarrow> bool) \<Rightarrow> heap \<Rightarrow> heap \<Rightarrow> bool" where
  "same_tables R h1 h2 =
     (\<forall>x y. R x y \<longrightarrow>
        x < length h1 \<and> y < length h2
        \<and> list_all2 (\<lambda>p q. val_rel R (fst p) (fst q) \<and> val_rel R (snd p) (snd q))
             (h1 ! x) (h2 ! y))"

definition struct_eq :: "heap \<Rightarrow> lvalue \<Rightarrow> heap \<Rightarrow> lvalue \<Rightarrow> bool" where
  "struct_eq h1 v1 h2 v2 = (\<exists>R. bi_unique R \<and> same_tables R h1 h2 \<and> val_rel R v1 v2)"

lemma val_rel_shv:
  "fresh b n v \<Longrightarrow> val_rel (\<lambda>x y. b \<le> x \<and> x < n \<and> y = x + d) v (shv d v)"
  by (cases v) (simp_all add: val_rel_def)

lemma srel_struct_eq:
  assumes "srel d b sA sB" and "fresh b (length (d_heap sA)) v"
  shows "struct_eq (d_heap sA) v (d_heap sB) (shv d v)"
proof -
  let ?n = "length (d_heap sA)"
  let ?R = "\<lambda>x y. b \<le> x \<and> x < ?n \<and> y = x + d"
  note s = assms(1)[unfolded srel_def]
  have bu: "bi_unique ?R" by (auto simp: bi_unique_def)
  have st: "same_tables ?R (d_heap sA) (d_heap sB)"
    unfolding same_tables_def
  proof (intro allI impI)
    fix x y assume r: "?R x y"
    then have x: "b \<le> x \<and> x < ?n" and y: "y = x + d" by simp_all
    from s x have e: "d_heap sB ! (x + d) = she d (d_heap sA ! x)" by blast
    from s x have f: "\<forall>p\<in>set (d_heap sA ! x). fresh b ?n (fst p) \<and> fresh b ?n (snd p)" by blast
    have "list_all2 (\<lambda>p q. val_rel ?R (fst p) (fst q) \<and> val_rel ?R (snd p) (snd q))
            (d_heap sA ! x) (she d (d_heap sA ! x))"
      unfolding she_def list_all2_map2
      by (rule list_all2_same[THEN iffD2]) (use f in \<open>auto intro: val_rel_shv\<close>)
    with x y e s show "x < ?n \<and> y < length (d_heap sB)
        \<and> list_all2 (\<lambda>p q. val_rel ?R (fst p) (fst q) \<and> val_rel ?R (snd p) (snd q))
             (d_heap sA ! x) (d_heap sB ! y)"
      by simp
  qed
  from bu st val_rel_shv[OF assms(2), of d] show ?thesis
    unfolding struct_eq_def by blast
qed

lemma mdecode_buffer_pos: "mdecode_buffer env h (b\<lparr>pos := p\<rparr>) = mdecode_buffer env h b"
  by (simp add: mdecode_buffer_def)

lemma mdecode_buffer_shift:
  assumes "mdecode_buffer env h b = (r1, s1)" and "length hB = length h + d"
  shows "\<exists>s2. mdecode_buffer env hB b = (map_sum id (shv d) r1, s2) \<and> srel d (length h) s1 s2
            \<and> (\<forall>v. r1 = Inr v \<longrightarrow> fresh (length h) (length (d_heap s1)) v)"
proof -
  let ?b0 = "\<lparr>dtab = Map.empty, dcnt = 0\<rparr>"
  let ?sA = "\<lparr>d_heap = h, d_buf = b\<lparr>pos := 0\<rparr>, d_br = ?b0\<rparr>"
  let ?sB = "\<lparr>d_heap = hB, d_buf = b\<lparr>pos := 0\<rparr>, d_br = ?b0\<rparr>"
  have r0: "srel d (length h) ?sA ?sB" using assms(2) by (auto simp: srel_def)
  obtain rv sA1 where 1: "read_n ?sA (length MEMCACHED_CODEC_VERSION) = (rv, sA1)"
    by (cases "read_n ?sA (length MEMCACHED_CODEC_VERSION)")
  have q1: "read_n ?sB (length MEMCACHED_CODEC_VERSION) = (rv, ?sB\<lparr>d_buf := d_buf sA1\<rparr>)"
    using read_n_shift[of ?sB ?sA "length MEMCACHED_CODEC_VERSION"] 1 by simp
  from read_n_adv[OF 1] have "sA1 = ?sA\<lparr>d_buf := d_buf sA1\<rparr>" by simp
  then have r1: "srel d (length h) sA1 (?sB\<lparr>d_buf := d_buf sA1\<rparr>)"
    using srel_buf[OF r0, of "d_buf sA1"] by simp
  show ?thesis
  proof (cases rv)
    case (Inl e)
    with assms(1) 1 q1 r1 show ?thesis by (auto simp: mdecode_buffer_def)
  next
    case (Inr ver)
    show ?thesis
    proof (cases "ver = MEMCACHED_CODEC_VERSION")
      case False
      with assms(1) 1 q1 Inr r0 show ?thesis by (auto simp: mdecode_buffer_def)
    next
      case True
      obtain r2 s2 where 2: "decode env 2 sA1 = (r2, s2)" by (cases "decode env 2 sA1")
      from decode_shift(1)[of d "length h" sA1 env 2, rule_format, OF r1,
             unfolded 2 fst_conv snd_conv]
      obtain sB2 where b2: "decode env 2 (?sB\<lparr>d_buf := d_buf sA1\<rparr>) = (map_sum id (shv d) r2, sB2)"
        and r2: "srel d (length h) s2 sB2"
        and f2: "\<forall>v. r2 = Inr v \<longrightarrow> fresh (length h) (length (d_heap s2)) v"
        by blast
      have bb: "d_buf sB2 = d_buf s2" using r2 by (simp add: srel_def)
      show ?thesis
      proof (cases r2)
        case (Inl e)
        with assms(1) 1 q1 Inr True 2 b2 r2 show ?thesis by (auto simp: mdecode_buffer_def)
      next
        case v: (Inr v)
        with assms(1) 1 q1 Inr True 2 b2 r2 f2 bb show ?thesis
          by (auto simp: mdecode_buffer_def)
      qed
    qed
  qed
qed

lemma mdecode_buffer_heap: "mdecode_buffer env h b = (r, s) \<Longrightarrow> length h \<le> length (d_heap s)"
proof -
  assume a: "mdecode_buffer env h b = (r, s)"
  have "length h = length h + 0" by simp
  from mdecode_buffer_shift[OF a this] have "srel 0 (length h) s s \<or> True" by simp
  from mdecode_buffer_shift[OF a \<open>length h = length h + 0\<close>]
  obtain s2 where "srel 0 (length h) s s2" by blast
  then show ?thesis by (simp add: srel_def)
qed

definition table_bytes :: "byte list" where
  "table_bytes = MEMCACHED_CODEC_VERSION @ [5, 1, 0, 0x43, 0, 0, 0, 0, 0, 0, 0, 1, 0x41]"

lemma read_bytes_string_buffer_at:
  "off + n \<le> length str \<Longrightarrow> read_bytes (bytes (string_buffer str)) off n = take n (drop off str)"
  by (auto simp: list_eq_iff_nth_eq read_bytes_def string_buffer_def)

lemma read_n_string_buffer:
  "d_buf s = (string_buffer str)\<lparr>pos := p\<rparr> \<Longrightarrow> p + n \<le> length str \<Longrightarrow> length str \<le> SIZE_MAX \<Longrightarrow>
   read_n s n = (Inr (take n (drop p str)), s\<lparr>d_buf := (string_buffer str)\<lparr>pos := p + n\<rparr>\<rparr>)"
  using read_bytes_string_buffer_at[of p n str]
  by (simp add: read_n_def buffer_avail_def) (simp add: string_buffer_def)

lemma mdecode_buffer_table:
  "mdecode_buffer env_ok h (string_buffer table_bytes)
     = (Inr (VTable (length h)),
        \<lparr>d_heap = h @ [[(VInt 1, VBool True)]],
         d_buf = (string_buffer table_bytes)\<lparr>pos := 17\<rparr>,
         d_br = \<lparr>dtab = [1 \<mapsto> length h], dcnt = 1\<rparr>\<rparr>)"
proof -
  have l: "length table_bytes = 17" "length table_bytes \<le> SIZE_MAX"
    by (simp_all add: table_bytes_def SIZE_MAX_def)
  note rn = read_n_string_buffer[where str = table_bytes, OF _ _ l(2)]
  have tb: "table_bytes = [0x4C, 0x4D, 0xF6, 0x02, 5, 1, 0, 0x43, 0, 0, 0, 0, 0, 0, 0, 1, 0x41]"
    by (simp add: table_bytes_def MEMCACHED_CODEC_VERSION_def)
  have u: "[0..<17] = [0,1,2,3,4,5,6,7,8,9,10,11,12,13,14,15,16]"
    by (simp add: upt_rec)
  show ?thesis
    by (simp add: mdecode_buffer_def Let_def read_n_def buffer_avail_def string_buffer_def tb
          read_bytes_def decode.simps decodetable.simps decode_pairs.simps decode_switch_def
          wire_type_def lua_rawset_def normkey_def entries_def lua_checkstack_def env_ok_def
          MEMCACHED_CODEC_VERSION_def SIZE_MAX_def upt_rec nth_append
          MEMCACHED_TYPE_BOOLEANTRRUE_def LUA_TBOOLEAN_def LUA_TNUMBER_def LUA_TSTRING_def
          LUA_TTABLE_def MEMCACHED_TYPE_INTEGER_def MEMCACHED_TYPE_STRINGSHORT_def
          MEMCACHED_TYPE_TABLE8_def be64toh_def be_nat_def)
qed


text \<open>
  Claim C10. \<open>mdecode\<close> sets the position of a buffer to 0 before it looks at the version
  tag, so the buffer's position at the call has no influence on what \<open>mdecode\<close> returns.
  The buffer that a call leaves differs from the one it was given in the position only;
  decoding it again, in the heap that the first call has left, gives the same error when the
  first call failed, and otherwise a value that is structurally equal to the first result
  (the tables of the second result are new ones), and leaves the buffer as the first call
  left it. The same holds for a string.
\<close>

theorem decode_twice:
  "mdecode env h (EncBuffer (b\<lparr>pos := p\<rparr>)) = mdecode env h (EncBuffer b)
   \<and> (mdecode env h a = (r1, h1, a1) \<and> mdecode env h1 a1 = (r2, h2, a2) \<longrightarrow>
        a2 = a1
        \<and> (\<forall>bf. a = EncBuffer bf \<longrightarrow> (\<exists>q. a1 = EncBuffer (bf\<lparr>pos := q\<rparr>)))
        \<and> (\<forall>e. r1 = Inl e \<longrightarrow> r2 = Inl e)
        \<and> (\<forall>v1. r1 = Inr v1 \<longrightarrow> (\<exists>v2. r2 = Inr v2 \<and> struct_eq h1 v1 h2 v2)))"
proof (intro conjI impI)
  show "mdecode env h (EncBuffer (b\<lparr>pos := p\<rparr>)) = mdecode env h (EncBuffer b)"
    by (simp add: mdecode_def mdecode_buffer_pos)
next
  assume a: "mdecode env h a = (r1, h1, a1) \<and> mdecode env h1 a1 = (r2, h2, a2)"
  have main: "a2 = a1 \<and> (\<forall>bf. a = EncBuffer bf \<longrightarrow> (\<exists>q. a1 = EncBuffer (bf\<lparr>pos := q\<rparr>)))
        \<and> (\<forall>e. r1 = Inl e \<longrightarrow> r2 = Inl e)
        \<and> (\<forall>v1. r1 = Inr v1 \<longrightarrow> (\<exists>v2. r2 = Inr v2 \<and> struct_eq h1 v1 h2 v2))"
  proof (cases a)
    case EncOther
    with a show ?thesis by (auto simp: mdecode_def)
  next
    case (EncBuffer bf)
    obtain s1 where m1: "mdecode_buffer env h bf = (r1, s1)"
      and h1: "h1 = d_heap s1" and a1: "a1 = EncBuffer (d_buf s1)"
      using a EncBuffer by (auto simp: mdecode_def split: prod.splits)
    from mdecode_buffer_adv[OF m1] obtain q where q: "d_buf s1 = bf\<lparr>pos := q\<rparr>" by blast
    from mdecode_buffer_heap[OF m1] have "length (d_heap s1) = length h + (length (d_heap s1) - length h)"
      by simp
    from mdecode_buffer_shift[OF m1 this] obtain s2 where
      m2: "mdecode_buffer env (d_heap s1) bf
             = (map_sum id (shv (length (d_heap s1) - length h)) r1, s2)"
      and r: "srel (length (d_heap s1) - length h) (length h) s1 s2"
      and f: "\<forall>v. r1 = Inr v \<longrightarrow> fresh (length h) (length (d_heap s1)) v"
      by blast
    have m2': "mdecode_buffer env (d_heap s1) (d_buf s1)
             = (map_sum id (shv (length (d_heap s1) - length h)) r1, s2)"
      using m2 q by (simp add: mdecode_buffer_pos)
    from a a1 h1 m2' have r2: "r2 = map_sum id (shv (length (d_heap s1) - length h)) r1"
      and h2: "h2 = d_heap s2" and a2: "a2 = EncBuffer (d_buf s2)"
      by (simp_all add: mdecode_def)
    have bb: "d_buf s2 = d_buf s1" using r by (simp add: srel_def)
    have se: "struct_eq h1 v h2 (shv (length (d_heap s1) - length h) v)" if "r1 = Inr v" for v
      using srel_struct_eq[OF r] f that h1 h2 by simp
    show ?thesis using a1 a2 bb r2 se q EncBuffer by auto
  next
    case (EncString str)
    obtain s1 where m1: "mdecode_buffer env h (string_buffer str) = (r1, s1)"
      and h1: "h1 = d_heap s1" and a1: "a1 = EncString str"
      using a EncString by (auto simp: mdecode_def split: prod.splits)
    from mdecode_buffer_heap[OF m1] have "length (d_heap s1) = length h + (length (d_heap s1) - length h)"
      by simp
    from mdecode_buffer_shift[OF m1 this] obtain s2 where
      m2: "mdecode_buffer env (d_heap s1) (string_buffer str)
             = (map_sum id (shv (length (d_heap s1) - length h)) r1, s2)"
      and r: "srel (length (d_heap s1) - length h) (length h) s1 s2"
      and f: "\<forall>v. r1 = Inr v \<longrightarrow> fresh (length h) (length (d_heap s1)) v"
      by blast
    from a a1 h1 m2 have r2: "r2 = map_sum id (shv (length (d_heap s1) - length h)) r1"
      and h2: "h2 = d_heap s2" and a2: "a2 = EncString str"
      by (simp_all add: mdecode_def)
    have se: "struct_eq h1 v h2 (shv (length (d_heap s1) - length h) v)" if "r1 = Inr v" for v
      using srel_struct_eq[OF r] f that h1 h2 by simp
    show ?thesis using a1 a2 r2 se EncString by auto
  qed
  show "a2 = a1" by (rule main[THEN conjunct1])
  show "\<forall>bf. a = EncBuffer bf \<longrightarrow> (\<exists>q. a1 = EncBuffer (bf\<lparr>pos := q\<rparr>))"
    by (rule main[THEN conjunct2, THEN conjunct1])
  show "\<forall>e. r1 = Inl e \<longrightarrow> r2 = Inl e"
    by (rule main[THEN conjunct2, THEN conjunct2, THEN conjunct1])
  show "\<forall>v1. r1 = Inr v1 \<longrightarrow> (\<exists>v2. r2 = Inr v2 \<and> struct_eq h1 v1 h2 v2)"
    by (rule main[THEN conjunct2, THEN conjunct2, THEN conjunct2])
qed

lemma mdecode_table:
  "mdecode env_ok h (EncBuffer ((string_buffer table_bytes)\<lparr>pos := p\<rparr>))
     = (Inr (VTable (length h)), h @ [[(VInt 1, VBool True)]],
        EncBuffer ((string_buffer table_bytes)\<lparr>pos := 17\<rparr>))"
  by (simp add: mdecode_def mdecode_buffer_pos mdecode_buffer_table)

theorem decode_twice_witness:
  "mdecode env_ok [] (EncBuffer (string_buffer table_bytes))
     = (Inr (VTable 0), [[(VInt 1, VBool True)]],
        EncBuffer ((string_buffer table_bytes)\<lparr>pos := 17\<rparr>))
   \<and> mdecode env_ok [[(VInt 1, VBool True)]] (EncBuffer ((string_buffer table_bytes)\<lparr>pos := 17\<rparr>))
     = (Inr (VTable 1), [[(VInt 1, VBool True)], [(VInt 1, VBool True)]],
        EncBuffer ((string_buffer table_bytes)\<lparr>pos := 17\<rparr>))
   \<and> struct_eq [[(VInt 1, VBool True)]] (VTable 0)
        [[(VInt 1, VBool True)], [(VInt 1, VBool True)]] (VTable 1)"
proof -
  have 1: "mdecode env_ok [] (EncBuffer (string_buffer table_bytes))
     = (Inr (VTable 0), [[(VInt 1, VBool True)]],
        EncBuffer ((string_buffer table_bytes)\<lparr>pos := 17\<rparr>))"
    using mdecode_table[of "[]" 0] by (simp add: string_buffer_def)
  have 2: "mdecode env_ok [[(VInt 1, VBool True)]]
             (EncBuffer ((string_buffer table_bytes)\<lparr>pos := 17\<rparr>))
     = (Inr (VTable 1), [[(VInt 1, VBool True)], [(VInt 1, VBool True)]],
        EncBuffer ((string_buffer table_bytes)\<lparr>pos := 17\<rparr>))"
    using mdecode_table[of "[[(VInt 1, VBool True)]]" 17] by simp
  from decode_twice[where env = env_ok and h = "[]" and b = "string_buffer table_bytes"
         and p = 0 and a = "EncBuffer (string_buffer table_bytes)" and ?r1.0 = "Inr (VTable 0)"
         and ?h1.0 = "[[(VInt 1, VBool True)]]"
         and ?a1.0 = "EncBuffer ((string_buffer table_bytes)\<lparr>pos := 17\<rparr>)"
         and ?r2.0 = "Inr (VTable 1)"
         and ?h2.0 = "[[(VInt 1, VBool True)], [(VInt 1, VBool True)]]"
         and ?a2.0 = "EncBuffer ((string_buffer table_bytes)\<lparr>pos := 17\<rparr>)"] 1 2
  show ?thesis by simp
qed

section \<open>What the encoder writes\<close>

text \<open>
  \<open>wire env h stk br v bs br'\<close>: the bytes \<open>bs\<close> are the encoding of \<open>v\<close> when the tables in
  \<open>br\<close> have been met, and \<open>br'\<close> are the tables met afterwards; \<open>wire_pairs\<close> is the same
  for the entries of a table that remain, with the two counters. The rules follow the
  branches of \<open>encode\<close> and \<open>encode_pairs\<close> that return, without the buffer: a table's header
  is written here in its final width.
\<close>

inductive wire ::
    "lua_env \<Rightarrow> heap \<Rightarrow> nat \<Rightarrow> backref_enc \<Rightarrow> lvalue \<Rightarrow> byte list \<Rightarrow> backref_enc \<Rightarrow> bool"
  and wire_pairs ::
    "lua_env \<Rightarrow> heap \<Rightarrow> nat \<Rightarrow> backref_enc \<Rightarrow> nat \<Rightarrow> nat \<Rightarrow> ltable \<Rightarrow> byte list
      \<Rightarrow> backref_enc \<Rightarrow> nat \<Rightarrow> nat \<Rightarrow> bool"
where
  w_bool: "wire env h stk br (VBool x) [if x then MEMCACHED_TYPE_BOOLEANTRRUE else LUA_TBOOLEAN] br"
| w_int: "wire env h stk br (VInt i) (MEMCACHED_TYPE_INTEGER # htobe64 i) br"
| w_float: "wire env h stk br (VFloat d) (LUA_TNUMBER # double_bytes env d) br"
| w_short: "length s \<le> 255 \<Longrightarrow>
     wire env h stk br (VStr s) (MEMCACHED_TYPE_STRINGSHORT # of_nat (length s) # s) br"
| w_long: "255 < length s \<Longrightarrow> length s \<le> UINT64_MAX - (1 + 8) \<Longrightarrow>
     wire env h stk br (VStr s) (LUA_TSTRING # htobe64 (of_nat (length s)) @ s) br"
| w_ref: "lua_checkstack env stk 2 \<Longrightarrow> etab br t = Some n \<Longrightarrow>
     wire env h stk br (VTable t) (MEMCACHED_TYPE_TABLEREF # htobe64 (of_int n)) br"
| w_table: "lua_checkstack env stk 2 \<Longrightarrow> etab br t = None \<Longrightarrow> ecnt br \<noteq> LUA_MAXINTEGER \<Longrightarrow>
     wire_pairs env h stk (br\<lparr>ecnt := ecnt br + 1, etab := (etab br)(t \<mapsto> ecnt br + 1)\<rparr>)
        0 0 (entries h t) ps br' narr nrec \<Longrightarrow>
     wire env h stk br (VTable t)
        (table_tag (size_class narr nrec) # be_bytes (size_class narr nrec) narr
           @ be_bytes (size_class narr nrec) nrec @ ps) br'"
| wp_nil: "wire_pairs env h stk br narr nrec [] [] br narr nrec"
| wp_skip: "\<not> (supported (fst kv) \<and> supported (snd kv)) \<Longrightarrow>
     wire_pairs env h stk br narr nrec es ps br' narr' nrec' \<Longrightarrow>
     wire_pairs env h stk br narr nrec (kv # es) ps br' narr' nrec'"
| wp_cons: "supported (fst kv) \<and> supported (snd kv) \<Longrightarrow>
     classify env (fst kv) narr nrec = Inr (na, nr) \<Longrightarrow>
     wire env h (stk + 2) br (fst kv) ks br1 \<Longrightarrow>
     wire env h (stk + 2) br1 (snd kv) vs br2 \<Longrightarrow>
     wire_pairs env h stk br2 na nr es ps br' narr' nrec' \<Longrightarrow>
     wire_pairs env h stk br narr nrec (kv # es) (ks @ vs @ ps) br' narr' nrec'"

lemma read_bytes_Cons: "read_bytes m off (Suc n) = m off # read_bytes m (Suc off) n"
  by (auto simp: list_eq_iff_nth_eq nth_Cons split: nat.splits)

lemma read_bytes_add:
  "read_bytes m off (a + b) = read_bytes m off a @ read_bytes m (off + a) b"
  by (auto simp: list_eq_iff_nth_eq nth_append)

lemma read_bytes_0 [simp]: "read_bytes m off 0 = []"
  by (simp add: read_bytes_def)

lemma read_bytes_tag_payload:
  "n = Suc (length bs) \<Longrightarrow>
   read_bytes (write_bytes (m(p := tag)) (Suc p) bs) p n = tag # bs"
  using read_bytes_write_bytes[of "m(p := tag)" "Suc p" bs]
  by (simp add: read_bytes_Cons)

lemma encode_wire:
  "encode env h stk bf br v = Inr (bf', br') \<Longrightarrow>
     \<exists>bs. wire env h stk br v bs br' \<and> pos bf' = pos bf + length bs
          \<and> read_bytes (bytes bf') (pos bf) (length bs) = bs"
  "encode_pairs env h stk bf br narr nrec es = Inr (bf'', br'', narr', nrec') \<Longrightarrow> binv bf \<Longrightarrow>
     \<exists>ps. wire_pairs env h stk br narr nrec es ps br'' narr' nrec' \<and> pos bf'' = pos bf + length ps
          \<and> read_bytes (bytes bf'') (pos bf) (length ps) = ps"
proof (induction env h stk bf br v and env h stk bf br narr nrec es
       arbitrary: bf' br' and bf'' br'' narr' nrec' rule: encode_encode_pairs.induct)
  case (1 env h stk bf br x)
  then obtain bf1 where r: "buffer_require env bf 1 = Inr bf1"
    and e: "bf' = put bf1 (if x then MEMCACHED_TYPE_BOOLEANTRRUE else LUA_TBOOLEAN)"
    and b: "br' = br"
    by (auto simp: encode.simps split: sum.splits)
  let ?bs = "[if x then MEMCACHED_TYPE_BOOLEANTRRUE else LUA_TBOOLEAN]"
  have "wire env h stk br (VBool x) ?bs br" by (rule w_bool)
  moreover have "pos bf' = pos bf + length ?bs" using buffer_require_Inr[OF r] e by simp
  moreover have "read_bytes (bytes bf') (pos bf) (length ?bs) = ?bs"
    using buffer_require_Inr[OF r] e by (simp add: read_bytes_Cons)
  ultimately show ?case using b by blast
next
  case (2 env h stk bf br i)
  then obtain bf1 where r: "buffer_require env bf (1 + 8) = Inr bf1"
    and e: "bf' = put_bytes (put bf1 MEMCACHED_TYPE_INTEGER) (htobe64 i)" and b: "br' = br"
    by (auto simp: encode.simps split: sum.splits)
  let ?bs = "MEMCACHED_TYPE_INTEGER # htobe64 i"
  have "wire env h stk br (VInt i) ?bs br" by (rule w_int)
  moreover have "pos bf' = pos bf + length ?bs" using buffer_require_Inr[OF r] e by simp
  moreover have "read_bytes (bytes bf') (pos bf) (length ?bs) = ?bs"
    using buffer_require_Inr[OF r] e by (simp add: read_bytes_tag_payload)
  ultimately show ?case using b by blast
next
  case (3 env h stk bf br d)
  then obtain bf1 where r: "buffer_require env bf (1 + 8) = Inr bf1"
    and e: "bf' = put_bytes (put bf1 LUA_TNUMBER) (double_bytes env d)" and b: "br' = br"
    by (auto simp: encode.simps split: sum.splits)
  let ?bs = "LUA_TNUMBER # double_bytes env d"
  have "wire env h stk br (VFloat d) ?bs br" by (rule w_float)
  moreover have "pos bf' = pos bf + length ?bs" using buffer_require_Inr[OF r] e by simp
  moreover have "read_bytes (bytes bf') (pos bf) (length ?bs) = ?bs"
    using buffer_require_Inr[OF r] e by (simp add: read_bytes_tag_payload)
  ultimately show ?case using b by blast
next
  case (4 env h stk bf br s)
  show ?case
  proof (cases "length s \<le> 255")
    case True
    with 4 obtain bf1 where r: "buffer_require env bf (1 + 1 + length s) = Inr bf1"
      and e: "bf' = put_bytes (put (put bf1 MEMCACHED_TYPE_STRINGSHORT) (of_nat (length s))) s"
      and b: "br' = br"
      by (auto simp: encode.simps split: sum.splits if_splits)
    let ?bs = "MEMCACHED_TYPE_STRINGSHORT # of_nat (length s) # s"
    have "wire env h stk br (VStr s) ?bs br" using True by (rule w_short)
    moreover have "pos bf' = pos bf + length ?bs" using buffer_require_Inr[OF r] e by simp
    moreover have "read_bytes (bytes bf') (pos bf) (length ?bs) = ?bs"
      using buffer_require_Inr[OF r] e
        read_bytes_write_bytes[of "(bytes bf)(pos bf := MEMCACHED_TYPE_STRINGSHORT,
            Suc (pos bf) := of_nat (length s))" "Suc (Suc (pos bf))" s]
      by (simp add: read_bytes_Cons)
    ultimately show ?thesis using b by blast
  next
    case False
    with 4 obtain bf1 where r: "buffer_require env bf (1 + 8 + length s) = Inr bf1"
      and e: "bf' = put_bytes (put_bytes (put bf1 LUA_TSTRING) (htobe64 (of_nat (length s)))) s"
      and b: "br' = br" and l: "length s \<le> UINT64_MAX - (1 + 8)"
      by (auto simp: encode.simps split: sum.splits if_splits)
    let ?bs = "LUA_TSTRING # htobe64 (of_nat (length s)) @ s"
    have "wire env h stk br (VStr s) ?bs br" using False l by (intro w_long) simp_all
    moreover have "pos bf' = pos bf + length ?bs" using buffer_require_Inr[OF r] e by simp
    moreover have "read_bytes (bytes bf') (pos bf) (length ?bs) = ?bs"
    proof -
      let ?m1 = "write_bytes ((bytes bf)(pos bf := LUA_TSTRING)) (Suc (pos bf))
                   (htobe64 (of_nat (length s)))"
      have m: "bytes bf' = write_bytes ?m1 (pos bf + 9) s"
        using buffer_require_Inr[OF r] e by (simp add: add.commute)
      have 1: "read_bytes (bytes bf') (pos bf + 9) (length s) = s"
        unfolding m by (rule read_bytes_write_bytes)
      have 2: "read_bytes (bytes bf') (pos bf) 9 = read_bytes ?m1 (pos bf) 9"
        unfolding m by (rule read_bytes_cong) simp
      have 3: "read_bytes ?m1 (pos bf) 9 = LUA_TSTRING # htobe64 (of_nat (length s))"
        by (rule read_bytes_tag_payload) simp
      have "read_bytes (bytes bf') (pos bf) (9 + length s)
              = (LUA_TSTRING # htobe64 (of_nat (length s))) @ s"
        unfolding read_bytes_add using 1 2 3 by simp
      then show ?thesis by (simp add: add.commute)
    qed
    ultimately show ?thesis using b by blast
  qed
next
  case (5 env h stk bf br t)
  show ?case
  proof (cases "etab br t = None")
    case False
    then obtain n where n: "etab br t = Some n" by auto
    with 5(2) obtain bf1 where r: "buffer_require env bf (1 + 8) = Inr bf1"
      and e: "bf' = put_bytes (put bf1 MEMCACHED_TYPE_TABLEREF) (htobe64 (of_int n))"
      and b: "br' = br" and c: "lua_checkstack env stk 2"
      by (auto simp: encode.simps split: sum.splits if_splits)
    let ?bs = "MEMCACHED_TYPE_TABLEREF # htobe64 (of_int n)"
    have "wire env h stk br (VTable t) ?bs br" using c n by (rule w_ref)
    moreover have "pos bf' = pos bf + length ?bs" using buffer_require_Inr[OF r] e by simp
    moreover have "read_bytes (bytes bf') (pos bf) (length ?bs) = ?bs"
      using buffer_require_Inr[OF r] e by (simp add: read_bytes_tag_payload)
    ultimately show ?thesis using b by blast
  next
    case True
    let ?br1 = "br\<lparr>ecnt := ecnt br + 1, etab := (etab br)(t \<mapsto> ecnt br + 1)\<rparr>"
    from True 5(2) obtain bf1 bf4 br4 na nr where
      c: "lua_checkstack env stk 2" "ecnt br \<noteq> LUA_MAXINTEGER" and
      r: "buffer_require env bf (1 + 2) = Inr bf1" and
      p: "encode_pairs env h stk ((put bf1 MEMCACHED_TYPE_TABLE8)\<lparr>pos := pos bf1 + 3\<rparr>) ?br1
            0 0 (entries h t) = Inr (bf4, br4, na, nr)" and
      ts: "table_sizes env bf4 (pos bf1 + 1) na nr = Inr bf'" and b4: "br' = br4"
      by (auto simp: encode.simps split: sum.splits if_splits prod.splits)
    note b = buffer_require_Inr[OF r]
    let ?bf3 = "(put bf1 MEMCACHED_TYPE_TABLE8)\<lparr>pos := pos bf1 + 3\<rparr>"
    let ?w = "size_class na nr"
    have b3: "binv ?bf3" using b by (simp add: binv_def)
    have cs: "\<not> \<not> lua_checkstack env stk 2" using c by simp
    have nn: "\<not> etab br t \<noteq> None" using True by simp
    from "5.IH"[OF cs nn c(2) r p b3] obtain ps where
      w: "wire_pairs env h stk ?br1 0 0 (entries h t) ps br4 na nr"
      and pp: "pos bf4 = pos ?bf3 + length ps"
      and rd: "read_bytes (bytes bf4) (pos ?bf3) (length ps) = ps" by blast
    note f = encode_frame(2)[OF p b3]
    have tag: "bytes bf4 (pos bf1 + 1 - 1) = MEMCACHED_TYPE_TABLE8" using f b by simp
    have sp: "1 \<le> pos bf1 + 1" "pos bf1 + 1 + 2 \<le> pos bf4" using f by simp_all
    note th = table_sizes_header[OF ts sp tag]
    have p3: "pos ?bf3 = pos bf + 3" using b by simp
    have l: "pos bf4 - (pos bf1 + 1) - 2 = length ps" using pp p3 b by simp
    have e3: "pos bf1 + 1 + 2 = pos bf + 3" using b by simp
    let ?bs = "table_tag ?w # be_bytes ?w na @ be_bytes ?w nr @ ps"
    have wt: "wire env h stk br (VTable t) ?bs br4"
      using c(1) True c(2) w by (rule w_table)
    have ps': "pos bf' = pos bf + length ?bs"
      using th(4) pp p3 by (simp add: size_class_def)
    have r0: "read_bytes (bytes bf') (pos bf) 1 = [table_tag ?w]"
      using th(1) b by (simp add: read_bytes_Cons)
    have r1: "read_bytes (bytes bf') (pos bf + 1) ?w = be_bytes ?w na" using th(2) b by simp
    have r2: "read_bytes (bytes bf') (pos bf + 1 + ?w) ?w = be_bytes ?w nr" using th(3) b by simp
    have r3: "read_bytes (bytes bf') (pos bf + 1 + ?w + ?w) (length ps) = ps"
      using th(5)[unfolded l e3] rd p3 b by (simp add: mult_2 add.assoc)
    have "read_bytes (bytes bf') (pos bf) (1 + (?w + (?w + length ps))) = ?bs"
      unfolding read_bytes_add using r0 r1 r2 r3 by (simp add: add.assoc)
    then have rb: "read_bytes (bytes bf') (pos bf) (length ?bs) = ?bs" by simp
    from wt ps' rb b4 show ?thesis by blast
  qed
next
  case (6 env h stk bf br)
  then show ?case by (simp add: encode.simps)
next
  case (7 env h stk bf br x)
  then show ?case by (simp add: encode.simps)
next
  case (8 env h stk bf br narr nrec)
  then have "bf'' = bf" "br'' = br" "narr' = narr" "nrec' = nrec"
    by (simp_all add: encode_pairs.simps)
  then show ?case using wp_nil[of env h stk br narr nrec] by auto
next
  case (9 env h stk bf br narr nrec kv es)
  show ?case
  proof (cases "supported (fst kv) \<and> supported (snd kv)")
    case False
    with "9.prems" have "encode_pairs env h stk bf br narr nrec es = Inr (bf'', br'', narr', nrec')"
      by (simp add: encode_pairs.simps)
    from "9.IH"(4)[OF False this "9.prems"(2)] obtain ps where
      "wire_pairs env h stk br narr nrec es ps br'' narr' nrec'"
      "pos bf'' = pos bf + length ps" "read_bytes (bytes bf'') (pos bf) (length ps) = ps"
      by blast
    with wp_skip[OF False] show ?thesis by blast
  next
    case sup: True
    with "9.prems" obtain na nr bf1 br1 bf2 br2 where
      c: "classify env (fst kv) narr nrec = Inr (na, nr)" and
      k: "encode env h (stk + 2) bf br (fst kv) = Inr (bf1, br1)" and
      v: "encode env h (stk + 2) bf1 br1 (snd kv) = Inr (bf2, br2)" and
      r: "encode_pairs env h stk bf2 br2 na nr es = Inr (bf'', br'', narr', nrec')"
      by (auto simp: encode_pairs.simps split: if_splits sum.splits prod.splits)
    from "9.IH"(1)[OF sup c refl k] obtain ks where
      wk: "wire env h (stk + 2) br (fst kv) ks br1" and pk: "pos bf1 = pos bf + length ks"
      and rk: "read_bytes (bytes bf1) (pos bf) (length ks) = ks" by blast
    from "9.IH"(2)[OF sup c refl k refl v] obtain vs where
      wv: "wire env h (stk + 2) br1 (snd kv) vs br2" and pv: "pos bf2 = pos bf1 + length vs"
      and rv: "read_bytes (bytes bf2) (pos bf1) (length vs) = vs" by blast
    note fv = encode_frame(1)[OF v]
    from fv have b2: "binv bf2" by simp
    from "9.IH"(3)[OF sup c refl k refl v refl r b2] obtain ps where
      wp: "wire_pairs env h stk br2 na nr es ps br'' narr' nrec'"
      and pp: "pos bf'' = pos bf2 + length ps"
      and rp: "read_bytes (bytes bf'') (pos bf2) (length ps) = ps" by blast
    note fp = encode_frame(2)[OF r b2]
    have k': "read_bytes (bytes bf'') (pos bf) (length ks) = ks"
    proof -
      have "read_bytes (bytes bf'') (pos bf) (length ks) = read_bytes (bytes bf1) (pos bf) (length ks)"
        using fv fp pk pv by (intro read_bytes_cong) simp
      with rk show ?thesis by simp
    qed
    have v': "read_bytes (bytes bf'') (pos bf + length ks) (length vs) = vs"
    proof -
      have "read_bytes (bytes bf'') (pos bf1) (length vs) = read_bytes (bytes bf2) (pos bf1) (length vs)"
        using fp pv by (intro read_bytes_cong) simp
      with rv pk show ?thesis by simp
    qed
    have p': "read_bytes (bytes bf'') (pos bf + length ks + length vs) (length ps) = ps"
      using rp pk pv by simp
    have "read_bytes (bytes bf'') (pos bf) (length ks + (length vs + length ps)) = ks @ vs @ ps"
      unfolding read_bytes_add using k' v' p' by (simp add: add.assoc)
    then have "read_bytes (bytes bf'') (pos bf) (length (ks @ vs @ ps)) = ks @ vs @ ps" by simp
    moreover have "pos bf'' = pos bf + length (ks @ vs @ ps)" using pk pv pp by simp
    moreover have "wire_pairs env h stk br narr nrec (kv # es) (ks @ vs @ ps) br'' narr' nrec'"
      using sup c wk wv wp by (rule wp_cons)
    ultimately show ?thesis by blast
  qed
qed

text \<open>
  The encoder's table of back-references: ordinals are \<open>1, \<dots>, ecnt\<close>, distinct tables have
  distinct ordinals. \<open>kept\<close> are the entries that the encoder writes, \<open>refs_ok br v\<close> says that
  \<open>v\<close>, if it is a table, has been met.
\<close>

definition einv :: "backref_enc \<Rightarrow> bool" where
  "einv br = (0 \<le> ecnt br \<and> ecnt br \<le> LUA_MAXINTEGER
              \<and> (\<forall>t n. etab br t = Some n \<longrightarrow> 1 \<le> n \<and> n \<le> ecnt br)
              \<and> inj_on (etab br) (dom (etab br)))"

definition kept :: "lvalue \<times> lvalue \<Rightarrow> bool" where
  "kept p = (supported (fst p) \<and> supported (snd p))"

definition refs_ok :: "backref_enc \<Rightarrow> lvalue \<Rightarrow> bool" where
  "refs_ok br v = (case v of VTable t \<Rightarrow> etab br t \<noteq> None | _ \<Rightarrow> True)"

lemma refs_ok_simps [simp]:
  "refs_ok br (VTable t) = (etab br t \<noteq> None)" "refs_ok br VNil" "refs_ok br (VBool x)"
  "refs_ok br (VInt i)" "refs_ok br (VFloat w)" "refs_ok br (VStr s)" "refs_ok br (VOther z)"
  by (simp_all add: refs_ok_def)

lemma refs_ok_mono: "refs_ok br v \<Longrightarrow> etab br \<subseteq>\<^sub>m etab br' \<Longrightarrow> refs_ok br' v"
  by (cases v) (auto simp: map_le_def dom_def)

lemma einv_new:
  assumes "einv br" and "etab br t = None" and "ecnt br \<noteq> LUA_MAXINTEGER"
  shows "einv (br\<lparr>ecnt := ecnt br + 1, etab := (etab br)(t \<mapsto> ecnt br + 1)\<rparr>)"
    "etab br \<subseteq>\<^sub>m etab (br\<lparr>ecnt := ecnt br + 1, etab := (etab br)(t \<mapsto> ecnt br + 1)\<rparr>)"
proof -
  note e = assms(1)[unfolded einv_def]
  have inj: "inj_on ((etab br)(t \<mapsto> ecnt br + 1)) (dom ((etab br)(t \<mapsto> ecnt br + 1)))"
  proof (rule inj_onI)
    fix x y
    assume x: "x \<in> dom ((etab br)(t \<mapsto> ecnt br + 1))"
      and y: "y \<in> dom ((etab br)(t \<mapsto> ecnt br + 1))"
      and eq: "((etab br)(t \<mapsto> ecnt br + 1)) x = ((etab br)(t \<mapsto> ecnt br + 1)) y"
    show "x = y"
    proof (cases "x = t")
      case True
      show ?thesis
      proof (cases "y = t")
        case False
        with True eq have "etab br y = Some (ecnt br + 1)" by simp
        with e have "ecnt br + 1 \<le> ecnt br" by blast
        then show ?thesis by simp
      qed (use True in simp)
    next
      case False
      show ?thesis
      proof (cases "y = t")
        case True
        with False eq have "etab br x = Some (ecnt br + 1)" by simp
        with e have "ecnt br + 1 \<le> ecnt br" by blast
        then show ?thesis by simp
      next
        case yf: False
        with False x y eq e show ?thesis by (auto dest: inj_onD)
      qed
    qed
  qed
  have b: "1 \<le> n \<and> n \<le> ecnt br + 1" if "((etab br)(t \<mapsto> ecnt br + 1)) u = Some n" for u n
  proof (cases "u = t")
    case True
    with that e show ?thesis by auto
  next
    case False
    with that have "etab br u = Some n" by simp
    with e have "1 \<le> n \<and> n \<le> ecnt br" by blast
    then show ?thesis by simp
  qed
  have c: "0 \<le> ecnt br + 1" "ecnt br + 1 \<le> LUA_MAXINTEGER"
    using e assms(3) by (simp_all add: LUA_MAXINTEGER_def)
  show "einv (br\<lparr>ecnt := ecnt br + 1, etab := (etab br)(t \<mapsto> ecnt br + 1)\<rparr>)"
    unfolding einv_def using inj b c by simp
  show "etab br \<subseteq>\<^sub>m etab (br\<lparr>ecnt := ecnt br + 1, etab := (etab br)(t \<mapsto> ecnt br + 1)\<rparr>)"
    using assms(2) by (auto simp: map_le_def)
qed

lemma wire_einv:
  "wire env h stk br v bs br' \<Longrightarrow> einv br \<Longrightarrow>
     einv br' \<and> etab br \<subseteq>\<^sub>m etab br' \<and> refs_ok br' v"
  "wire_pairs env h stk br narr nrec es ps br' narr' nrec' \<Longrightarrow> einv br \<Longrightarrow>
     einv br' \<and> etab br \<subseteq>\<^sub>m etab br'
     \<and> (\<forall>p\<in>set es. kept p \<longrightarrow> refs_ok br' (fst p) \<and> refs_ok br' (snd p))"
proof (induction rule: wire_wire_pairs.inducts)
  case (w_table env stk br t h ps br' narr nrec)
  let ?br1 = "br\<lparr>ecnt := ecnt br + 1, etab := (etab br)(t \<mapsto> ecnt br + 1)\<rparr>"
  note n = einv_new[OF w_table.prems w_table.hyps(2,3)]
  from w_table.IH[OF n(1)] have i: "einv br'" "etab ?br1 \<subseteq>\<^sub>m etab br'" by blast+
  from n(2) i(2) have m: "etab br \<subseteq>\<^sub>m etab br'" by (rule map_le_trans)
  have "etab ?br1 t = Some (ecnt br + 1)" by simp
  with i(2) have "etab br' t = Some (ecnt br + 1)" by (auto simp: map_le_def dom_def)
  with i m show ?case by simp
next
  case (wp_cons kv env narr nrec na nr h stk br ks br1 vs br2 es ps br' narr' nrec')
  from wp_cons.IH(1)[OF wp_cons.prems] have 1: "einv br1" "etab br \<subseteq>\<^sub>m etab br1"
    "refs_ok br1 (fst kv)" by simp_all
  from wp_cons.IH(2)[OF 1(1)] have 2: "einv br2" "etab br1 \<subseteq>\<^sub>m etab br2"
    "refs_ok br2 (snd kv)" by simp_all
  from wp_cons.IH(3)[OF 2(1)] have 3: "einv br'" "etab br2 \<subseteq>\<^sub>m etab br'"
    "\<forall>p\<in>set es. kept p \<longrightarrow> refs_ok br' (fst p) \<and> refs_ok br' (snd p)" by simp_all
  have m: "etab br \<subseteq>\<^sub>m etab br'" using 1(2) 2(2) 3(2) by (blast intro: map_le_trans)
  have "refs_ok br' (fst kv)" using 1(3) 2(2) 3(2) by (blast intro: refs_ok_mono map_le_trans)
  moreover have "refs_ok br' (snd kv)" using 2(3) 3(2) by (blast intro: refs_ok_mono)
  ultimately show ?case using 3 m by simp
next
  case (wp_skip kv env h stk br narr nrec es ps br' narr' nrec')
  then show ?case by (auto simp: kept_def)
next
  case (w_ref env stk br t n h)
  then show ?case by simp
qed simp_all

lemma wire_pairs_counts:
  "wire env h stk br v bs br' \<Longrightarrow> True"
  "wire_pairs env h stk br narr nrec es ps br' narr' nrec' \<Longrightarrow>
     narr' + nrec' = narr + nrec + length (filter kept es)
     \<and> (narr \<le> INT64_MAX \<and> nrec \<le> INT64_MAX \<longrightarrow> narr' \<le> INT64_MAX \<and> nrec' \<le> INT64_MAX)"
proof (induction rule: wire_wire_pairs.inducts)
  case (wp_cons kv env narr nrec na nr h stk br ks br1 vs br2 es ps br' narr' nrec')
  from wp_cons.hyps(2) have "na + nr = narr + nrec + 1
      \<and> (narr \<le> INT64_MAX \<and> nrec \<le> INT64_MAX \<longrightarrow> na \<le> INT64_MAX \<and> nr \<le> INT64_MAX)"
    by (auto simp: classify_def split: if_splits)
  with wp_cons.IH(3) wp_cons.hyps(1) show ?case by (simp add: kept_def)
next
  case (wp_skip kv env h stk br narr nrec es ps br' narr' nrec')
  then show ?case by (auto simp: kept_def)
qed simp_all

section \<open>Decoding what the encoder wrote\<close>

text \<open>
  \<open>hasb bf bs\<close>: the bytes \<open>bs\<close> stand in the buffer at its position, before \<open>len\<close>.
  \<open>adv s n\<close> is the decoder state \<open>s\<close> with the position moved on by \<open>n\<close>.
\<close>

definition hasb :: "memcached_buffer \<Rightarrow> byte list \<Rightarrow> bool" where
  "hasb bf bs = (pos bf + length bs \<le> len bf \<and> len bf \<le> SIZE_MAX
                 \<and> read_bytes (bytes bf) (pos bf) (length bs) = bs)"

definition adv :: "dstate \<Rightarrow> nat \<Rightarrow> dstate" where
  "adv s n = s\<lparr>d_buf := (d_buf s)\<lparr>pos := pos (d_buf s) + n\<rparr>\<rparr>"

lemma adv_simps [simp]:
  "d_heap (adv s n) = d_heap s" "d_br (adv s n) = d_br s"
  "pos (d_buf (adv s n)) = pos (d_buf s) + n" "len (d_buf (adv s n)) = len (d_buf s)"
  "bytes (d_buf (adv s n)) = bytes (d_buf s)" "capacity (d_buf (adv s n)) = capacity (d_buf s)"
  by (simp_all add: adv_def)

lemma adv_adv [simp]: "adv (adv s a) b = adv s (a + b)"
  by (simp add: adv_def add.assoc)

lemma adv_0 [simp]: "adv s 0 = s"
  by (simp add: adv_def)

lemma adv_heap [simp]: "adv (s\<lparr>d_heap := x\<rparr>) n = (adv s n)\<lparr>d_heap := x\<rparr>"
  by (simp add: adv_def)

lemma hasb_append:
  "hasb (d_buf s) (xs @ ys) \<Longrightarrow> hasb (d_buf s) xs \<and> hasb (d_buf (adv s (length xs))) ys"
  by (auto simp: hasb_def read_bytes_add add.assoc)

lemma hasb_Cons:
  "hasb (d_buf s) (x # ys) \<Longrightarrow> hasb (d_buf s) [x] \<and> hasb (d_buf (adv s 1)) ys"
  using hasb_append[of s "[x]" ys] by simp

lemma read_n_hasb:
  "hasb (d_buf s) bs \<Longrightarrow> read_n s (length bs) = (Inr bs, adv s (length bs))"
  by (auto simp: hasb_def read_n_def buffer_avail_def adv_def)

lemma read_n_hasb':
  "hasb (d_buf s) bs \<Longrightarrow> n = length bs \<Longrightarrow> read_n s n = (Inr bs, adv s n)"
  by (simp add: read_n_hasb)

lemma wire_type_tags [simp]:
  "wire_type LUA_TBOOLEAN = Some T_BOOLEAN"
  "wire_type MEMCACHED_TYPE_BOOLEANTRRUE = Some T_BOOLEANTRUE"
  "wire_type LUA_TNUMBER = Some T_NUMBER"
  "wire_type MEMCACHED_TYPE_INTEGER = Some T_INTEGER"
  "wire_type LUA_TSTRING = Some T_STRING"
  "wire_type MEMCACHED_TYPE_STRINGSHORT = Some T_STRINGSHORT"
  "wire_type MEMCACHED_TYPE_TABLEREF = Some T_TABLEREF"
  "wire_type (table_tag 1) = Some T_TABLE8"
  "wire_type (table_tag 2) = Some T_TABLE16"
  "wire_type (table_tag 4) = Some T_TABLE32"
  "wire_type (table_tag 8) = Some T_TABLE64"
  by (simp_all add: wire_type_def table_tag_def LUA_TBOOLEAN_def MEMCACHED_TYPE_BOOLEANTRRUE_def
        LUA_TNUMBER_def MEMCACHED_TYPE_INTEGER_def LUA_TSTRING_def MEMCACHED_TYPE_STRINGSHORT_def
        MEMCACHED_TYPE_TABLEREF_def MEMCACHED_TYPE_TABLE8_def MEMCACHED_TYPE_TABLE16_def
        MEMCACHED_TYPE_TABLE32_def MEMCACHED_TYPE_TABLE64_def LUA_TTABLE_def)

lemma decode_switch_hasb:
  assumes "hasb (d_buf s) (tag # rest)" and "wire_type tag = Some ty"
  shows "decode_switch env s = decode_case env ty (adv s 1)" "hasb (d_buf (adv s 1)) rest"
proof -
  from hasb_Cons[OF assms(1)] have 1: "hasb (d_buf s) [tag]" and 2: "hasb (d_buf (adv s 1)) rest"
    by simp_all
  from read_n_hasb[OF 1] assms(2) show "decode_switch env s = decode_case env ty (adv s 1)"
    by (simp add: decode_switch_def)
  show "hasb (d_buf (adv s 1)) rest" by (rule 2)
qed

lemma decode_bool:
  "hasb (d_buf s) [if x then MEMCACHED_TYPE_BOOLEANTRRUE else LUA_TBOOLEAN] \<Longrightarrow>
   decode env stk s = (Inr (VBool x), adv s 1)"
  by (cases x) (simp_all add: decode.simps decode_switch_hasb(1)[where rest = "[]"])

lemma decode_int:
  assumes "hasb (d_buf s) (MEMCACHED_TYPE_INTEGER # htobe64 i)"
  shows "decode env stk s = (Inr (VInt i), adv s 9)"
proof -
  note d = decode_switch_hasb[OF assms wire_type_tags(4)]
  from read_n_hasb'[OF d(2), of 8] have "read_n (adv s 1) 8 = (Inr (htobe64 i), adv s 9)" by simp
  with d(1) show ?thesis by (simp add: decode.simps)
qed

lemma decode_float:
  assumes "hasb (d_buf s) (LUA_TNUMBER # double_bytes env d)"
  shows "decode env stk s = (Inr (VFloat d), adv s 9)"
proof -
  note d = decode_switch_hasb[OF assms wire_type_tags(3)]
  from read_n_hasb'[OF d(2), of 8] have "read_n (adv s 1) 8 = (Inr (double_bytes env d), adv s 9)"
    by simp
  with d(1) show ?thesis by (simp add: decode.simps)
qed

lemma decode_short:
  assumes "hasb (d_buf s) (MEMCACHED_TYPE_STRINGSHORT # of_nat (length str) # str)"
    and "length str \<le> 255"
  shows "decode env stk s = (Inr (VStr str), adv s (2 + length str))"
proof -
  note d = decode_switch_hasb[OF assms(1) wire_type_tags(6)]
  from hasb_Cons[OF d(2)] have 1: "hasb (d_buf (adv s 1)) [of_nat (length str)]"
    and 2: "hasb (d_buf (adv s 2)) str" by (simp_all add: numeral_2_eq_2)
  have u: "unat (of_nat (length str) :: byte) = length str"
    using assms(2) by (simp add: unat_of_nat)
  from read_n_hasb'[OF 1, of 1]
  have r1: "read_n (adv s 1) 1 = (Inr [of_nat (length str)], adv s 2)" by simp
  from read_n_hasb[OF 2]
  have r2: "read_n (adv s 2) (length str) = (Inr str, adv s (2 + length str))" by simp
  from d(1) r1 r2 u show ?thesis by (simp add: decode.simps)
qed

lemma decode_long:
  assumes "hasb (d_buf s) (LUA_TSTRING # htobe64 (of_nat (length str)) @ str)"
    and "length str \<le> UINT64_MAX - (1 + 8)"
  shows "decode env stk s = (Inr (VStr str), adv s (9 + length str))"
proof -
  note d = decode_switch_hasb[OF assms(1) wire_type_tags(5)]
  from hasb_append[OF d(2)] have 1: "hasb (d_buf (adv s 1)) (htobe64 (of_nat (length str)))"
    and 2: "hasb (d_buf (adv s 9)) str" by simp_all
  have u: "unat (of_nat (length str) :: 64 word) = length str"
    using assms(2) by (simp add: unat_of_nat UINT64_MAX_def)
  from read_n_hasb'[OF 1, of 8]
  have r1: "read_n (adv s 1) 8 = (Inr (htobe64 (of_nat (length str))), adv s 9)" by simp
  from read_n_hasb[OF 2]
  have r2: "read_n (adv s 9) (length str) = (Inr str, adv s (9 + length str))" by simp
  from d(1) r1 r2 u show ?thesis by (simp add: decode.simps)
qed

lemma sint_of_int_64: "- (2 ^ 63) \<le> n \<Longrightarrow> n < 2 ^ 63 \<Longrightarrow> sint (of_int n :: 64 word) = n"
  by (simp only: sint_sbintrunc') (rule signed_take_bit_int_eq_self, simp_all)

lemma decode_ref:
  assumes "hasb (d_buf s) (MEMCACHED_TYPE_TABLEREF # htobe64 (of_int n))"
    and "1 \<le> n" and "n \<le> LUA_MAXINTEGER" and "dtab (d_br s) n = Some t'"
  shows "decode env stk s = (Inr (VTable t'), adv s 9)"
proof -
  note d = decode_switch_hasb[OF assms(1) wire_type_tags(7)]
  from read_n_hasb'[OF d(2), of 8]
  have r: "read_n (adv s 1) 8 = (Inr (htobe64 (of_int n)), adv s 9)" by simp
  have "sint (of_int n :: 64 word) = n"
    using assms(2,3) by (intro sint_of_int_64) (simp_all add: LUA_MAXINTEGER_def)
  with d(1) r assms(4) show ?thesis by (simp add: decode.simps)
qed

lemma decode_pairs_0 [simp]: "decode_pairs env sp t s 0 = (Inr (), s)"
  by (simp add: decode_pairs.simps)

lemma decode_pairs_Suc:
  "decode_pairs env sp t s (Suc n) =
     (case decode env sp s of
        (Inl e, s1) \<Rightarrow> (Inl e, s1)
      | (Inr k, s1) \<Rightarrow>
          (case decode env (sp + 1) s1 of
             (Inl e, s2) \<Rightarrow> (Inl e, s2)
           | (Inr v, s2) \<Rightarrow>
               (case lua_rawset env (d_heap s2) t k v of
                  Inl e \<Rightarrow> (Inl e, s2)
                | Inr h' \<Rightarrow> decode_pairs env sp t (s2\<lparr>d_heap := h'\<rparr>) n)))"
  by (subst decode_pairs.simps) (simp split: prod.splits sum.splits)

lemma decode_pairs_add:
  "decode_pairs env sp t s (a + b) =
     (case decode_pairs env sp t s a of
        (Inl e, s1) \<Rightarrow> (Inl e, s1)
      | (Inr u, s1) \<Rightarrow> decode_pairs env sp t s1 b)"
proof (induction a arbitrary: s)
  case 0
  then show ?case by simp
next
  case (Suc a)
  show ?case
    by (simp add: decode_pairs_Suc Suc.IH split: prod.splits sum.splits)
qed

lemma decodetable_sum:
  "lua_checkstack env stk 3 \<Longrightarrow>
   decodetable env stk s narr nrec =
     (case decode_pairs env (stk + 1) (length (d_heap s)) (newtable s) (narr + nrec) of
        (Inl e, s3) \<Rightarrow> (Inl e, s3)
      | (Inr u, s3) \<Rightarrow> (Inr (VTable (length (d_heap s))), s3))"
  by (simp add: decodetable_newtable decode_pairs_add split: prod.splits sum.splits)

lemma unat_be_bytes:
  "v < 256 ^ n \<Longrightarrow> LENGTH('a::len) = 8 * n \<Longrightarrow> unat (of_nat (be_nat (be_bytes n v)) :: 'a word) = v"
proof -
  assume a: "v < 256 ^ n" and l: "LENGTH('a) = 8 * n"
  have "(256::nat) ^ n = 2 ^ (8 * n)" by (simp add: power_mult)
  with a l have "v < 2 ^ LENGTH('a)" by simp
  with a show ?thesis by (simp add: be_nat_be_bytes unat_of_nat)
qed

lemma decode_header:
  assumes "hasb (d_buf s) (table_tag (size_class narr nrec) # be_bytes (size_class narr nrec) narr
                             @ be_bytes (size_class narr nrec) nrec @ ps)"
    and "narr \<le> INT64_MAX" and "nrec \<le> INT64_MAX"
  shows "decode_switch env s = (Inr (HTable narr nrec), adv s (1 + 2 * size_class narr nrec))"
    "hasb (d_buf (adv s (1 + 2 * size_class narr nrec))) ps"
proof -
  let ?w = "size_class narr nrec"
  have w: "?w = 1 \<and> narr < 256 \<and> nrec < 256 \<or> ?w = 2 \<and> narr < 65536 \<and> nrec < 65536
        \<or> ?w = 4 \<and> narr < 4294967296 \<and> nrec < 4294967296 \<or> ?w = 8"
    by (simp add: size_class_def)
  then have ty: "\<exists>ty. wire_type (table_tag ?w) = Some ty"
    by (metis wire_type_tags(8,9,10,11))
  then obtain ty where ty: "wire_type (table_tag ?w) = Some ty" ..
  note d = decode_switch_hasb[OF assms(1) ty]
  have "hasb (d_buf (adv s 1)) ((be_bytes ?w narr @ be_bytes ?w nrec) @ ps)" using d(2) by simp
  from hasb_append[OF this]
  have 1: "hasb (d_buf (adv s 1)) (be_bytes ?w narr @ be_bytes ?w nrec)"
    and 2: "hasb (d_buf (adv s (1 + 2 * ?w))) ps" by (simp_all add: mult_2)
  from read_n_hasb'[OF 1, of "?w + ?w"]
  have r: "read_n (adv s 1) (?w + ?w)
             = (Inr (be_bytes ?w narr @ be_bytes ?w nrec), adv s (1 + 2 * ?w))"
    by (simp add: mult_2)
  show "hasb (d_buf (adv s (1 + 2 * ?w))) ps" by (rule 2)
  from w consider (1) "?w = 1" "narr < 256" "nrec < 256"
    | (2) "?w = 2" "narr < 65536" "nrec < 65536"
    | (4) "?w = 4" "narr < 4294967296" "nrec < 4294967296" | (8) "?w = 8" by blast
  then show "decode_switch env s = (Inr (HTable narr nrec), adv s (1 + 2 * ?w))"
  proof cases
    case 1
    have t: "ty = T_TABLE8" using ty[unfolded 1(1)] wire_type_tags(8) by simp
    have u: "unat (of_nat narr :: byte) = narr" "unat (of_nat nrec :: byte) = nrec"
      using 1 by (simp_all add: unat_of_nat)
    from r 1 have "read_n (adv s 1) (1 + 1) = (Inr [of_nat narr, of_nat nrec], adv s 3)"
      by simp
    with d(1) t u 1 show ?thesis by simp
  next
    case 2
    have t: "ty = T_TABLE16" using ty[unfolded 2(1)] wire_type_tags(9) by simp
    have u: "unat (be16toh (be_bytes 2 narr)) = narr" "unat (be16toh (be_bytes 2 nrec)) = nrec"
      unfolding be16toh_def using 2 by (simp_all add: unat_be_bytes)
    from r 2 have "read_n (adv s 1) (2 + 2) = (Inr (be_bytes 2 narr @ be_bytes 2 nrec), adv s 5)"
      by simp
    with d(1) t u 2 show ?thesis by simp
  next
    case 4
    have t: "ty = T_TABLE32" using ty[unfolded 4(1)] wire_type_tags(10) by simp
    have u: "unat (be32toh (be_bytes 4 narr)) = narr" "unat (be32toh (be_bytes 4 nrec)) = nrec"
      unfolding be32toh_def using 4 by (simp_all add: unat_be_bytes)
    from r 4 have "read_n (adv s 1) (4 + 4) = (Inr (be_bytes 4 narr @ be_bytes 4 nrec), adv s 9)"
      by simp
    with d(1) t u 4 show ?thesis by simp
  next
    case 8
    have t: "ty = T_TABLE64" using ty[unfolded 8(1)] wire_type_tags(11) by simp
    have b: "narr < 256 ^ 8" "nrec < 256 ^ 8" using assms(2,3) by (simp_all add: INT64_MAX_def)
    have u: "unat (be64toh (be_bytes 8 narr)) = narr" "unat (be64toh (be_bytes 8 nrec)) = nrec"
      unfolding be64toh_def using b by (simp_all add: unat_be_bytes)
    have e: "be64toh (be_bytes 8 narr) = of_nat narr" "be64toh (be_bytes 8 nrec) = of_nat nrec"
      unfolding be64toh_def using b by (simp_all add: be_nat_be_bytes)
    have sg: "sint (of_nat narr :: 64 word) = int narr" "sint (of_nat nrec :: 64 word) = int nrec"
      using assms(2,3) by (simp_all add: sint_of_nat_64 INT64_MAX_def)
    from r 8 have "read_n (adv s 1) (8 + 8) = (Inr (be_bytes 8 narr @ be_bytes 8 nrec), adv s 17)"
      by simp
    with d(1) t u 8 e sg show ?thesis by simp
  qed
qed

text \<open>
  The tables of the value that is encoded and the tables that the decoder creates correspond
  through the ordinals: \<open>sigma br s t\<close> is the decoder's table for the encoder's table \<open>t\<close>,
  \<open>tr\<close> translates a value and \<open>tre\<close> the entries of a table. \<open>jinv\<close> is what holds of the
  two tables of back-references when the decoder has read what the encoder had written at
  that point; \<open>b\<close> is the length of the heap in which the decoder started.
\<close>

definition sigma :: "backref_enc \<Rightarrow> dstate \<Rightarrow> nat \<Rightarrow> nat option" where
  "sigma br s t = (case etab br t of None \<Rightarrow> None | Some n \<Rightarrow> dtab (d_br s) n)"

definition tr :: "backref_enc \<Rightarrow> dstate \<Rightarrow> lvalue \<Rightarrow> lvalue" where
  "tr br s v =
     (case v of
        VTable t \<Rightarrow> (case sigma br s t of Some t' \<Rightarrow> VTable t' | None \<Rightarrow> VNil)
      | _ \<Rightarrow> v)"

definition tre :: "backref_enc \<Rightarrow> dstate \<Rightarrow> ltable \<Rightarrow> ltable" where
  "tre br s es = map (map_prod (tr br s) (tr br s)) es"

definition jinv :: "nat \<Rightarrow> backref_enc \<Rightarrow> dstate \<Rightarrow> bool" where
  "jinv b br s =
     (einv br \<and> dcnt (d_br s) = ecnt br \<and> b \<le> length (d_heap s)
      \<and> (\<forall>n. (\<exists>t'. dtab (d_br s) n = Some t') \<longleftrightarrow> (1 \<le> n \<and> n \<le> ecnt br))
      \<and> (\<forall>n t'. dtab (d_br s) n = Some t' \<longrightarrow> b \<le> t' \<and> t' < length (d_heap s))
      \<and> inj_on (dtab (d_br s)) (dom (dtab (d_br s))))"

definition extx :: "nat set \<Rightarrow> backref_enc \<Rightarrow> dstate \<Rightarrow> backref_enc \<Rightarrow> dstate \<Rightarrow> bool" where
  "extx X br s br' s' =
     (etab br \<subseteq>\<^sub>m etab br' \<and> dtab (d_br s) \<subseteq>\<^sub>m dtab (d_br s')
      \<and> length (d_heap s) \<le> length (d_heap s')
      \<and> (\<forall>i<length (d_heap s). i \<notin> X \<longrightarrow> d_heap s' ! i = d_heap s ! i)
      \<and> (\<forall>t n t'. etab br t = None \<and> etab br' t = Some n \<and> dtab (d_br s') n = Some t' \<longrightarrow>
            length (d_heap s) \<le> t'))"

definition complete :: "heap \<Rightarrow> backref_enc \<Rightarrow> dstate \<Rightarrow> nat \<Rightarrow> bool" where
  "complete h br s t =
     (\<exists>t'. sigma br s t = Some t'
          \<and> d_heap s ! t' = tre br s (filter kept (entries h t))
          \<and> (\<forall>p\<in>set (filter kept (entries h t)). refs_ok br (fst p) \<and> refs_ok br (snd p)))"

definition prog ::
  "nat set \<Rightarrow> heap \<Rightarrow> nat \<Rightarrow> backref_enc \<Rightarrow> dstate \<Rightarrow> backref_enc \<Rightarrow> dstate \<Rightarrow> bool" where
  "prog X h b br s br' s' =
     (jinv b br' s' \<and> extx X br s br' s'
      \<and> (\<forall>t. etab br t = None \<and> etab br' t \<noteq> None \<longrightarrow> complete h br' s' t))"

lemma tr_simps [simp]:
  "tr br s VNil = VNil" "tr br s (VBool x) = VBool x" "tr br s (VInt i) = VInt i"
  "tr br s (VFloat w) = VFloat w" "tr br s (VStr str) = VStr str" "tr br s (VOther z) = VOther z"
  by (simp_all add: tr_def)

lemma sigma_adv [simp]: "sigma br (adv s n) = sigma br s"
  by (simp add: sigma_def fun_eq_iff split: option.splits)

lemma sigma_heap [simp]: "sigma br (s\<lparr>d_heap := x\<rparr>) = sigma br s"
  by (simp add: sigma_def fun_eq_iff split: option.splits)

lemma tr_adv [simp]: "tr br (adv s n) = tr br s"
  by (simp add: tr_def fun_eq_iff split: lvalue.splits)

lemma tr_heap [simp]: "tr br (s\<lparr>d_heap := x\<rparr>) = tr br s"
  by (simp add: tr_def fun_eq_iff split: lvalue.splits)

lemma tre_heap [simp]: "tre br (s\<lparr>d_heap := x\<rparr>) = tre br s"
  by (simp add: tre_def fun_eq_iff)

lemma jinv_adv [simp]: "jinv b br (adv s n) = jinv b br s"
  by (simp add: jinv_def)

lemma jinv_sigma:
  assumes "jinv b br s" and "etab br t = Some n"
  shows "\<exists>t'. sigma br s t = Some t' \<and> dtab (d_br s) n = Some t' \<and> b \<le> t' \<and> t' < length (d_heap s)"
proof -
  note j = assms(1)[unfolded jinv_def einv_def]
  from j assms(2) have "1 \<le> n \<and> n \<le> ecnt br" by blast
  with j obtain t' where "dtab (d_br s) n = Some t'" by blast
  with j assms(2) show ?thesis by (auto simp: sigma_def)
qed

lemma sigma_mono:
  assumes "jinv b br s" and "etab br \<subseteq>\<^sub>m etab br'" and "dtab (d_br s) \<subseteq>\<^sub>m dtab (d_br s')"
    and "etab br t \<noteq> None"
  shows "sigma br' s' t = sigma br s t"
proof -
  from assms(4) obtain n where n: "etab br t = Some n" by auto
  from jinv_sigma[OF assms(1) n] obtain t' where t: "sigma br s t = Some t'"
    "dtab (d_br s) n = Some t'" by blast
  from assms(2) n have "etab br' t = Some n" by (auto simp: map_le_def dom_def)
  moreover from assms(3) t(2) have "dtab (d_br s') n = Some t'" by (auto simp: map_le_def dom_def)
  ultimately show ?thesis using t(1) by (simp add: sigma_def)
qed

lemma tr_mono:
  assumes "jinv b br s" and "etab br \<subseteq>\<^sub>m etab br'" and "dtab (d_br s) \<subseteq>\<^sub>m dtab (d_br s')"
    and "refs_ok br v"
  shows "tr br' s' v = tr br s v"
  using sigma_mono[OF assms(1,2,3)] assms(4) by (cases v) (simp_all add: tr_def)

lemma tre_mono:
  assumes "jinv b br s" and "etab br \<subseteq>\<^sub>m etab br'" and "dtab (d_br s) \<subseteq>\<^sub>m dtab (d_br s')"
    and "\<forall>p\<in>set es. refs_ok br (fst p) \<and> refs_ok br (snd p)"
  shows "tre br' s' es = tre br s es"
  unfolding tre_def using tr_mono[OF assms(1,2,3)] assms(4) by (auto simp: map_prod_def split: prod.splits)

lemma sigma_inj:
  assumes "jinv b br s" and "sigma br s t = Some x" and "sigma br s u = Some x"
  shows "t = u"
proof -
  note j = assms(1)[unfolded jinv_def einv_def]
  from assms(2) obtain n where n: "etab br t = Some n" "dtab (d_br s) n = Some x"
    by (auto simp: sigma_def split: option.splits)
  from assms(3) obtain m where m: "etab br u = Some m" "dtab (d_br s) m = Some x"
    by (auto simp: sigma_def split: option.splits)
  from j n(2) m(2) have "n = m" by (auto dest!: inj_onD[where x = n and y = m])
  with j n(1) m(1) show ?thesis by (auto dest!: inj_onD[where x = t and y = u])
qed

lemma tr_table:
  assumes "jinv b br s" and "etab br t \<noteq> None"
  shows "\<exists>t'. tr br s (VTable t) = VTable t' \<and> sigma br s t = Some t'"
proof -
  from assms(2) obtain n where "etab br t = Some n" by auto
  from jinv_sigma[OF assms(1) this] show ?thesis by (auto simp: tr_def)
qed

lemma tr_inj:
  assumes "jinv b br s" and "refs_ok br x" and "refs_ok br y" and "tr br s x = tr br s y"
  shows "x = y"
proof (cases x)
  case (VTable t)
  with assms(2) tr_table[OF assms(1), of t] obtain t' where
    t: "tr br s x = VTable t'" "sigma br s t = Some t'" by auto
  show ?thesis
  proof (cases y)
    case y: (VTable u)
    with assms(3) tr_table[OF assms(1), of u] obtain u' where
      u: "tr br s y = VTable u'" "sigma br s u = Some u'" by auto
    from assms(4) t(1) u(1) have "t' = u'" by simp
    with sigma_inj[OF assms(1) t(2)] u(2) VTable y show ?thesis by simp
  qed (use assms(4) t(1) in simp_all)
next
  case VNil
  show ?thesis
  proof (cases y)
    case (VTable u)
    with assms(3) tr_table[OF assms(1), of u] obtain u' where "tr br s y = VTable u'" by auto
    with assms(4) VNil show ?thesis by simp
  qed (use assms(4) VNil in simp_all)
next
  case (VBool x1)
  show ?thesis
  proof (cases y)
    case (VTable u)
    with assms(3) tr_table[OF assms(1), of u] obtain u' where "tr br s y = VTable u'" by auto
    with assms(4) VBool show ?thesis by simp
  qed (use assms(4) VBool in simp_all)
next
  case (VInt x2)
  show ?thesis
  proof (cases y)
    case (VTable u)
    with assms(3) tr_table[OF assms(1), of u] obtain u' where "tr br s y = VTable u'" by auto
    with assms(4) VInt show ?thesis by simp
  qed (use assms(4) VInt in simp_all)
next
  case (VFloat x3)
  show ?thesis
  proof (cases y)
    case (VTable u)
    with assms(3) tr_table[OF assms(1), of u] obtain u' where "tr br s y = VTable u'" by auto
    with assms(4) VFloat show ?thesis by simp
  qed (use assms(4) VFloat in simp_all)
next
  case (VStr x4)
  show ?thesis
  proof (cases y)
    case (VTable u)
    with assms(3) tr_table[OF assms(1), of u] obtain u' where "tr br s y = VTable u'" by auto
    with assms(4) VStr show ?thesis by simp
  qed (use assms(4) VStr in simp_all)
next
  case (VOther x6)
  show ?thesis
  proof (cases y)
    case (VTable u)
    with assms(3) tr_table[OF assms(1), of u] obtain u' where "tr br s y = VTable u'" by auto
    with assms(4) VOther show ?thesis by simp
  qed (use assms(4) VOther in simp_all)
qed

lemma extx_refl: "extx X br s br s"
  by (auto simp: extx_def)

lemma prog_adv: "jinv b br s \<Longrightarrow> prog {} h b br s br (adv s n)"
  by (auto simp: prog_def extx_def)

lemma extx_trans:
  assumes "jinv b br1 s1" and "extx X br s br1 s1" and "extx Y br1 s1 br2 s2"
  shows "extx (X \<union> Y) br s br2 s2"
proof -
  note a = assms(2)[unfolded extx_def] and c = assms(3)[unfolded extx_def]
  have 1: "etab br \<subseteq>\<^sub>m etab br2" using a c by (blast intro: map_le_trans)
  have 2: "dtab (d_br s) \<subseteq>\<^sub>m dtab (d_br s2)" using a c by (blast intro: map_le_trans)
  have 3: "length (d_heap s) \<le> length (d_heap s2)" using a c by simp
  have 4: "d_heap s2 ! i = d_heap s ! i" if "i < length (d_heap s)" "i \<notin> X \<union> Y" for i
  proof -
    from that a have "d_heap s1 ! i = d_heap s ! i" by simp
    moreover from that a c have "d_heap s2 ! i = d_heap s1 ! i" by simp
    ultimately show ?thesis by simp
  qed
  have 5: "length (d_heap s) \<le> t'"
    if "etab br t = None \<and> etab br2 t = Some n \<and> dtab (d_br s2) n = Some t'" for t n t'
  proof (cases "etab br1 t")
    case None
    with that c have "length (d_heap s1) \<le> t'" by blast
    with a show ?thesis by simp
  next
    case (Some m)
    with c have "etab br2 t = Some m" by (auto simp: map_le_def dom_def)
    with that have mn: "m = n" by simp
    from jinv_sigma[OF assms(1) Some] obtain t1 where t1: "dtab (d_br s1) m = Some t1" by blast
    with c have "dtab (d_br s2) m = Some t1" by (auto simp: map_le_def dom_def)
    with that mn have "t1 = t'" by simp
    with a that Some mn t1 show ?thesis by blast
  qed
  show ?thesis unfolding extx_def using 1 2 3 4 5 by blast
qed

lemma complete_stable:
  assumes "complete h br1 s1 t" and "jinv b br1 s1" and "extx Y br1 s1 br2 s2"
    and "\<forall>t'. sigma br1 s1 t = Some t' \<longrightarrow> t' \<notin> Y"
  shows "complete h br2 s2 t"
proof -
  note c = assms(3)[unfolded extx_def]
  from assms(1) obtain t' where t: "sigma br1 s1 t = Some t'"
    and hp: "d_heap s1 ! t' = tre br1 s1 (filter kept (entries h t))"
    and r: "\<forall>p\<in>set (filter kept (entries h t)). refs_ok br1 (fst p) \<and> refs_ok br1 (snd p)"
    unfolding complete_def by blast
  from t obtain n where n: "etab br1 t = Some n"
    by (auto simp: sigma_def split: option.splits)
  from jinv_sigma[OF assms(2) n] t have tl: "t' < length (d_heap s1)" by auto
  have e: "etab br1 \<subseteq>\<^sub>m etab br2" "dtab (d_br s1) \<subseteq>\<^sub>m dtab (d_br s2)" using c by simp_all
  have 1: "sigma br2 s2 t = Some t'"
    using sigma_mono[OF assms(2) e, of t] n t by simp
  have 2: "d_heap s2 ! t' = d_heap s1 ! t'" using c tl assms(4) t by simp
  have 3: "tre br2 s2 (filter kept (entries h t)) = tre br1 s1 (filter kept (entries h t))"
    by (rule tre_mono[OF assms(2) e r])
  have 4: "\<forall>p\<in>set (filter kept (entries h t)). refs_ok br2 (fst p) \<and> refs_ok br2 (snd p)"
    using r e(1) by (blast intro: refs_ok_mono)
  show ?thesis unfolding complete_def using 1 2 3 4 hp by auto
qed

lemma prog_trans:
  assumes "prog X h b br s br1 s1" and "prog Y h b br1 s1 br2 s2"
    and "\<forall>y\<in>Y. y < length (d_heap s)"
  shows "prog (X \<union> Y) h b br s br2 s2"
proof -
  note a = assms(1)[unfolded prog_def] and c = assms(2)[unfolded prog_def]
  from a have j1: "jinv b br1 s1" by simp
  from a c have e: "extx (X \<union> Y) br s br2 s2" by (blast intro: extx_trans[OF j1])
  have "complete h br2 s2 t" if "etab br t = None \<and> etab br2 t \<noteq> None" for t
  proof (cases "etab br1 t")
    case None
    with that c show ?thesis by blast
  next
    case (Some n)
    with that a have c1: "complete h br1 s1 t" by auto
    have "t' \<notin> Y" if s: "sigma br1 s1 t = Some t'" for t'
    proof -
      from s Some have "dtab (d_br s1) n = Some t'" by (simp add: sigma_def)
      with a[unfolded extx_def] \<open>etab br t = None \<and> etab br2 t \<noteq> None\<close> Some
      have "length (d_heap s) \<le> t'" by blast
      with assms(3) show ?thesis by auto
    qed
    then show ?thesis using complete_stable[OF c1 j1] c by blast
  qed
  with c e show ?thesis unfolding prog_def by blast
qed

lemma prog_upd:
  assumes "jinv b br s" and "t0 < length (d_heap s)"
  shows "prog {t0} h b br s br (s\<lparr>d_heap := (d_heap s)[t0 := x]\<rparr>)"
  using assms unfolding prog_def extx_def jinv_def by auto

lemma jinv_newtable:
  assumes "jinv b br s" and "etab br t = None" and "ecnt br \<noteq> LUA_MAXINTEGER"
  shows "jinv b (br\<lparr>ecnt := ecnt br + 1, etab := (etab br)(t \<mapsto> ecnt br + 1)\<rparr>) (newtable s)"
    "sigma (br\<lparr>ecnt := ecnt br + 1, etab := (etab br)(t \<mapsto> ecnt br + 1)\<rparr>) (newtable s) t
       = Some (length (d_heap s))"
    "dtab (d_br s) \<subseteq>\<^sub>m dtab (d_br (newtable s))"
proof -
  let ?br1 = "br\<lparr>ecnt := ecnt br + 1, etab := (etab br)(t \<mapsto> ecnt br + 1)\<rparr>"
  note j = assms(1)[unfolded jinv_def]
  from j have e: "einv br" and dc: "dcnt (d_br s) = ecnt br" by simp_all
  note n = einv_new[OF e assms(2,3)]
  have nd: "dtab (d_br s) (ecnt br + 1) = None"
  proof (cases "dtab (d_br s) (ecnt br + 1)")
    case (Some a)
    with j have "ecnt br + 1 \<le> ecnt br" by blast
    then show ?thesis by simp
  qed simp
  show s3: "dtab (d_br s) \<subseteq>\<^sub>m dtab (d_br (newtable s))"
    using nd dc by (auto simp: newtable_def map_le_def)
  show "sigma ?br1 (newtable s) t = Some (length (d_heap s))"
    using dc by (simp add: sigma_def newtable_def)
  have d: "dtab (d_br (newtable s)) = (dtab (d_br s))(ecnt br + 1 \<mapsto> length (d_heap s))"
    using dc by (simp add: newtable_def)
  have 1: "(\<exists>t'. dtab (d_br (newtable s)) n = Some t') \<longleftrightarrow> (1 \<le> n \<and> n \<le> ecnt ?br1)" for n
  proof (cases "n = ecnt br + 1")
    case True
    then show ?thesis using e by (simp add: d einv_def)
  next
    case False
    then have "(\<exists>t'. dtab (d_br (newtable s)) n = Some t') \<longleftrightarrow> (\<exists>t'. dtab (d_br s) n = Some t')"
      by (simp add: d)
    also have "\<dots> \<longleftrightarrow> (1 \<le> n \<and> n \<le> ecnt br)" using j by blast
    finally show ?thesis using False by auto
  qed
  have 2: "b \<le> t' \<and> t' < length (d_heap (newtable s))"
    if "dtab (d_br (newtable s)) n = Some t'" for n t'
  proof (cases "n = ecnt br + 1")
    case True
    with that j show ?thesis by (simp add: d newtable_def)
  next
    case False
    with that have "dtab (d_br s) n = Some t'" by (simp add: d)
    with j have "b \<le> t' \<and> t' < length (d_heap s)" by blast
    then show ?thesis by (simp add: newtable_def)
  qed
  have 3: "inj_on (dtab (d_br (newtable s))) (dom (dtab (d_br (newtable s))))"
  proof (rule inj_onI)
    fix x y
    assume x: "x \<in> dom (dtab (d_br (newtable s)))" and y: "y \<in> dom (dtab (d_br (newtable s)))"
      and eq: "dtab (d_br (newtable s)) x = dtab (d_br (newtable s)) y"
    have old: "t' < length (d_heap s)" if "dtab (d_br s) m = Some t'" for m t'
      using j that by blast
    show "x = y"
    proof (cases "x = ecnt br + 1")
      case True
      show ?thesis
      proof (cases "y = ecnt br + 1")
        case False
        with True eq have "dtab (d_br s) y = Some (length (d_heap s))" by (simp add: d)
        from old[OF this] show ?thesis by simp
      qed (use True in simp)
    next
      case False
      show ?thesis
      proof (cases "y = ecnt br + 1")
        case True
        with False eq have "dtab (d_br s) x = Some (length (d_heap s))" by (simp add: d)
        from old[OF this] show ?thesis by simp
      next
        case yf: False
        with False x y eq j show ?thesis by (auto simp: d dest: inj_onD)
      qed
    qed
  qed
  show "jinv b ?br1 (newtable s)"
    unfolding jinv_def using n(1) dc j 1 2 3 by (simp add: newtable_def)
qed

text \<open>
  A heap as Lua keeps it: the keys of a table are distinct, each key is one that
  \<^verbatim>\<open>lua_rawset\<close> stores as it is (not nil, not a NaN, not a float with an integer value),
  and a reference to a table is a reference to a table of the heap.
\<close>

definition in_heap :: "heap \<Rightarrow> lvalue \<Rightarrow> bool" where
  "in_heap h v = (case v of VTable t \<Rightarrow> t < length h | _ \<Rightarrow> True)"

definition wfh :: "lua_env \<Rightarrow> heap \<Rightarrow> bool" where
  "wfh env h = (\<forall>t<length h. distinct (map fst (h ! t))
                  \<and> (\<forall>p\<in>set (h ! t). normkey env (fst p) = Inr (fst p)
                         \<and> in_heap h (fst p) \<and> in_heap h (snd p)))"

lemma wfh_entries:
  "wfh env h \<Longrightarrow> distinct (map fst (entries h t))
     \<and> (\<forall>p\<in>set (entries h t). normkey env (fst p) = Inr (fst p)
            \<and> in_heap h (fst p) \<and> in_heap h (snd p))"
proof (cases "t < length h")
  case True
  then have e: "entries h t = h ! t" by (simp add: entries_def)
  assume "wfh env h"
  with True show ?thesis unfolding e wfh_def by blast
next
  case False
  then show ?thesis by (simp add: entries_def)
qed

lemma tset_new: "k \<notin> fst ` set es \<Longrightarrow> tset es k v = es @ [(k, v)]"
  by (induction es) auto

lemma prog_mono: "prog X h b br s br' s' \<Longrightarrow> X \<subseteq> Y \<Longrightarrow> prog Y h b br s br' s'"
  unfolding prog_def extx_def by blast

lemma adv_buf: "d_buf s1 = d_buf (adv s a) \<Longrightarrow> d_buf (adv s1 c) = d_buf (adv s (a + c))"
  by (simp add: adv_def add.assoc)

lemma newtable_simps [simp]:
  "d_buf (newtable s) = d_buf s" "d_heap (newtable s) = d_heap s @ [[]]"
  by (simp_all add: newtable_def)

lemma adv_newtable: "d_buf (adv (newtable s) n) = d_buf (adv s n)"
  by (simp add: adv_def)

lemma tr_supported:
  assumes "jinv b br s" and "refs_ok br v" and "supported v"
  shows "tr br s v \<noteq> VNil" "normkey env v = Inr v \<Longrightarrow> normkey env (tr br s v) = Inr (tr br s v)"
proof -
  show "tr br s v \<noteq> VNil"
  proof (cases v)
    case (VTable t)
    with assms(2) tr_table[OF assms(1), of t] show ?thesis by auto
  qed (use assms(3) in simp_all)
  show "normkey env v = Inr v \<Longrightarrow> normkey env (tr br s v) = Inr (tr br s v)"
  proof (cases v)
    case (VTable t)
    with assms(2) tr_table[OF assms(1), of t] show ?thesis by (auto simp: normkey_def)
  qed simp_all
qed

lemma rawset_append:
  assumes "jinv b br s" and "t0 < length (d_heap s)"
    and "d_heap s ! t0 = tre br s P"
    and "\<forall>p\<in>set P. refs_ok br (fst p) \<and> refs_ok br (snd p)"
    and "refs_ok br k" and "refs_ok br v" and "supported k" and "supported v"
    and "normkey env k = Inr k" and "k \<notin> fst ` set P"
  shows "lua_rawset env (d_heap s) t0 (tr br s k) (tr br s v)
           = Inr ((d_heap s)[t0 := tre br s (P @ [(k, v)])])"
proof -
  have nk: "normkey env (tr br s k) = Inr (tr br s k)"
    by (rule tr_supported(2)[OF assms(1,5,7,9)])
  have nv: "tr br s v \<noteq> VNil" by (rule tr_supported(1)[OF assms(1,6,8)])
  have en: "entries (d_heap s) t0 = tre br s P" using assms(2,3) by (simp add: entries_def)
  have "tr br s k \<notin> fst ` set (tre br s P)"
  proof
    assume "tr br s k \<in> fst ` set (tre br s P)"
    then obtain p where p: "p \<in> set P" "tr br s k = tr br s (fst p)"
      by (auto simp: tre_def)
    with assms(4) have "refs_ok br (fst p)" by blast
    from tr_inj[OF assms(1,5) this p(2)] p(1) assms(10) show False by auto
  qed
  then have "tset (tre br s P) (tr br s k) (tr br s v) = tre br s P @ [(tr br s k, tr br s v)]"
    by (rule tset_new)
  then show ?thesis using nk nv en by (simp add: lua_rawset_def tre_def)
qed

lemma prog_table:
  assumes "jinv b br s" and "etab br t = None" and "ecnt br \<noteq> LUA_MAXINTEGER"
    and "prog {length (d_heap s)} h b (br\<lparr>ecnt := ecnt br + 1, etab := (etab br)(t \<mapsto> ecnt br + 1)\<rparr>)
           (newtable s) br' s'"
    and "d_heap s' ! length (d_heap s) = tre br' s' (filter kept (entries h t))"
    and "\<forall>p\<in>set (filter kept (entries h t)). refs_ok br' (fst p) \<and> refs_ok br' (snd p)"
  shows "prog {} h b br s br' s'" "sigma br' s' t = Some (length (d_heap s))"
proof -
  let ?br1 = "br\<lparr>ecnt := ecnt br + 1, etab := (etab br)(t \<mapsto> ecnt br + 1)\<rparr>"
  let ?sN = "newtable s"
  note jn = jinv_newtable[OF assms(1,2,3)]
  note p = assms(4)[unfolded prog_def]
  note x = p[THEN conjunct2, THEN conjunct1, unfolded extx_def]
  from assms(1) have e: "einv br" by (simp add: jinv_def)
  note n = einv_new[OF e assms(2,3)]
  have m1: "etab ?br1 \<subseteq>\<^sub>m etab br'" "dtab (d_br ?sN) \<subseteq>\<^sub>m dtab (d_br s')" using x by simp_all
  have t1: "etab ?br1 t \<noteq> None" by simp
  show sg: "sigma br' s' t = Some (length (d_heap s))"
    using sigma_mono[OF jn(1) m1 t1] jn(2) by simp
  have 1: "etab br \<subseteq>\<^sub>m etab br'" using n(2) m1(1) by (rule map_le_trans)
  have 2: "dtab (d_br s) \<subseteq>\<^sub>m dtab (d_br s')" using jn(3) m1(2) by (rule map_le_trans)
  have 3: "length (d_heap s) \<le> length (d_heap s')" using x by simp
  have 4: "d_heap s' ! i = d_heap s ! i" if "i < length (d_heap s)" for i
  proof -
    from that x have "d_heap s' ! i = d_heap ?sN ! i" by simp
    with that show ?thesis by (simp add: nth_append)
  qed
  have 5: "length (d_heap s) \<le> t'"
    if "etab br u = None \<and> etab br' u = Some n \<and> dtab (d_br s') n = Some t'" for u n t'
  proof (cases "u = t")
    case True
    with that sg show ?thesis by (simp add: sigma_def)
  next
    case False
    with that have "etab ?br1 u = None" by simp
    with that x have "length (d_heap ?sN) \<le> t'" by blast
    then show ?thesis by simp
  qed
  have ex: "extx {} br s br' s'" unfolding extx_def using 1 2 3 4 5 by blast
  have c: "complete h br' s' u" if "etab br u = None \<and> etab br' u \<noteq> None" for u
  proof (cases "u = t")
    case True
    then show ?thesis unfolding complete_def using sg assms(5,6) by auto
  next
    case False
    with that have "etab ?br1 u = None" by simp
    with that p show ?thesis by blast
  qed
  from p ex c show "prog {} h b br s br' s'" unfolding prog_def by blast
qed

lemma prog_adv_left [simp]: "prog X h b br (adv s n) br' s' = prog X h b br s br' s'"
  by (simp add: prog_def extx_def)

lemma prog_jinv: "prog X h b br s br' s' \<Longrightarrow> jinv b br' s'"
  by (simp add: prog_def)

lemma prog_le:
  "prog X h b br s br' s' \<Longrightarrow>
     etab br \<subseteq>\<^sub>m etab br' \<and> dtab (d_br s) \<subseteq>\<^sub>m dtab (d_br s')
     \<and> length (d_heap s) \<le> length (d_heap s')
     \<and> (\<forall>i<length (d_heap s). i \<notin> X \<longrightarrow> d_heap s' ! i = d_heap s ! i)"
  by (simp add: prog_def extx_def)

text \<open>
  The decoder reads what the encoder wrote. It builds, for each table the encoder met, a new
  table whose entries are the supported entries of that table, in the same order, with each
  reference to a table replaced by the reference to its copy.
\<close>

lemma decode_wire:
  fixes b :: nat
  shows "wire env h stk br v bs br' \<Longrightarrow>
     (\<forall>s sd. jinv b br s \<and> sd + 1 \<le> stk \<and> hasb (d_buf s) bs \<and> wfh env h \<longrightarrow>
        (\<exists>s'. decode env sd s = (Inr (tr br' s' v), s')
            \<and> d_buf s' = d_buf (adv s (length bs)) \<and> prog {} h b br s br' s'))"
  and "wire_pairs env h stk br narr nrec es ps br' narr' nrec' \<Longrightarrow>
     (\<forall>s sp t0 t0' pre. jinv b br s \<and> sp \<le> stk \<and> hasb (d_buf s) ps \<and> wfh env h
          \<and> sigma br s t0 = Some t0' \<and> entries h t0 = pre @ es
          \<and> d_heap s ! t0' = tre br s (filter kept pre)
          \<and> (\<forall>p\<in>set (filter kept pre). refs_ok br (fst p) \<and> refs_ok br (snd p)) \<longrightarrow>
        (\<exists>s'. decode_pairs env sp t0' s (length (filter kept es)) = (Inr (), s')
            \<and> d_buf s' = d_buf (adv s (length ps)) \<and> prog {t0'} h b br s br' s'
            \<and> d_heap s' ! t0' = tre br' s' (filter kept (pre @ es))))"
proof (induction rule: wire_wire_pairs.inducts)
  case (w_bool env h stk br x)
  show ?case
  proof (intro allI impI)
    fix s sd
    assume a: "jinv b br s \<and> sd + 1 \<le> stk
        \<and> hasb (d_buf s) [if x then MEMCACHED_TYPE_BOOLEANTRRUE else LUA_TBOOLEAN] \<and> wfh env h"
    then have "decode env sd s = (Inr (VBool x), adv s 1)" using decode_bool by blast
    with a prog_adv[of b br s h 1]
    show "\<exists>s'. decode env sd s = (Inr (tr br s' (VBool x)), s')
            \<and> d_buf s' = d_buf (adv s (length [if x then MEMCACHED_TYPE_BOOLEANTRRUE else LUA_TBOOLEAN]))
            \<and> prog {} h b br s br s'"
      by (intro exI[of _ "adv s 1"]) simp
  qed
next
  case (w_int env h stk br i)
  show ?case
  proof (intro allI impI)
    fix s sd
    assume a: "jinv b br s \<and> sd + 1 \<le> stk
        \<and> hasb (d_buf s) (MEMCACHED_TYPE_INTEGER # htobe64 i) \<and> wfh env h"
    then have "decode env sd s = (Inr (VInt i), adv s 9)" using decode_int by blast
    with a prog_adv[of b br s h 9]
    show "\<exists>s'. decode env sd s = (Inr (tr br s' (VInt i)), s')
            \<and> d_buf s' = d_buf (adv s (length (MEMCACHED_TYPE_INTEGER # htobe64 i)))
            \<and> prog {} h b br s br s'"
      by (intro exI[of _ "adv s 9"]) simp
  qed
next
  case (w_float env h stk br d)
  show ?case
  proof (intro allI impI)
    fix s sd
    assume a: "jinv b br s \<and> sd + 1 \<le> stk
        \<and> hasb (d_buf s) (LUA_TNUMBER # double_bytes env d) \<and> wfh env h"
    then have "decode env sd s = (Inr (VFloat d), adv s 9)" using decode_float by blast
    with a prog_adv[of b br s h 9]
    show "\<exists>s'. decode env sd s = (Inr (tr br s' (VFloat d)), s')
            \<and> d_buf s' = d_buf (adv s (length (LUA_TNUMBER # double_bytes env d)))
            \<and> prog {} h b br s br s'"
      by (intro exI[of _ "adv s 9"]) simp
  qed
next
  case (w_short str env h stk br)
  show ?case
  proof (intro allI impI)
    fix s sd
    assume a: "jinv b br s \<and> sd + 1 \<le> stk
        \<and> hasb (d_buf s) (MEMCACHED_TYPE_STRINGSHORT # of_nat (length str) # str) \<and> wfh env h"
    then have "decode env sd s = (Inr (VStr str), adv s (2 + length str))"
      using decode_short w_short.hyps by blast
    with a prog_adv[of b br s h "2 + length str"]
    show "\<exists>s'. decode env sd s = (Inr (tr br s' (VStr str)), s')
            \<and> d_buf s' = d_buf (adv s (length (MEMCACHED_TYPE_STRINGSHORT # of_nat (length str) # str)))
            \<and> prog {} h b br s br s'"
      by (intro exI[of _ "adv s (2 + length str)"]) simp
  qed
next
  case (w_long str env h stk br)
  show ?case
  proof (intro allI impI)
    fix s sd
    assume a: "jinv b br s \<and> sd + 1 \<le> stk
        \<and> hasb (d_buf s) (LUA_TSTRING # htobe64 (of_nat (length str)) @ str) \<and> wfh env h"
    then have "decode env sd s = (Inr (VStr str), adv s (9 + length str))"
      using decode_long w_long.hyps(2) by blast
    with a prog_adv[of b br s h "9 + length str"]
    show "\<exists>s'. decode env sd s = (Inr (tr br s' (VStr str)), s')
            \<and> d_buf s' = d_buf (adv s (length (LUA_TSTRING # htobe64 (of_nat (length str)) @ str)))
            \<and> prog {} h b br s br s'"
      by (intro exI[of _ "adv s (9 + length str)"]) simp
  qed
next
  case (w_ref env stk br t n h)
  show ?case
  proof (intro allI impI)
    fix s sd
    assume a: "jinv b br s \<and> sd + 1 \<le> stk
        \<and> hasb (d_buf s) (MEMCACHED_TYPE_TABLEREF # htobe64 (of_int n)) \<and> wfh env h"
    then have j: "jinv b br s" and hb: "hasb (d_buf s) (MEMCACHED_TYPE_TABLEREF # htobe64 (of_int n))"
      by blast+
    from jinv_sigma[OF j w_ref.hyps(2)] obtain t' where
      t: "sigma br s t = Some t'" "dtab (d_br s) n = Some t'" by blast
    from j w_ref.hyps(2) have n: "1 \<le> n" "n \<le> LUA_MAXINTEGER"
      unfolding jinv_def einv_def by (blast, force)
    have "decode env sd s = (Inr (VTable t'), adv s 9)" by (rule decode_ref[OF hb n t(2)])
    with j t(1) prog_adv[of b br s h 9]
    show "\<exists>s'. decode env sd s = (Inr (tr br s' (VTable t)), s')
            \<and> d_buf s' = d_buf (adv s (length (MEMCACHED_TYPE_TABLEREF # htobe64 (of_int n))))
            \<and> prog {} h b br s br s'"
      by (intro exI[of _ "adv s 9"]) (simp add: tr_def)
  qed
next
  case (w_table env stk br t h ps br' narr nrec)
  let ?br1 = "br\<lparr>ecnt := ecnt br + 1, etab := (etab br)(t \<mapsto> ecnt br + 1)\<rparr>"
  let ?w = "size_class narr nrec"
  let ?bs = "table_tag ?w # be_bytes ?w narr @ be_bytes ?w nrec @ ps"
  let ?K = "filter kept (entries h t)"
  show ?case
  proof (intro allI impI)
    fix s sd
    assume a: "jinv b br s \<and> sd + 1 \<le> stk \<and> hasb (d_buf s) ?bs \<and> wfh env h"
    then have j: "jinv b br s" and st: "sd + 1 \<le> stk" and hb: "hasb (d_buf s) ?bs"
      and wf: "wfh env h" by blast+
    have z: "(0::nat) \<le> INT64_MAX" by simp
    from wire_pairs_counts(2)[OF w_table.hyps(4)] z
    have c: "narr + nrec = length ?K" "narr \<le> INT64_MAX" "nrec \<le> INT64_MAX" by auto
    let ?s0 = "adv s (1 + 2 * ?w)"
    let ?sN = "newtable ?s0"
    let ?tN = "length (d_heap s)"
    from w_table.hyps(1) st have cs: "lua_checkstack env sd 3" by (simp add: lua_checkstack_def)
    have d1: "decode env sd s = decodetable env sd ?s0 narr nrec"
      using decode_header(1)[OF hb c(2,3)] by (simp add: decode.simps)
    have j0: "jinv b br ?s0" using j by simp
    note jn = jinv_newtable[OF j0 w_table.hyps(2,3)]
    have hN: "hasb (d_buf ?sN) ps" using decode_header(2)[OF hb c(2,3)] by simp
    have sg: "sigma ?br1 ?sN t = Some ?tN" using jn(2) by simp
    have "\<exists>s'. decode_pairs env (sd + 1) ?tN ?sN (length ?K) = (Inr (), s')
            \<and> d_buf s' = d_buf (adv ?sN (length ps)) \<and> prog {?tN} h b ?br1 ?sN br' s'
            \<and> d_heap s' ! ?tN = tre br' s' (filter kept ([] @ entries h t))"
      using w_table.IH[rule_format, of ?sN "sd + 1" t ?tN "[]"] jn(1) st hN wf sg
      by (simp add: tre_def)
    then obtain s' where s': "decode_pairs env (sd + 1) ?tN ?sN (length ?K) = (Inr (), s')"
      "d_buf s' = d_buf (adv ?sN (length ps))" "prog {?tN} h b ?br1 ?sN br' s'"
      "d_heap s' ! ?tN = tre br' s' ?K" by auto
    from j have e: "einv br" by (simp add: jinv_def)
    note n = einv_new[OF e w_table.hyps(2,3)]
    from wire_einv(2)[OF w_table.hyps(4) n(1)]
    have ro: "\<forall>p\<in>set ?K. refs_ok br' (fst p) \<and> refs_ok br' (snd p)" by auto
    have p4: "prog {length (d_heap ?s0)} h b ?br1 ?sN br' s'" using s'(3) by simp
    have p5: "d_heap s' ! length (d_heap ?s0) = tre br' s' ?K" using s'(4) by simp
    note pt = prog_table[OF j0 w_table.hyps(2,3) p4 p5 ro]
    have l: "length ?bs = 1 + 2 * ?w + length ps" by simp
    show "\<exists>s'. decode env sd s = (Inr (tr br' s' (VTable t)), s')
            \<and> d_buf s' = d_buf (adv s (length ?bs)) \<and> prog {} h b br s br' s'"
    proof (intro exI[of _ s'] conjI)
      have "decodetable env sd ?s0 narr nrec = (Inr (VTable ?tN), s')"
        using decodetable_sum[OF cs, of ?s0 narr nrec] s'(1) c(1) by simp
      with d1 pt(2) show "decode env sd s = (Inr (tr br' s' (VTable t)), s')"
        by (simp add: tr_def)
      show "d_buf s' = d_buf (adv s (length ?bs))"
        unfolding l using s'(2) by (simp add: adv_newtable)
      show "prog {} h b br s br' s'" using pt(1) by simp
    qed
  qed
next
  case (wp_nil env h stk br narr nrec)
  show ?case
  proof (intro allI impI)
    fix s sp t0 t0' pre
    assume a: "jinv b br s \<and> sp \<le> stk \<and> hasb (d_buf s) [] \<and> wfh env h
          \<and> sigma br s t0 = Some t0' \<and> entries h t0 = pre @ []
          \<and> d_heap s ! t0' = tre br s (filter kept pre)
          \<and> (\<forall>p\<in>set (filter kept pre). refs_ok br (fst p) \<and> refs_ok br (snd p))"
    then have j: "jinv b br s" by blast
    from prog_mono[OF prog_adv[OF j, of h 0], of "{t0'}"] have "prog {t0'} h b br s br s" by simp
    with a show "\<exists>s'. decode_pairs env sp t0' s (length (filter kept [])) = (Inr (), s')
            \<and> d_buf s' = d_buf (adv s (length [])) \<and> prog {t0'} h b br s br s'
            \<and> d_heap s' ! t0' = tre br s' (filter kept (pre @ []))"
      by (intro exI[of _ s]) simp
  qed
next
  case (wp_skip kv env h stk br narr nrec es ps br' narr' nrec')
  from wp_skip.hyps(1) have nk: "\<not> kept kv" by (simp add: kept_def)
  show ?case
  proof (intro allI impI)
    fix s sp t0 t0' pre
    assume a: "jinv b br s \<and> sp \<le> stk \<and> hasb (d_buf s) ps \<and> wfh env h
          \<and> sigma br s t0 = Some t0' \<and> entries h t0 = pre @ kv # es
          \<and> d_heap s ! t0' = tre br s (filter kept pre)
          \<and> (\<forall>p\<in>set (filter kept pre). refs_ok br (fst p) \<and> refs_ok br (snd p))"
    with nk wp_skip.IH[rule_format, of s sp t0 t0' "pre @ [kv]"]
    show "\<exists>s'. decode_pairs env sp t0' s (length (filter kept (kv # es))) = (Inr (), s')
            \<and> d_buf s' = d_buf (adv s (length ps)) \<and> prog {t0'} h b br s br' s'
            \<and> d_heap s' ! t0' = tre br' s' (filter kept (pre @ kv # es))"
      by simp
  qed
next
  case (wp_cons kv env narr nrec na nr h stk br ks br1 vs br2 es ps br' narr' nrec')
  let ?P = "filter kept pre"
  from wp_cons.hyps(1) have kk: "kept kv" and sk: "supported (fst kv)" and sv: "supported (snd kv)"
    by (simp_all add: kept_def)
  show ?case
  proof (intro allI impI)
    fix s sp t0 t0' pre
    let ?P = "filter kept pre"
    assume a: "jinv b br s \<and> sp \<le> stk \<and> hasb (d_buf s) (ks @ vs @ ps) \<and> wfh env h
          \<and> sigma br s t0 = Some t0' \<and> entries h t0 = pre @ kv # es
          \<and> d_heap s ! t0' = tre br s ?P
          \<and> (\<forall>p\<in>set ?P. refs_ok br (fst p) \<and> refs_ok br (snd p))"
    then have j: "jinv b br s" and st: "sp \<le> stk" and hb: "hasb (d_buf s) (ks @ vs @ ps)"
      and wf: "wfh env h" and sg: "sigma br s t0 = Some t0'" and en: "entries h t0 = pre @ kv # es"
      and hp: "d_heap s ! t0' = tre br s ?P"
      and ro: "\<forall>p\<in>set ?P. refs_ok br (fst p) \<and> refs_ok br (snd p)" by blast+
    from hasb_append[OF hb] have h1: "hasb (d_buf s) ks"
      and h2: "hasb (d_buf (adv s (length ks))) (vs @ ps)" by blast+
    have "\<exists>s1. decode env sp s = (Inr (tr br1 s1 (fst kv)), s1)
            \<and> d_buf s1 = d_buf (adv s (length ks)) \<and> prog {} h b br s br1 s1"
      using wp_cons.IH(1)[rule_format, of s sp] j st h1 wf by simp
    then obtain s1 where s1: "decode env sp s = (Inr (tr br1 s1 (fst kv)), s1)"
      "d_buf s1 = d_buf (adv s (length ks))" "prog {} h b br s br1 s1" by blast
    note j1 = prog_jinv[OF s1(3)]
    have h2': "hasb (d_buf s1) (vs @ ps)" using h2 s1(2) by simp
    from hasb_append[OF h2'] have h3: "hasb (d_buf s1) vs"
      and h4: "hasb (d_buf (adv s1 (length vs))) ps" by blast+
    have "\<exists>s2. decode env (sp + 1) s1 = (Inr (tr br2 s2 (snd kv)), s2)
            \<and> d_buf s2 = d_buf (adv s1 (length vs)) \<and> prog {} h b br1 s1 br2 s2"
      using wp_cons.IH(2)[rule_format, of s1 "sp + 1"] j1 st h3 wf by simp
    then obtain s2 where s2: "decode env (sp + 1) s1 = (Inr (tr br2 s2 (snd kv)), s2)"
      "d_buf s2 = d_buf (adv s1 (length vs))" "prog {} h b br1 s1 br2 s2" by blast
    note j2 = prog_jinv[OF s2(3)]
    have p12: "prog {} h b br s br2 s2" using prog_trans[OF s1(3) s2(3)] by simp
    note x12 = prog_le[OF p12]
    note x2 = prog_le[OF s2(3)]
    from j have e: "einv br" by (simp add: jinv_def)
    from wire_einv(1)[OF wp_cons.hyps(3) e]
    have e1: "einv br1" and rk1: "refs_ok br1 (fst kv)" by blast+
    from wire_einv(1)[OF wp_cons.hyps(4) e1]
    have m12: "etab br1 \<subseteq>\<^sub>m etab br2" and rv2: "refs_ok br2 (snd kv)" by blast+
    from rk1 m12 have rk2: "refs_ok br2 (fst kv)" by (rule refs_ok_mono)
    from x2 have d12: "dtab (d_br s1) \<subseteq>\<^sub>m dtab (d_br s2)" by blast
    note trk = tr_mono[OF j1 m12 d12 rk1]
    from x12 have m02: "etab br \<subseteq>\<^sub>m etab br2" and d02: "dtab (d_br s) \<subseteq>\<^sub>m dtab (d_br s2)"
      by blast+
    from ro m02 have ro2: "\<forall>p\<in>set ?P. refs_ok br2 (fst p) \<and> refs_ok br2 (snd p)"
      by (blast intro: refs_ok_mono)
    from sg obtain n where et: "etab br t0 = Some n"
      by (auto simp: sigma_def split: option.splits)
    from jinv_sigma[OF j et] sg have lt: "t0' < length (d_heap s)" by auto
    with x12 have lt2: "t0' < length (d_heap s2)" by simp
    from x12 lt have "d_heap s2 ! t0' = d_heap s ! t0'" by simp
    with hp tre_mono[OF j m02 d02 ro] have hp2: "d_heap s2 ! t0' = tre br2 s2 ?P" by simp
    from wfh_entries[OF wf, of t0] en
    have dk: "distinct (map fst (pre @ kv # es))" and nk: "normkey env (fst kv) = Inr (fst kv)"
      by simp_all
    from dk have nin: "fst kv \<notin> fst ` set ?P" by auto
    note ra = rawset_append[OF j2 lt2 hp2 ro2 rk2 rv2 sk sv nk nin]
    let ?s3 = "s2\<lparr>d_heap := (d_heap s2)[t0' := tre br2 s2 (?P @ [(fst kv, snd kv)])]\<rparr>"
    note p3 = prog_upd[OF j2 lt2, of h "tre br2 s2 (?P @ [(fst kv, snd kv)])"]
    have p13: "prog {t0'} h b br s br2 ?s3" using prog_trans[OF p12 p3] lt by simp
    note j3 = prog_jinv[OF p3]
    have et0: "etab br t0 \<noteq> None" using et by simp
    have sg3: "sigma br2 ?s3 t0 = Some t0'" using sigma_mono[OF j m02 d02 et0] sg by simp
    have en3: "entries h t0 = (pre @ [kv]) @ es" using en by simp
    have hp3: "d_heap ?s3 ! t0' = tre br2 ?s3 (filter kept (pre @ [kv]))"
      using lt2 kk by simp
    have ro3: "\<forall>p\<in>set (filter kept (pre @ [kv])). refs_ok br2 (fst p) \<and> refs_ok br2 (snd p)"
      using ro2 rk2 rv2 by auto
    have hb3: "hasb (d_buf ?s3) ps" using h4 s2(2) by simp
    have "\<exists>s'. decode_pairs env sp t0' ?s3 (length (filter kept es)) = (Inr (), s')
            \<and> d_buf s' = d_buf (adv ?s3 (length ps)) \<and> prog {t0'} h b br2 ?s3 br' s'
            \<and> d_heap s' ! t0' = tre br' s' (filter kept ((pre @ [kv]) @ es))"
      using wp_cons.IH(3)[rule_format, of ?s3 sp t0 t0' "pre @ [kv]"] j3 st hb3 wf sg3 en3 hp3 ro3
      by blast
    then obtain s' where s': "decode_pairs env sp t0' ?s3 (length (filter kept es)) = (Inr (), s')"
      "d_buf s' = d_buf (adv ?s3 (length ps))" "prog {t0'} h b br2 ?s3 br' s'"
      "d_heap s' ! t0' = tre br' s' (filter kept ((pre @ [kv]) @ es))" by blast
    have pf: "prog {t0'} h b br s br' s'" using prog_trans[OF p13 s'(3)] lt by simp
    show "\<exists>s'. decode_pairs env sp t0' s (length (filter kept (kv # es))) = (Inr (), s')
            \<and> d_buf s' = d_buf (adv s (length (ks @ vs @ ps))) \<and> prog {t0'} h b br s br' s'
            \<and> d_heap s' ! t0' = tre br' s' (filter kept (pre @ kv # es))"
    proof (intro exI[of _ s'] conjI)
      have "decode_pairs env sp t0' s (Suc (length (filter kept es))) = (Inr (), s')"
        unfolding decode_pairs_Suc using s1(1) s2(1) trk ra s'(1) by simp
      with kk show "decode_pairs env sp t0' s (length (filter kept (kv # es))) = (Inr (), s')"
        by simp
      have "d_buf ?s3 = d_buf (adv s (length ks + length vs))"
        using adv_buf[OF s1(2), of "length vs"] s2(2) by simp
      from adv_buf[OF this, of "length ps"] s'(2)
      show "d_buf s' = d_buf (adv s (length (ks @ vs @ ps)))" by (simp add: add.assoc)
      show "prog {t0'} h b br s br' s'" by (rule pf)
      show "d_heap s' ! t0' = tre br' s' (filter kept (pre @ kv # es))" using s'(4) by simp
    qed
  qed
qed

lemma wire_in_heap:
  "wire env h stk br v bs br' \<Longrightarrow> wfh env h \<Longrightarrow> in_heap h v \<Longrightarrow>
     (\<forall>t. etab br t \<noteq> None \<longrightarrow> t < length h) \<Longrightarrow> (\<forall>t. etab br' t \<noteq> None \<longrightarrow> t < length h)"
  "wire_pairs env h stk br narr nrec es ps br' narr' nrec' \<Longrightarrow> wfh env h \<Longrightarrow>
     (\<forall>p\<in>set es. in_heap h (fst p) \<and> in_heap h (snd p)) \<Longrightarrow>
     (\<forall>t. etab br t \<noteq> None \<longrightarrow> t < length h) \<Longrightarrow> (\<forall>t. etab br' t \<noteq> None \<longrightarrow> t < length h)"
proof (induction rule: wire_wire_pairs.inducts)
  case (w_table env stk br t h ps br' narr nrec)
  from w_table.prems(2) have t: "t < length h" by (simp add: in_heap_def)
  from wfh_entries[OF w_table.prems(1), of t]
  have 1: "\<forall>p\<in>set (entries h t). in_heap h (fst p) \<and> in_heap h (snd p)" by blast
  have 2: "\<forall>u. etab (br\<lparr>ecnt := ecnt br + 1, etab := (etab br)(t \<mapsto> ecnt br + 1)\<rparr>) u \<noteq> None
             \<longrightarrow> u < length h"
    using t w_table.prems(3) by simp
  show ?case by (rule w_table.IH[OF w_table.prems(1) 1 2])
next
  case (wp_cons kv env narr nrec na nr h stk br ks br1 vs br2 es ps br' narr' nrec')
  from wp_cons.prems(2) have k: "in_heap h (fst kv)" and v: "in_heap h (snd kv)"
    and r: "\<forall>p\<in>set es. in_heap h (fst p) \<and> in_heap h (snd p)" by simp_all
  note 1 = wp_cons.IH(1)[OF wp_cons.prems(1) k wp_cons.prems(3)]
  note 2 = wp_cons.IH(2)[OF wp_cons.prems(1) v 1]
  show ?case by (rule wp_cons.IH(3)[OF wp_cons.prems(1) r 2])
qed simp_all

text \<open>
  When every table the encoder has met is complete, the value and its copy are structurally
  equal, by the relation between a table and its copy. The heap on the left is the heap of
  the value without the entries that the encoder skips.
\<close>

lemma complete_struct_eq:
  assumes "jinv b0 br s" and "\<forall>t. etab br t \<noteq> None \<longrightarrow> complete h br s t \<and> t < length h"
    and "refs_ok br v"
  shows "struct_eq (map (filter kept) h) v (d_heap s) (tr br s v)"
proof -
  let ?R = "\<lambda>x y. sigma br s x = Some y"
  have bu: "bi_unique ?R" unfolding bi_unique_def using sigma_inj[OF assms(1)] by auto
  have vr: "val_rel ?R u (tr br s u)" if "refs_ok br u" for u
  proof (cases u)
    case (VTable t)
    with that tr_table[OF assms(1), of t] show ?thesis by (auto simp: val_rel_def)
  qed (simp_all add: val_rel_def)
  have st: "same_tables ?R (map (filter kept) h) (d_heap s)"
    unfolding same_tables_def
  proof (intro allI impI)
    fix x y
    assume xy: "sigma br s x = Some y"
    then obtain n where n: "etab br x = Some n" by (auto simp: sigma_def split: option.splits)
    with assms(2) have c: "complete h br s x" and x: "x < length h" by auto
    from jinv_sigma[OF assms(1) n] xy have y: "y < length (d_heap s)" by auto
    let ?K = "filter kept (entries h x)"
    from c xy have hy: "d_heap s ! y = tre br s ?K"
      and ro: "\<forall>p\<in>set ?K. refs_ok br (fst p) \<and> refs_ok br (snd p)"
      by (auto simp: complete_def)
    from x have hx: "map (filter kept) h ! x = ?K" by (simp add: entries_def)
    have "list_all2 (\<lambda>p q. val_rel ?R (fst p) (fst q) \<and> val_rel ?R (snd p) (snd q)) ?K (tre br s ?K)"
      unfolding tre_def list_all2_map2 using ro vr by (intro list_all2_same[THEN iffD2]) auto
    with x y hx hy
    show "x < length (map (filter kept) h) \<and> y < length (d_heap s)
        \<and> list_all2 (\<lambda>p q. val_rel ?R (fst p) (fst q) \<and> val_rel ?R (snd p) (snd q))
             (map (filter kept) h ! x) (d_heap s ! y)" by simp
  qed
  from bu st vr[OF assms(3)] show ?thesis unfolding struct_eq_def by blast
qed

text \<open>
  \<^verbatim>\<open>decode\<close> of what \<^verbatim>\<open>encode\<close> returned: it returns, it leaves the buffer as it was,
  and its result is structurally equal to the encoded value in the heap without the skipped
  entries. The decoder may start from any heap \<open>hs\<close> (in a Lua state it is the heap \<open>h\<close>
  itself); its tables are new ones.
\<close>

lemma roundtrip:
  assumes m: "mencode env h (Some v) = Inr b" and wf: "wfh env h" and iv: "in_heap h v"
  shows "\<exists>v' h'. mdecode env hs (EncBuffer b) = (Inr v', h', EncBuffer b)
           \<and> struct_eq (map (filter kept) h) v h' v'"
proof -
  let ?br0 = "\<lparr>etab = Map.empty, ecnt = 0\<rparr>"
  from m obtain v0 b1 b3 br where v0: "Some v = Some v0"
    and r: "buffer_require env buffer0 4 = Inr b1"
    and e: "encode env h 3 (put_bytes b1 MEMCACHED_CODEC_VERSION) ?br0 v0 = Inr (b3, br)"
    and b: "b = b3\<lparr>len := pos b3\<rparr>" by (rule mencode_Inr)
  from v0 e have e: "encode env h 3 (put_bytes b1 MEMCACHED_CODEC_VERSION) ?br0 v = Inr (b3, br)"
    by simp
  have p4: "pos (put_bytes b1 MEMCACHED_CODEC_VERSION) = 4"
    using buffer_require_Inr(1)[OF r] by (simp add: put_bytes_def buffer0_def)
  from encode_wire(1)[OF e] p4 obtain bs where w: "wire env h 3 ?br0 v bs br"
    and pb: "pos b3 = 4 + length bs" and rb: "read_bytes (bytes b3) 4 (length bs) = bs" by auto
  note sh = mencode_shape[OF m]
  let ?s0 = "\<lparr>d_heap = hs, d_buf = b\<lparr>pos := 0\<rparr>, d_br = \<lparr>dtab = Map.empty, dcnt = 0\<rparr>\<rparr>"
  have sm: "len b \<le> SIZE_MAX" using sh(3) by (simp add: MEMCACHED_BUFFER_MAX_def SIZE_MAX_def)
  have hv: "hasb (d_buf ?s0) MEMCACHED_CODEC_VERSION" using sh(4,5) sm by (simp add: hasb_def)
  from read_n_hasb'[OF hv, of 4]
  have r0: "read_n ?s0 (length MEMCACHED_CODEC_VERSION) = (Inr MEMCACHED_CODEC_VERSION, adv ?s0 4)"
    by simp
  let ?s1 = "adv ?s0 4"
  have j: "jinv (length hs) ?br0 ?s1" by (simp add: jinv_def einv_def LUA_MAXINTEGER_def)
  have lb: "len b = 4 + length bs" using b pb by simp
  have hb: "hasb (d_buf ?s1) bs" using lb rb b sm by (simp add: hasb_def)
  from decode_wire(1)[OF w, rule_format, of "length hs" ?s1 2] j hb wf
  obtain s' where d: "decode env 2 ?s1 = (Inr (tr br s' v), s')"
    and db: "d_buf s' = d_buf (adv ?s1 (length bs))"
    and pr: "prog {} h (length hs) ?br0 ?s1 br s'" by auto
  have "d_buf (adv ?s1 (length bs)) = b\<lparr>pos := pos b\<rparr>" using lb sh(1) by (simp add: adv_def)
  with db have db: "d_buf s' = b" by simp
  have md: "mdecode_buffer env hs b = (Inr (tr br s' v), s')"
    using r0 d db sh(1) by (simp add: mdecode_buffer_def Let_def)
  note j' = prog_jinv[OF pr]
  from j' have e0: "einv ?br0" by (simp add: einv_def LUA_MAXINTEGER_def)
  from wire_einv(1)[OF w e0] have ro: "refs_ok br v" by blast
  from wire_in_heap(1)[OF w wf iv] have ih: "\<forall>t. etab br t \<noteq> None \<longrightarrow> t < length h" by simp
  from pr have "\<forall>t. etab br t \<noteq> None \<longrightarrow> complete h br s' t" by (simp add: prog_def)
  with ih have c: "\<forall>t. etab br t \<noteq> None \<longrightarrow> complete h br s' t \<and> t < length h" by blast
  note se = complete_struct_eq[OF j' c ro]
  from md db se show ?thesis by (simp add: mdecode_def)
qed

lemma entries_strip: "entries (map (filter kept) h) t = filter kept (entries h t)"
  by (simp add: entries_def)

lemma encode_strip:
  "encode env h stk bf br v = encode env (map (filter kept) h) stk bf br v"
  "encode_pairs env h stk bf br narr nrec es
     = encode_pairs env (map (filter kept) h) stk bf br narr nrec (filter kept es)"
proof (induction env h stk bf br v and env h stk bf br narr nrec es
       rule: encode_encode_pairs.induct)
  case (5 env h stk bf br t)
  show ?case
  proof (cases "lua_checkstack env stk 2 \<and> etab br t = None \<and> ecnt br \<noteq> LUA_MAXINTEGER")
    case False
    then show ?thesis by (auto simp: encode.simps)
  next
    case True
    show ?thesis
    proof (cases "buffer_require env bf (1 + 2)")
      case (Inl e)
      with True show ?thesis by (simp add: encode.simps)
    next
      case (Inr bf1)
      from "5.IH"[OF _ _ _ Inr] True
      have "encode_pairs env h stk ((put bf1 MEMCACHED_TYPE_TABLE8)\<lparr>pos := pos bf1 + 3\<rparr>)
              (br\<lparr>ecnt := ecnt br + 1, etab := (etab br)(t \<mapsto> ecnt br + 1)\<rparr>) 0 0 (entries h t)
          = encode_pairs env (map (filter kept) h) stk ((put bf1 MEMCACHED_TYPE_TABLE8)\<lparr>pos := pos bf1 + 3\<rparr>)
              (br\<lparr>ecnt := ecnt br + 1, etab := (etab br)(t \<mapsto> ecnt br + 1)\<rparr>) 0 0
              (filter kept (entries h t))" by simp
      with True Inr show ?thesis by (simp add: encode.simps entries_strip)
    qed
  qed
next
  case (9 env h stk bf br narr nrec kv es)
  show ?case
  proof (cases "supported (fst kv) \<and> supported (snd kv)")
    case False
    then have nk: "\<not> kept kv" by (simp add: kept_def)
    from False have "encode_pairs env h stk bf br narr nrec (kv # es)
        = encode_pairs env h stk bf br narr nrec es" by (auto simp: encode_pairs.simps)
    with "9.IH"(4)[OF False] nk show ?thesis by simp
  next
    case sup: True
    then have k: "kept kv" by (simp add: kept_def)
    show ?thesis
    proof (cases "classify env (fst kv) narr nrec")
      case (Inl e)
      with sup k show ?thesis by (simp add: encode_pairs.simps)
    next
      case (Inr c)
      obtain na nr where c: "c = (na, nr)" by (cases c)
      note 1 = "9.IH"(1)[OF sup Inr c[symmetric]]
      show ?thesis
      proof (cases "encode env h (stk + 2) bf br (fst kv)")
        case e1: (Inl e)
        with sup k Inr c 1 show ?thesis by (simp add: encode_pairs.simps)
      next
        case e1: (Inr x)
        obtain bf1 br1 where x: "x = (bf1, br1)" by (cases x)
        note 2 = "9.IH"(2)[OF sup Inr c[symmetric] e1 x[symmetric]]
        show ?thesis
        proof (cases "encode env h (stk + 2) bf1 br1 (snd kv)")
          case e2: (Inl e)
          with sup k Inr c 1 e1 x 2 show ?thesis by (simp add: encode_pairs.simps)
        next
          case e2: (Inr y)
          obtain bf2 br2 where y: "y = (bf2, br2)" by (cases y)
          note 3 = "9.IH"(3)[OF sup Inr c[symmetric] e1 x[symmetric] e2 y[symmetric]]
          from sup k Inr c 1 e1 x 2 e2 y 3 show ?thesis by (simp add: encode_pairs.simps)
        qed
      qed
    qed
  qed
qed (simp_all add: encode.simps encode_pairs.simps)

section \<open>Encoding and decoding again\<close>


lemma mencode_strip: "mencode env h arg = mencode env (map (filter kept) h) arg"
  unfolding mencode_def encode_strip(1)[of env h, symmetric] by (rule refl)


lemma mencode_unsupported:
  "\<exists>b. mencode env_ok [[(VInt 1, VTable 0), (VStr [107], VOther 0), (VOther 1, VInt 5)]]
         (Some (VTable 0)) = Inr b"
  by (simp add: mencode_def env_ok_def buffer_require_def encode.simps encode_pairs.simps
      entries_def classify_def lua_tointeger_def lua_checkstack_def table_sizes_def
      put_def put_bytes_def MEMCACHED_BUFFER_SIZE_def MEMCACHED_BUFFER_MAX_def SIZE_MAX_def
      UINT8_MAX_def INT64_MAX_def LUA_MAXINTEGER_def UINT64_MAX_def)


lemma wfh_unsupported:
  "wfh env_ok [[(VInt 1, VTable 0), (VStr [107], VOther 0), (VOther 1, VInt 5)]]"
  by (simp add: wfh_def normkey_def in_heap_def)




text \<open>
  Claim C7. An entry of a table whose key or value is not supported (not a boolean, a number,
  a string or a table) adds nothing to the encoding and raises no error: \<open>encode_pairs\<close> on
  the entries with it is \<open>encode_pairs\<close> on the entries without it, and \<open>mencode\<close> in a heap
  is \<open>mencode\<close> in the heap without such entries (\<open>kept\<close> holds for an entry when its key and
  its value are supported). When \<open>mencode\<close> returns a buffer, \<open>mdecode\<close> of it returns a value
  structurally equal to the encoded value in the heap without such entries: each decoded
  table has the entries with supported key and value of the table it stands for, in the same
  order, and no others.
\<close>

theorem unsupported_entries_dropped:
  "(\<not> (supported k \<and> supported x) \<longrightarrow>
      encode_pairs env h stk bf br narr nrec ((k, x) # es)
        = encode_pairs env h stk bf br narr nrec es)
   \<and> mencode env h arg = mencode env (map (filter kept) h) arg
   \<and> (wfh env h \<and> in_heap h v \<and> mencode env h (Some v) = Inr b \<longrightarrow>
      (\<exists>v' h'. mdecode env hs (EncBuffer b) = (Inr v', h', EncBuffer b)
          \<and> struct_eq (map (filter kept) h) v h' v'))"
proof (intro conjI impI)
  assume "\<not> (supported k \<and> supported x)"
  then show "encode_pairs env h stk bf br narr nrec ((k, x) # es)
        = encode_pairs env h stk bf br narr nrec es"
    by (auto simp: encode_pairs.simps)
next
  show "mencode env h arg = mencode env (map (filter kept) h) arg" by (rule mencode_strip)
next
  assume "wfh env h \<and> in_heap h v \<and> mencode env h (Some v) = Inr b"
  with roundtrip[of env h v b hs]
  show "\<exists>v' h'. mdecode env hs (EncBuffer b) = (Inr v', h', EncBuffer b)
          \<and> struct_eq (map (filter kept) h) v h' v'" by blast
qed

theorem unsupported_entries_dropped_witness:
  "encode_pairs env_ok [[(VInt 1, VTable 0), (VStr [107], VOther 0), (VOther 1, VInt 5)]] 3 buffer0
       \<lparr>etab = Map.empty, ecnt = 0\<rparr> 0 0 [(VStr [107], VOther 0)]
     = Inr (buffer0, \<lparr>etab = Map.empty, ecnt = 0\<rparr>, 0, 0)
   \<and> (\<exists>b v' h'.
        mencode env_ok [[(VInt 1, VTable 0), (VStr [107], VOther 0), (VOther 1, VInt 5)]]
          (Some (VTable 0)) = Inr b
        \<and> mdecode env_ok [] (EncBuffer b) = (Inr v', h', EncBuffer b)
        \<and> struct_eq [[(VInt 1, VTable 0)]] (VTable 0) h' v')"
proof -
  let ?h = "[[(VInt 1, VTable 0), (VStr [107], VOther 0), (VOther 1, VInt 5)]]"
  from mencode_unsupported obtain b where b: "mencode env_ok ?h (Some (VTable 0)) = Inr b" ..
  have i: "in_heap ?h (VTable 0)" by (simp add: in_heap_def)
  have s: "map (filter kept) ?h = [[(VInt 1, VTable 0)]]" by (simp add: kept_def)
  note u = unsupported_entries_dropped[of "VStr [107]" "VOther 0" env_ok ?h 3 buffer0
      "\<lparr>etab = Map.empty, ecnt = 0\<rparr>" 0 0 "[]" "Some (VTable 0)" "VTable 0" b "[]"]
  from u[THEN conjunct1]
  have 1: "encode_pairs env_ok ?h 3 buffer0 \<lparr>etab = Map.empty, ecnt = 0\<rparr> 0 0
       [(VStr [107], VOther 0)]
     = Inr (buffer0, \<lparr>etab = Map.empty, ecnt = 0\<rparr>, 0, 0)" by (simp add: encode_pairs.simps)
  from u[THEN conjunct2, THEN conjunct2] wfh_unsupported i b
  have "\<exists>v' h'. mdecode env_ok [] (EncBuffer b) = (Inr v', h', EncBuffer b)
          \<and> struct_eq (map (filter kept) ?h) (VTable 0) h' v'" by blast
  then have 2: "\<exists>v' h'. mdecode env_ok [] (EncBuffer b) = (Inr v', h', EncBuffer b)
          \<and> struct_eq [[(VInt 1, VTable 0)]] (VTable 0) h' v'" unfolding s .
  from 1 2 b show ?thesis by blast
qed

end
